(* ===== verification/Prelude.thy ===== *)
theory Prelude
  imports
    Main
    "HOL-Library.Word"
    "HOL-Library.Sublist"
    "HOL-Library.Monad_Syntax"
    "HOL-Library.AList"
begin

text \<open>
  Shared vocabulary of the development.

  \<^item> The part of \<^verbatim>\<open>std::string\<close> that the sources use: forward and backward searches (\<open>None\<close> is
    \<^verbatim>\<open>npos\<close>) and \<^verbatim>\<open>substr\<close>, whose \<^verbatim>\<open>std::out_of_range\<close> is the value \<open>None\<close>. A string is a list of
    bytes (\<^typ>\<open>char list\<close>).
  \<^item> The C conversions \<^verbatim>\<open>strtoul\<close>, \<^verbatim>\<open>strtol\<close>, \<^verbatim>\<open>atoi\<close> and \<^verbatim>\<open>std::to_string\<close> on the 64-bit platform the
    program is written for: \<^verbatim>\<open>unsigned long\<close> and \<^verbatim>\<open>size_t\<close> are 64 bits wide and saturate, \<^verbatim>\<open>int\<close> is
    32 bits wide and \<^verbatim>\<open>atoi\<close> truncates \<^verbatim>\<open>strtol\<close> to it.
  \<^item> The lemmas about them that every component needs, collected in \<open>find_facts\<close> (what a
    search result says about its string) and \<open>substr_eqs\<close> (substrings in range).
\<close>

named_theorems find_facts \<open>what a successful or failed search says about the string\<close>
named_theorems substr_eqs \<open>substrings whose position is in range\<close>

type_synonym uint64 = "64 word"
type_synonym size_t = nat \<comment> \<open>values below \<open>2 ^ 64\<close>; wrap-around is written out where it can occur\<close>
type_synonym fd = int     \<comment> \<open>\<open>-1\<close> is the invalid descriptor\<close>

abbreviation CR :: char where "CR \<equiv> CHR 0x0D"
abbreviation LF :: char where "LF \<equiv> CHR 0x0A"
abbreviation HT :: char where "HT \<equiv> CHR 0x09"
abbreviation crlf :: string where "crlf \<equiv> [CR, LF]"
abbreviation crlfcrlf :: string where "crlfcrlf \<equiv> [CR, LF, CR, LF]"

definition ulong_max :: nat where "ulong_max = 2 ^ 64 - 1"


section \<open>Searching in strings\<close>

fun find_index :: "('a \<Rightarrow> bool) \<Rightarrow> 'a list \<Rightarrow> nat option" where
  "find_index P [] = None"
| "find_index P (x # xs) = (if P x then Some 0 else map_option Suc (find_index P xs))"

fun rfind_index :: "('a \<Rightarrow> bool) \<Rightarrow> 'a list \<Rightarrow> nat option" where
  "rfind_index P [] = None"
| "rfind_index P (x # xs) =
     (case rfind_index P xs of
        Some i \<Rightarrow> Some (Suc i)
      | None \<Rightarrow> if P x then Some 0 else None)"

fun find_str :: "'a list \<Rightarrow> 'a list \<Rightarrow> nat option" where
  "find_str pat [] = (if pat = [] then Some 0 else None)"
| "find_str pat (x # xs) =
     (if prefix pat (x # xs) then Some 0 else map_option Suc (find_str pat xs))"

definition find_chr :: "char \<Rightarrow> string \<Rightarrow> nat option" where
  "find_chr c s = find_index ((=) c) s"

definition rfind_chr :: "char \<Rightarrow> string \<Rightarrow> nat option" where
  "rfind_chr c s = rfind_index ((=) c) s"

definition find_chr_from :: "char \<Rightarrow> string \<Rightarrow> nat \<Rightarrow> nat option" where
  "find_chr_from c s pos = map_option ((+) pos) (find_chr c (drop pos s))"

definition find_str_from :: "string \<Rightarrow> string \<Rightarrow> nat \<Rightarrow> nat option" where
  "find_str_from pat s pos = map_option ((+) pos) (find_str pat (drop pos s))"

definition find_first_not_of :: "string \<Rightarrow> string \<Rightarrow> nat option" where
  "find_first_not_of cs s = find_index (\<lambda>c. c \<notin> set cs) s"

definition find_last_not_of :: "string \<Rightarrow> string \<Rightarrow> nat option" where
  "find_last_not_of cs s = rfind_index (\<lambda>c. c \<notin> set cs) s"

definition substr :: "string \<Rightarrow> nat \<Rightarrow> nat \<Rightarrow> string option" where
  "substr s pos n = (if pos \<le> length s then Some (take n (drop pos s)) else None)"

definition substr_from :: "string \<Rightarrow> nat \<Rightarrow> string option" where
  "substr_from s pos = (if pos \<le> length s then Some (drop pos s) else None)"

text \<open>
  The trimming idiom of the parser and of the configuration loader: from the first to the last
  character outside \<open>cs\<close>. Were the second search to fail, \<^verbatim>\<open>npos - b + 1\<close> would wrap around.
\<close>

definition trim_chars :: "string \<Rightarrow> string \<Rightarrow> string option" where
  "trim_chars cs s =
     (case find_first_not_of cs s of
        None \<Rightarrow> Some []
      | Some b \<Rightarrow>
          (case find_last_not_of cs s of
             None \<Rightarrow> substr s b ((2 ^ 64 - b) mod 2 ^ 64)
           | Some e \<Rightarrow> substr s b (e - b + 1)))"


section \<open>Conversions between numbers and strings\<close>

definition is_digit :: "char \<Rightarrow> bool" where
  "is_digit c \<longleftrightarrow> c \<in> set ''0123456789''"

definition is_space :: "char \<Rightarrow> bool" where
  "is_space c \<longleftrightarrow> c \<in> {CHR '' '', HT, LF, CHR 0x0B, CHR 0x0C, CR}"

definition digit_val :: "char \<Rightarrow> nat" where
  "digit_val c = of_char c - 48"

definition digits_val :: "string \<Rightarrow> nat" where
  "digits_val ds = foldl (\<lambda>n c. 10 * n + digit_val c) 0 ds"

text \<open>The subject of \<^verbatim>\<open>strtol\<close>/\<^verbatim>\<open>strtoul\<close> in base 10: white space, a sign, then the longest run of digits.\<close>

definition strto_subject :: "string \<Rightarrow> bool \<times> nat" where
  "strto_subject s =
     (case dropWhile is_space s of
        [] \<Rightarrow> (False, 0)
      | c # cs \<Rightarrow>
          if c = CHR ''-'' then (True, digits_val (takeWhile is_digit cs))
          else if c = CHR ''+'' then (False, digits_val (takeWhile is_digit cs))
          else (False, digits_val (takeWhile is_digit (c # cs))))"

definition strtoul :: "string \<Rightarrow> nat" where
  "strtoul s =
     (let (neg, n) = strto_subject s
      in if n > ulong_max then ulong_max
         else if neg then (2 ^ 64 - n) mod 2 ^ 64 else n)"

definition strtol :: "string \<Rightarrow> int" where
  "strtol s =
     (let (neg, n) = strto_subject s; v = (if neg then - int n else int n)
      in max (- (2 ^ 63)) (min (2 ^ 63 - 1) v))"

definition atoi :: "string \<Rightarrow> int" where
  "atoi s = (strtol s + 2 ^ 31) mod 2 ^ 32 - 2 ^ 31"

fun to_string_nat :: "nat \<Rightarrow> string" where
  "to_string_nat n =
     (if n < 10 then [char_of (48 + n)] else to_string_nat (n div 10) @ [char_of (48 + n mod 10)])"

declare to_string_nat.simps [simp del]

definition to_string_int :: "int \<Rightarrow> string" where
  "to_string_int i = (if i < 0 then CHR ''-'' # to_string_nat (nat (- i)) else to_string_nat (nat i))"


section \<open>The option monad\<close>

lemma bind_Some_pair: "Option.bind x (\<lambda>(a, b). Some (f a b)) = map_option (\<lambda>(a, b). f a b) x"
  by (cases x) auto

lemma bind_returns: "x \<noteq> None \<Longrightarrow> (\<And>y. x = Some y \<Longrightarrow> f y \<noteq> None) \<Longrightarrow> Option.bind x f \<noteq> None"
  by (cases x) auto


section \<open>Facts about the searches\<close>

lemma find_index_Some [find_facts]:
  "find_index P xs = Some i \<Longrightarrow> i < length xs \<and> P (xs ! i) \<and> (\<forall>j<i. \<not> P (xs ! j))"
proof (induction xs arbitrary: i)
  case (Cons x xs)
  then show ?case
    by (cases i) (auto split: if_splits simp: nth_Cons split: nat.splits)
qed simp

lemma find_index_None [find_facts]: "find_index P xs = None \<longleftrightarrow> (\<forall>x\<in>set xs. \<not> P x)"
  by (induction xs) auto

lemma find_index_append:
  "find_index P (xs @ ys) =
     (case find_index P xs of Some i \<Rightarrow> Some i | None \<Rightarrow> map_option ((+) (length xs)) (find_index P ys))"
proof (induction xs)
  case Nil
  then show ?case by (cases "find_index P ys") auto
next
  case (Cons x xs)
  then show ?case by (cases "find_index P ys") (auto split: option.splits)
qed

lemma rfind_index_None [find_facts]: "rfind_index P xs = None \<longleftrightarrow> (\<forall>x\<in>set xs. \<not> P x)"
  by (induction xs) (auto split: option.splits)

lemma rfind_index_append:
  "rfind_index P (xs @ ys) =
     (case rfind_index P ys of Some i \<Rightarrow> Some (length xs + i) | None \<Rightarrow> rfind_index P xs)"
  by (induction xs) (auto split: option.splits)

lemma rfind_index_Some [find_facts]:
  "rfind_index P xs = Some i \<Longrightarrow>
     i < length xs \<and> P (xs ! i) \<and> (\<forall>j. i < j \<and> j < length xs \<longrightarrow> \<not> P (xs ! j))"
proof (induction xs arbitrary: i)
  case (Cons x xs)
  show ?case
  proof (cases "rfind_index P xs")
    case None
    with Cons.prems have "i = 0" and "P x" by (auto split: if_splits)
    moreover from None have "\<forall>y\<in>set xs. \<not> P y" by (simp add: rfind_index_None)
    ultimately show ?thesis by (auto simp: nth_Cons' all_set_conv_all_nth)
  next
    case (Some k)
    with Cons.prems have "i = Suc k" by simp
    with Cons.IH [OF Some] show ?thesis by (auto simp: nth_Cons split: nat.splits)
  qed
qed simp

lemma find_str_Some_prefix: "find_str pat xs = Some i \<Longrightarrow> prefix pat (drop i xs)"
  by (induction xs arbitrary: i) (auto split: if_splits)

lemma find_str_Some_bound [find_facts]:
  "find_str pat xs = Some i \<Longrightarrow> i + length pat \<le> length xs"
  by (induction xs arbitrary: i) (auto split: if_splits dest: prefix_length_le)

lemma find_str_Some_decomp:
  assumes "find_str pat xs = Some i"
  shows "xs = take i xs @ pat @ drop (i + length pat) xs"
proof -
  from find_str_Some_prefix [OF assms] obtain zs where zs: "drop i xs = pat @ zs"
    by (auto simp: prefix_def)
  then have "drop (i + length pat) xs = zs"
    by (metis add.commute append_eq_conv_conj drop_drop)
  with zs show ?thesis by (metis append_take_drop_id)
qed

lemma find_str_None [find_facts]: "find_str pat xs = None \<longleftrightarrow> \<not> sublist pat xs"
  by (induction xs) (auto simp: sublist_Cons_right)

text \<open>Once a pattern has been found, appending more input does not move the first match.\<close>

lemma find_str_append_stable:
  "find_str pat xs = Some i \<Longrightarrow> find_str pat (xs @ ys) = Some i"
proof (induction xs arbitrary: i)
  case Nil
  then show ?case by (cases ys) (auto split: if_splits)
next
  case (Cons x xs)
  have "length pat \<le> length (x # xs)"
    using find_str_Some_bound [OF Cons.prems] by simp
  then have "prefix pat (x # xs @ ys) \<longleftrightarrow> prefix pat (x # xs)"
    using prefix_length_prefix [of pat "x # xs @ ys" "x # xs"] prefix_order.trans [of pat "x # xs" "x # xs @ ys"]
    by auto
  with Cons show ?case by (auto split: if_splits)
qed

lemma find_str_first:
  "find_str pat xs = Some i \<Longrightarrow> j < i \<Longrightarrow> \<not> prefix pat (drop j xs)"
proof (induction xs arbitrary: i j)
  case (Cons x xs)
  then show ?case by (cases j) (auto split: if_splits)
qed (auto split: if_splits)

lemma find_str_le:
  "prefix pat (drop j xs) \<Longrightarrow> pat \<noteq> [] \<Longrightarrow> \<exists>i\<le>j. find_str pat xs = Some i"
proof (induction xs arbitrary: j)
  case (Cons x xs)
  then show ?case
  proof (cases j)
    case (Suc k)
    with Cons obtain i where "i \<le> k" "find_str pat xs = Some i" by auto
    with Suc show ?thesis by auto
  qed auto
qed (auto simp: prefix_def)

lemma find_str_take:
  assumes "find_str pat xs = Some i" and "pat \<noteq> []"
  shows "\<not> sublist pat (take i xs)"
proof
  assume "sublist pat (take i xs)"
  then obtain ps ss where eq: "take i xs = ps @ pat @ ss" by (auto simp: sublist_def)
  have "length (take i xs) \<le> i" by simp
  with eq assms(2) have "length ps < i" by (cases pat) auto
  moreover have "prefix pat (drop (length ps) xs)"
    by (metis append_assoc append_eq_conv_conj append_take_drop_id eq prefixI)
  ultimately show False using find_str_first [OF assms(1)] by blast
qed

text \<open>A line without the separator is found whole in front of its separator.\<close>

lemma sublist_crlf_Cons: "sublist crlf (c # s) \<longleftrightarrow> c = CR \<and> s \<noteq> [] \<and> hd s = LF \<or> sublist crlf s"
  by (cases s) (auto simp: sublist_Cons_right)

lemma find_str_crlf_line: "\<not> sublist crlf l \<Longrightarrow> find_str crlf (l @ crlf @ rest) = Some (length l)"
proof (induction l)
  case (Cons c l)
  then have "\<not> sublist crlf l" and no: "\<not> (c = CR \<and> l \<noteq> [] \<and> hd l = LF)"
    by (auto simp: sublist_crlf_Cons)
  then show ?case using Cons by (cases l) auto
qed simp

lemma find_str_blank_line:
  "\<not> sublist crlf l \<Longrightarrow>
   find_str crlfcrlf (l @ crlf @ rest) =
     (if prefix crlf rest then Some (length l)
      else map_option ((+) (length l + 2)) (find_str crlfcrlf rest))"
proof (induction l)
  case Nil
  then show ?case by (cases "find_str crlfcrlf rest") auto
next
  case (Cons c l)
  then have "\<not> sublist crlf l" and no: "\<not> (c = CR \<and> l \<noteq> [] \<and> hd l = LF)"
    by (auto simp: sublist_crlf_Cons)
  moreover from no have "\<not> prefix crlfcrlf ((c # l) @ crlf @ rest)"
    by (cases l) auto
  ultimately show ?case
    using Cons.IH by (cases "find_str crlfcrlf rest") auto
qed

text \<open>A block of lines, each ended by the separator.\<close>

definition lines_block :: "string list \<Rightarrow> string" where
  "lines_block ls = concat (map (\<lambda>l. l @ crlf) ls)"

lemma lines_block_simps [simp]:
  "lines_block [] = []" "lines_block (l # ls) = l @ crlf @ lines_block ls"
  "lines_block (ls @ ls') = lines_block ls @ lines_block ls'"
  by (simp_all add: lines_block_def)

definition line_ok :: "string \<Rightarrow> bool" where
  "line_ok l \<longleftrightarrow> l \<noteq> [] \<and> \<not> sublist crlf l"

lemma not_prefix_crlf_line: "line_ok l \<Longrightarrow> \<not> prefix crlf (l @ crlf @ s)"
  by (cases l; cases "tl l") (auto simp: line_ok_def sublist_crlf_Cons)

lemma find_str_lines_block:
  "ls \<noteq> [] \<Longrightarrow> \<forall>l\<in>set ls. line_ok l \<Longrightarrow>
   find_str crlfcrlf (lines_block ls @ crlf @ body) = Some (length (lines_block ls) - 2)"
proof (induction ls)
  case (Cons l ls)
  show ?case
  proof (cases ls)
    case Nil
    with Cons.prems show ?thesis
      using find_str_blank_line [of l "crlf @ body"] by (simp add: line_ok_def)
  next
    case (Cons l' ls')
    then have "\<not> prefix crlf (lines_block ls @ crlf @ body)"
      using Cons.prems not_prefix_crlf_line [of l' "lines_block ls' @ crlf @ body"] by simp
    moreover have "2 \<le> length (lines_block ls)" using Cons by simp
    ultimately show ?thesis
      using Cons.prems Cons.IH find_str_blank_line [of l "lines_block ls @ crlf @ body"] Cons
      by (simp add: line_ok_def)
  qed
qed simp

lemma not_sublist_crlf_append:
  assumes "\<not> sublist crlf a" and "\<not> sublist crlf b" and "a = [] \<or> last a \<noteq> CR \<or> b = [] \<or> hd b \<noteq> LF"
  shows "\<not> sublist crlf (a @ b)"
  using assms by (induction a) (auto simp: sublist_crlf_Cons hd_append split: if_splits)

lemma not_sublist_crlf_sep:
  "\<not> sublist crlf a \<Longrightarrow> \<not> sublist crlf b \<Longrightarrow> c \<noteq> CR \<Longrightarrow> c \<noteq> LF \<Longrightarrow> \<not> sublist crlf (a @ c # b)"
  by (rule not_sublist_crlf_append) (auto simp: sublist_crlf_Cons)

lemma not_sublist_crlf_notin: "CR \<notin> set a \<Longrightarrow> \<not> sublist crlf a"
  using set_mono_sublist by fastforce

lemma not_sublist_mono: "\<not> sublist p s \<Longrightarrow> sublist t s \<Longrightarrow> \<not> sublist p t"
  using sublist_order.order.trans by blast

lemma find_chr_Some [find_facts]:
  "find_chr c s = Some i \<Longrightarrow> i < length s \<and> s ! i = c \<and> c \<notin> set (take i s)"
  unfolding find_chr_def by (drule find_index_Some) (auto simp: in_set_conv_nth)

lemma find_chr_None [find_facts]: "find_chr c s = None \<longleftrightarrow> c \<notin> set s"
  by (auto simp: find_chr_def find_index_None)

lemma find_chr_append_notin:
  "c \<notin> set xs \<Longrightarrow> find_chr c (xs @ ys) = map_option ((+) (length xs)) (find_chr c ys)"
  unfolding find_chr_def find_index_append
  by (subst (2) find_index_None [THEN iffD2]) auto

lemma find_chr_Cons [simp]: "find_chr c (c # s) = Some 0"
  by (simp add: find_chr_def)

lemma find_chr_split: "c \<notin> set xs \<Longrightarrow> find_chr c (xs @ c # ys) = Some (length xs)"
  by (simp add: find_chr_append_notin)

text \<open>A search for a character splits the string as \<^const>\<open>takeWhile\<close> and \<^const>\<open>dropWhile\<close> do.\<close>

lemma find_chr_eq:
  "find_chr c s = (if c \<in> set s then Some (length (takeWhile ((\<noteq>) c) s)) else None)"
  unfolding find_chr_def by (induction s) auto

lemma take_find_chr: "find_chr c s = Some i \<Longrightarrow> take i s = takeWhile ((\<noteq>) c) s"
  by (auto simp: find_chr_eq takeWhile_eq_take [symmetric] split: if_splits)

lemma drop_find_chr: "find_chr c s = Some i \<Longrightarrow> drop i s = dropWhile ((\<noteq>) c) s"
  by (auto simp: find_chr_eq dropWhile_eq_drop [symmetric] split: if_splits)

lemma takeWhile_absent: "c \<notin> set s \<Longrightarrow> takeWhile ((\<noteq>) c) s = s"
  by (auto simp: takeWhile_eq_all_conv)

lemma dropWhile_absent: "c \<notin> set s \<Longrightarrow> dropWhile ((\<noteq>) c) s = []"
  by (auto simp: dropWhile_eq_Nil_conv)

lemma takeWhile_upto: "c \<notin> set xs \<Longrightarrow> takeWhile ((\<noteq>) c) (xs @ c # ys) = xs"
  by (induction xs) auto

lemma dropWhile_upto: "c \<notin> set xs \<Longrightarrow> dropWhile ((\<noteq>) c) (xs @ c # ys) = c # ys"
  by (induction xs) auto

lemma rfind_chr_None [find_facts]: "rfind_chr c s = None \<longleftrightarrow> c \<notin> set s"
  by (auto simp: rfind_chr_def rfind_index_None)

lemma rfind_chr_Some [find_facts]:
  "rfind_chr c s = Some i \<Longrightarrow> i < length s \<and> s ! i = c \<and> c \<notin> set (drop (Suc i) s)"
proof -
  assume "rfind_chr c s = Some i"
  then have i: "i < length s" "s ! i = c"
    and later: "\<And>j. i < j \<Longrightarrow> j < length s \<Longrightarrow> s ! j \<noteq> c"
    using rfind_index_Some [of "(=) c" s i] by (auto simp: rfind_chr_def)
  have "s ! (Suc i + k) \<noteq> c" if "k < length s - Suc i" for k
    using later [of "Suc i + k"] that by simp
  then have "c \<notin> set (drop (Suc i) s)"
    using i by (auto simp: in_set_conv_nth)
  with i show ?thesis by simp
qed

lemma rfind_chr_split: "c \<notin> set ys \<Longrightarrow> rfind_chr c (xs @ c # ys) = Some (length xs)"
proof -
  assume "c \<notin> set ys"
  then have "rfind_index ((=) c) ys = None" by (auto simp: rfind_index_None)
  then show ?thesis by (simp add: rfind_chr_def rfind_index_append)
qed

lemma find_chr_from_Some [find_facts]:
  assumes "find_chr_from c s pos = Some i"
  shows "pos \<le> i \<and> i < length s \<and> s ! i = c \<and> c \<notin> set (take (i - pos) (drop pos s))"
proof -
  from assms obtain k where k: "find_chr c (drop pos s) = Some k" and i: "i = pos + k"
    by (auto simp: find_chr_from_def)
  from find_chr_Some [OF k] i show ?thesis by auto
qed

lemma find_str_from_Some [find_facts]:
  assumes "find_str_from pat s pos = Some i"
  shows "pos \<le> i \<and> i + length pat \<le> max pos (length s)"
proof -
  from assms obtain k where k: "find_str pat (drop pos s) = Some k" and i: "i = pos + k"
    by (auto simp: find_str_from_def)
  from find_str_Some_bound [OF k] i show ?thesis by auto
qed

lemma find_first_not_of_None [find_facts]: "find_first_not_of cs s = None \<longleftrightarrow> set s \<subseteq> set cs"
  by (auto simp: find_first_not_of_def find_index_None)

lemma substr_in_range [substr_eqs]: "pos \<le> length s \<Longrightarrow> substr s pos n = Some (take n (drop pos s))"
  by (simp add: substr_def)

lemma substr_0 [simp]: "substr s 0 n = Some (take n s)"
  by (simp add: substr_def)

lemma substr_from_in_range [substr_eqs]: "pos \<le> length s \<Longrightarrow> substr_from s pos = Some (drop pos s)"
  by (simp add: substr_from_def)

lemma trim_chars_returns: "trim_chars cs s \<noteq> None"
  unfolding trim_chars_def find_first_not_of_def
  by (auto simp: substr_def split: option.splits dest: find_index_Some)

lemma trim_chars_sublist: "trim_chars cs s = Some t \<Longrightarrow> sublist t s"
proof -
  have "sublist (take n (drop m s)) s" for n m
    by (rule sublist_order.order.trans [OF sublist_take sublist_drop])
  then show "trim_chars cs s = Some t \<Longrightarrow> sublist t s"
    by (auto simp: trim_chars_def substr_def split: option.splits if_splits)
qed

definition trimmed :: "string \<Rightarrow> string \<Rightarrow> bool" where
  "trimmed cs s \<longleftrightarrow> s = [] \<or> (hd s \<notin> set cs \<and> last s \<notin> set cs)"

lemma trim_chars_padded:
  assumes "trimmed cs s" and "set pre \<subseteq> set cs" and "set post \<subseteq> set cs"
  shows "trim_chars cs (pre @ s @ post) = Some s"
proof (cases "s = []")
  case True
  with assms have "find_first_not_of cs (pre @ s @ post) = None"
    by (auto simp: find_first_not_of_None)
  then show ?thesis using True by (simp add: trim_chars_def)
next
  case False
  with assms have hd: "hd s \<notin> set cs" and la: "last s \<notin> set cs" by (auto simp: trimmed_def)
  obtain x xs where x: "s = x # xs" using False by (cases s) auto
  obtain ys y where y: "s = ys @ [y]" using False by (cases s rule: rev_cases) auto
  have no: "find_index (\<lambda>c. c \<notin> set cs) pre = None" "rfind_index (\<lambda>c. c \<notin> set cs) post = None"
    using assms(2,3) by (auto simp: find_index_None rfind_index_None)
  have "find_first_not_of cs (pre @ s @ post) = Some (length pre)"
    using hd no by (simp add: x find_first_not_of_def find_index_append)
  moreover have "find_last_not_of cs (pre @ s @ post) = Some (length pre + (length s - 1))"
    using la no by (simp add: y find_last_not_of_def rfind_index_append)
  ultimately show ?thesis using False by (cases s) (simp_all add: trim_chars_def substr_def)
qed

lemma trim_chars_id: "trimmed cs s \<Longrightarrow> trim_chars cs s = Some s"
  using trim_chars_padded [of cs s "[]" "[]"] by simp


section \<open>Facts about the conversions\<close>

lemma strtoul_le: "strtoul s \<le> ulong_max"
proof -
  have "(2 ^ 64 - n) mod 2 ^ 64 \<le> (2 ^ 64 - 1 :: nat)" for n :: nat
    using mod_less_divisor [of "2 ^ 64" "2 ^ 64 - n"] by simp
  then show ?thesis by (auto simp: strtoul_def ulong_max_def Let_def split: prod.splits)
qed

lemma atoi_range: "- (2 ^ 31) \<le> atoi s \<and> atoi s < 2 ^ 31"
  unfolding atoi_def by (simp add: add.commute pos_mod_bound)

lemma is_digit_iff: "is_digit c \<longleftrightarrow> 48 \<le> (of_char c :: nat) \<and> (of_char c :: nat) \<le> 57"
proof
  assume "is_digit c"
  then show "48 \<le> (of_char c :: nat) \<and> (of_char c :: nat) \<le> 57"
    by (auto simp: is_digit_def)
next
  assume a: "48 \<le> (of_char c :: nat) \<and> (of_char c :: nat) \<le> 57"
  define n :: nat where "n = of_char c"
  have c: "c = char_of n" by (simp add: n_def)
  from a have "n \<in> set [48..<58]" unfolding n_def set_upt by (simp del: upt_rec_numeral)
  moreover have "\<forall>n\<in>set [48..<58]. char_of (n :: nat) \<in> set ''0123456789''" by code_simp
  ultimately have "c \<in> set ''0123456789''" unfolding c by blast
  then show "is_digit c" by (simp add: is_digit_def)
qed

lemma is_digit_char_of [simp]: "n < 10 \<Longrightarrow> is_digit (char_of (48 + n :: nat))"
  by (simp add: is_digit_iff)

lemma digit_val_char_of [simp]: "n < 10 \<Longrightarrow> digit_val (char_of (48 + n :: nat)) = n"
  by (simp add: digit_val_def)

lemma to_string_nat_digits: "\<forall>c\<in>set (to_string_nat n). is_digit c"
proof (induction n rule: to_string_nat.induct)
  case (1 n)
  then show ?case
    by (cases "n < 10") (auto simp: to_string_nat.simps [of n])
qed

lemma to_string_nat_nonempty [simp]: "to_string_nat n \<noteq> []"
  by (subst to_string_nat.simps) simp

lemma digits_val_snoc [simp]: "digits_val (ds @ [c]) = 10 * digits_val ds + digit_val c"
  by (simp add: digits_val_def)

lemma digits_val_single [simp]: "digits_val [c] = digit_val c"
  by (simp add: digits_val_def)

lemma digits_val_to_string_nat: "digits_val (to_string_nat n) = n"
proof (induction n rule: to_string_nat.induct)
  case (1 n)
  then show ?case
    by (cases "n < 10") (simp_all add: to_string_nat.simps [of n])
qed

lemma not_digit [simp]:
  "\<not> is_digit (CHR ''-'')" "\<not> is_digit (CHR ''+'')" "\<not> is_digit (CHR '':'')" "\<not> is_digit (CHR ''/'')"
  "\<not> is_digit (CHR '' '')" "\<not> is_digit CR" "\<not> is_digit LF"
  by (simp_all add: is_digit_def)

lemma digits_notin: "\<forall>c\<in>set s. is_digit c \<Longrightarrow> \<not> is_digit d \<Longrightarrow> d \<notin> set s"
  by blast

lemma is_digit_not_space: "is_digit c \<Longrightarrow> \<not> is_space c"
  by (auto simp: is_digit_def is_space_def)

lemma strto_subject_digits:
  assumes "\<forall>c\<in>set ds. is_digit c"
  shows "strto_subject ds = (False, digits_val ds)"
proof (cases ds)
  case Nil
  then show ?thesis by (simp add: strto_subject_def digits_val_def)
next
  case (Cons c cs)
  with assms have "is_digit c" by simp
  then have "dropWhile is_space ds = c # cs" and "c \<noteq> CHR ''-''" and "c \<noteq> CHR ''+''"
    using Cons by (auto simp: is_digit_not_space)
  moreover have "takeWhile is_digit ds = ds"
    using assms by (simp add: takeWhile_eq_all_conv)
  ultimately show ?thesis using Cons by (simp add: strto_subject_def)
qed

lemma strtoul_digits: "\<forall>c\<in>set ds. is_digit c \<Longrightarrow> strtoul ds = min (digits_val ds) ulong_max"
  by (simp add: strtoul_def strto_subject_digits)

lemma strtoul_to_string_nat: "n \<le> ulong_max \<Longrightarrow> strtoul (to_string_nat n) = n"
  by (simp add: strtoul_digits to_string_nat_digits digits_val_to_string_nat)

lemma strto_subject_to_string_int:
  "strto_subject (to_string_int i) = (i < 0, nat \<bar>i\<bar>)"
proof (cases "i < 0")
  case True
  have "takeWhile is_digit (to_string_nat (nat (- i))) = to_string_nat (nat (- i))"
    using to_string_nat_digits by (simp add: takeWhile_eq_all_conv)
  then have "digits_val (takeWhile is_digit (to_string_nat (nat (- i)))) = nat (- i)"
    by (simp only: digits_val_to_string_nat)
  with True show ?thesis
    by (simp add: strto_subject_def to_string_int_def is_space_def)
next
  case False
  then show ?thesis
    by (simp add: to_string_int_def strto_subject_digits to_string_nat_digits digits_val_to_string_nat)
qed

lemma strtol_to_string_int: "- (2 ^ 63) \<le> i \<Longrightarrow> i < 2 ^ 63 \<Longrightarrow> strtol (to_string_int i) = i"
  by (simp add: strtol_def strto_subject_to_string_int)

lemma atoi_to_string_int: "- (2 ^ 31) \<le> i \<Longrightarrow> i < 2 ^ 31 \<Longrightarrow> atoi (to_string_int i) = i"
  by (simp add: atoi_def strtol_to_string_int)

end
