(* ===== verification/Http.thy ===== *)
theory Http
  imports Prelude
begin

text \<open>
  Model of \<^verbatim>\<open>src/src/http.hpp\<close> and \<^verbatim>\<open>src/src/http.cpp\<close>: the request structure, the parser of an
  absolute-form request head, the rebuilt origin-form request and the error responses.

  Every function that calls \<^verbatim>\<open>std::string::substr\<close> returns an option: \<open>None\<close> is the uncaught
  \<^verbatim>\<open>std::out_of_range\<close>. An out-parameter is the second component of the result.
\<close>

section \<open>Data\<close>

record request =
  rq_method :: string
  rq_host :: string
  rq_port :: string
  rq_path :: string
  rq_version :: string
  rq_headers :: "(string \<times> string) list"
  rq_content_length :: size_t
  rq_header_bytes :: size_t

definition init_request :: request where
  "init_request =
     \<lparr>rq_method = [], rq_host = [], rq_port = ''80'', rq_path = ''/'', rq_version = [],
      rq_headers = [], rq_content_length = 0, rq_header_bytes = 0\<rparr>"

datatype parse_result = Incomplete | Ok | BadRequest | NotImplemented


section \<open>Helpers\<close>

definition tolower :: "char \<Rightarrow> char" where
  "tolower c = (if 65 \<le> (of_char c :: nat) \<and> (of_char c :: nat) \<le> 90
                then char_of (of_char c + 32 :: nat) else c)"

definition lower :: "string \<Rightarrow> string" where
  "lower s = map tolower s"

definition trim :: "string \<Rightarrow> string option" where
  "trim s = trim_chars [CHR '' '', HT] s"

definition is_hop_by_hop :: "string \<Rightarrow> bool" where
  "is_hop_by_hop lname \<longleftrightarrow>
     lname = ''connection'' \<or> lname = ''proxy-connection'' \<or> lname = ''keep-alive'' \<or>
     lname = ''transfer-encoding'' \<or> lname = ''upgrade'' \<or> lname = ''te'' \<or>
     lname = ''trailer'' \<or> lname = ''proxy-authorization'' \<or> lname = ''proxy-authenticate''"

text \<open>The authority part \<^verbatim>\<open>host[:port]\<close> or \<^verbatim>\<open>[v6]:port\<close>; the boolean is false for \<^verbatim>\<open>return false\<close>.\<close>

definition split_authority :: "string \<Rightarrow> request \<Rightarrow> (bool \<times> request) option" where
  "split_authority authority out =
     (if hd authority = CHR ''['' then
        (case find_chr (CHR '']'') authority of
           None \<Rightarrow> Some (False, out)
         | Some close \<Rightarrow> do {
             h \<leftarrow> substr authority 1 (close - 1);
             let out = out\<lparr>rq_host := h\<rparr>;
             if close + 1 < length authority \<and> authority ! (close + 1) = CHR '':'' then do {
               p \<leftarrow> substr_from authority (close + 2);
               Some (True, out\<lparr>rq_port := p\<rparr>)
             } else Some (True, out)
           })
      else
        (case rfind_chr (CHR '':'') authority of
           None \<Rightarrow> Some (True, out\<lparr>rq_host := authority\<rparr>)
         | Some colon \<Rightarrow> do {
             h \<leftarrow> substr authority 0 colon;
             p \<leftarrow> substr_from authority (colon + 1);
             Some (True, out\<lparr>rq_host := h, rq_port := p\<rparr>)
           }))"

definition split_absolute_url :: "string \<Rightarrow> request \<Rightarrow> (bool \<times> request) option" where
  "split_absolute_url url out = do {
     let scheme = ''http://'';
     s \<leftarrow> substr url 0 (length scheme);
     if lower s \<noteq> scheme then Some (False, out)
     else do {
       let auth_start = length scheme;
       let path_start = find_chr_from (CHR ''/'') url auth_start;
       authority \<leftarrow> (case path_start of
                       None \<Rightarrow> substr_from url auth_start
                     | Some p \<Rightarrow> substr url auth_start (p - auth_start));
       path \<leftarrow> (case path_start of None \<Rightarrow> Some ''/'' | Some p \<Rightarrow> substr_from url p);
       let out = out\<lparr>rq_path := path\<rparr>;
       if authority = [] then Some (False, out)
       else do {
         (ok, out) \<leftarrow> split_authority authority out;
         if \<not> ok then Some (False, out)
         else if rq_host out = [] \<or> rq_port out = [] then Some (False, out)
         else if find_first_not_of ''0123456789'' (rq_port out) \<noteq> None then Some (False, out)
         else Some (True, out)
       }
     }
   }"

definition header_value :: "request \<Rightarrow> string \<Rightarrow> string" where
  "header_value req name =
     (case find (\<lambda>(k, v). lower k = lower name) (rq_headers req) of
        Some (k, v) \<Rightarrow> v
      | None \<Rightarrow> [])"


section \<open>The parser\<close>

text \<open>
  The header loop. \<open>pos\<close> is the start of the next line and \<open>end\<close> the position of the blank line;
  the boolean of the result is true for \<^verbatim>\<open>return ParseResult::BadRequest\<close>.
\<close>

function parse_headers ::
  "string \<Rightarrow> nat \<Rightarrow> nat \<Rightarrow> (string \<times> string) list \<Rightarrow> (bool \<times> (string \<times> string) list) option" where
  "parse_headers buf end_pos pos hs =
     (if pos < end_pos then
        (case find_str_from crlf buf pos of
           None \<Rightarrow> Some (False, hs)
         | Some eol \<Rightarrow>
             if eol > end_pos then Some (False, hs)
             else
               (case substr buf pos (eol - pos) of
                  None \<Rightarrow> None
                | Some h \<Rightarrow>
                    if h = [] then Some (False, hs)
                    else
                      (case find_chr (CHR '':'') h of
                         None \<Rightarrow> Some (True, hs)
                       | Some colon \<Rightarrow>
                           (case (Option.bind (substr h 0 colon) trim,
                                  Option.bind (substr_from h (colon + 1)) trim) of
                              (Some k, Some v) \<Rightarrow> parse_headers buf end_pos (eol + 2) (hs @ [(k, v)])
                            | _ \<Rightarrow> None))))
      else Some (False, hs))"
  by pat_completeness auto
termination
  by (relation "measure (\<lambda>(buf, end_pos, pos, hs). end_pos - pos)") (auto dest: find_str_from_Some)

declare parse_headers.simps [simp del]

definition parse_request_line :: "string \<Rightarrow> request \<Rightarrow> (parse_result \<times> request) option" where
  "parse_request_line line out =
     (case find_chr (CHR '' '') line of
        None \<Rightarrow> Some (BadRequest, out)
      | Some sp1 \<Rightarrow>
          (case find_chr_from (CHR '' '') line (sp1 + 1) of
             None \<Rightarrow> Some (BadRequest, out)
           | Some sp2 \<Rightarrow> do {
               m \<leftarrow> substr line 0 sp1;
               v \<leftarrow> substr_from line (sp2 + 1);
               let out = out\<lparr>rq_method := m, rq_version := v\<rparr>;
               url \<leftarrow> substr line (sp1 + 1) (sp2 - sp1 - 1);
               if m \<noteq> ''GET'' \<and> m \<noteq> ''HEAD'' \<and> m \<noteq> ''POST'' then Some (NotImplemented, out)
               else do {
                 (ok, out) \<leftarrow> split_absolute_url url out;
                 Some (if ok then Ok else BadRequest, out)
               }
             }))"

definition check_framing :: "request \<Rightarrow> parse_result \<times> request" where
  "check_framing out =
     (if find_str ''chunked'' (lower (header_value out ''Transfer-Encoding'')) \<noteq> None
      then (NotImplemented, out)
      else
        (let cl = header_value out ''Content-Length''
         in if cl \<noteq> [] then
              (if find_first_not_of ''0123456789'' cl \<noteq> None then (BadRequest, out)
               else (Ok, out\<lparr>rq_content_length := strtoul cl\<rparr>))
            else (Ok, out)))"

definition parse_request :: "string \<Rightarrow> request \<Rightarrow> (parse_result \<times> request) option" where
  "parse_request buf out =
     (case find_str crlfcrlf buf of
        None \<Rightarrow> Some (Incomplete, out)
      | Some end_pos \<Rightarrow>
          let out = out\<lparr>rq_header_bytes := end_pos + 4\<rparr>
          in case find_str crlf buf of
               None \<Rightarrow> Some (BadRequest, out)
             | Some line_end \<Rightarrow>
                 if line_end = 0 then Some (BadRequest, out)
                 else do {
                   line \<leftarrow> substr buf 0 line_end;
                   (r, out) \<leftarrow> parse_request_line line out;
                   if r \<noteq> Ok then Some (r, out)
                   else do {
                     (bad, hs) \<leftarrow> parse_headers buf end_pos (line_end + 2) (rq_headers out);
                     let out = out\<lparr>rq_headers := hs\<rparr>;
                     if bad then Some (BadRequest, out) else Some (check_framing out)
                   }
                 })"


section \<open>Output\<close>

definition header_line :: "string \<times> string \<Rightarrow> string" where
  "header_line kv = fst kv @ '': '' @ snd kv @ crlf"

definition forwarded_headers :: "request \<Rightarrow> (string \<times> string) list" where
  "forwarded_headers req =
     filter (\<lambda>(k, v). \<not> (lower k = ''host'' \<or> is_hop_by_hop (lower k))) (rq_headers req)"

definition host_value :: "request \<Rightarrow> string" where
  "host_value req = rq_host req @ (if rq_port req \<noteq> ''80'' then '':'' @ rq_port req else [])"

definition build_upstream_request :: "request \<Rightarrow> string \<Rightarrow> string" where
  "build_upstream_request req body =
     rq_method req @ '' '' @ rq_path req @ '' HTTP/1.1'' @ crlf @
     ''Host: '' @ host_value req @ crlf @
     concat (map header_line (forwarded_headers req)) @
     ''Connection: close'' @ crlfcrlf @
     body"

definition error_response :: "int \<Rightarrow> string \<Rightarrow> string" where
  "error_response code reason =
     (let body = to_string_int code @ '' '' @ reason @ [LF]
      in ''HTTP/1.1 '' @ to_string_int code @ '' '' @ reason @ crlf @
         ''Content-Type: text/plain'' @ crlf @
         ''Content-Length: '' @ to_string_nat (length body) @ crlf @
         ''Connection: close'' @ crlfcrlf @
         body)"


section \<open>The parser never runs out of range\<close>

lemma trim_returns: "\<exists>t. trim s = Some t"
  using trim_chars_returns by (auto simp: trim_def)

lemma split_authority_returns: "authority \<noteq> [] \<Longrightarrow> split_authority authority out \<noteq> None"
  unfolding split_authority_def
  by (auto simp: substr_def substr_from_def Let_def Suc_le_eq split: option.splits
           dest: find_chr_Some rfind_chr_Some)

text \<open>The parts of an absolute URL, as the searches of \<^const>\<open>split_absolute_url\<close> cut them out.\<close>

definition url_authority :: "string \<Rightarrow> string" where
  "url_authority url = takeWhile ((\<noteq>) (CHR ''/'')) (drop 7 url)"

definition url_path :: "string \<Rightarrow> string" where
  "url_path url = (let p = dropWhile ((\<noteq>) (CHR ''/'')) (drop 7 url) in if p = [] then ''/'' else p)"

lemma scheme_matches_length: "lower (take 7 url) = ''http://'' \<Longrightarrow> 7 \<le> length url"
proof -
  assume "lower (take 7 url) = ''http://''"
  then have "length (lower (take 7 url)) = length ''http://''" by simp
  then show ?thesis by (simp add: lower_def)
qed

lemma url_cut:
  assumes "7 \<le> length url"
  shows "(case find_chr_from (CHR ''/'') url 7 of
            None \<Rightarrow> substr_from url 7 | Some p \<Rightarrow> substr url 7 (p - 7)) = Some (url_authority url)"
    and "(case find_chr_from (CHR ''/'') url 7 of
            None \<Rightarrow> Some ''/'' | Some p \<Rightarrow> substr_from url p) = Some (url_path url)"
proof -
  let ?r = "drop 7 url"
  have "take i ?r = takeWhile ((\<noteq>) (CHR ''/'')) ?r \<and> drop (7 + i) url = dropWhile ((\<noteq>) (CHR ''/'')) ?r
        \<and> 7 + i \<le> length url \<and> dropWhile ((\<noteq>) (CHR ''/'')) ?r \<noteq> []"
    if "find_chr (CHR ''/'') ?r = Some i" for i
    using take_find_chr [OF that] drop_find_chr [OF that] find_chr_Some [OF that] that
    by (auto simp: add.commute find_chr_eq split: if_splits)
  moreover have "CHR ''/'' \<notin> set ?r" if "find_chr (CHR ''/'') ?r = None"
    using that by (simp add: find_chr_None)
  ultimately show "(case find_chr_from (CHR ''/'') url 7 of
            None \<Rightarrow> substr_from url 7 | Some p \<Rightarrow> substr url 7 (p - 7)) = Some (url_authority url)"
    and "(case find_chr_from (CHR ''/'') url 7 of
            None \<Rightarrow> Some ''/'' | Some p \<Rightarrow> substr_from url p) = Some (url_path url)"
    using assms
    by (auto simp: find_chr_from_def url_authority_def url_path_def substr_def substr_from_def Let_def
             simp: takeWhile_absent dropWhile_absent split: option.splits)
qed

lemma split_absolute_url_eq:
  "split_absolute_url url out =
     (if lower (take 7 url) \<noteq> ''http://'' then Some (False, out)
      else if url_authority url = [] then Some (False, out\<lparr>rq_path := url_path url\<rparr>)
      else map_option (\<lambda>(ok, out).
             (ok \<and> rq_host out \<noteq> [] \<and> rq_port out \<noteq> [] \<and> (\<forall>c\<in>set (rq_port out). is_digit c), out))
             (split_authority (url_authority url) (out\<lparr>rq_path := url_path url\<rparr>)))"
proof -
  have len: "length ''http://'' = 7" by simp
  show ?thesis
  proof (cases "lower (take 7 url) = ''http://''")
    case True
    then have "7 \<le> length url" by (rule scheme_matches_length)
    note cut = url_cut [OF this]
    show ?thesis
      unfolding split_absolute_url_def Let_def len cut
      using True
      by (cases "split_authority (url_authority url) (out\<lparr>rq_path := url_path url\<rparr>)")
         (auto simp: find_first_not_of_None is_digit_def subset_iff)
  next
    case False
    then show ?thesis
      unfolding split_absolute_url_def Let_def len by simp
  qed
qed

lemma split_absolute_url_returns: "split_absolute_url url out \<noteq> None"
  using split_authority_returns by (simp add: split_absolute_url_eq del: not_None_eq)

lemma parse_request_line_eq:
  "parse_request_line line out =
     (let m = takeWhile ((\<noteq>) (CHR '' '')) line; r = tl (dropWhile ((\<noteq>) (CHR '' '')) line)
      in if CHR '' '' \<notin> set r then Some (BadRequest, out)
         else
           let url = takeWhile ((\<noteq>) (CHR '' '')) r; v = tl (dropWhile ((\<noteq>) (CHR '' '')) r);
               out = out\<lparr>rq_method := m, rq_version := v\<rparr>
           in if m \<notin> {''GET'', ''HEAD'', ''POST''} then Some (NotImplemented, out)
              else map_option (\<lambda>(ok, out). (if ok then Ok else BadRequest, out))
                     (split_absolute_url url out))"
proof (cases "find_chr (CHR '' '') line")
  case None
  then have "dropWhile ((\<noteq>) (CHR '' '')) line = []" by (simp add: find_chr_None dropWhile_absent)
  then show ?thesis using None by (simp add: parse_request_line_def del: dropWhile_eq_Nil_conv)
next
  case (Some sp1)
  note sp1 = Some
  let ?r = "tl (dropWhile ((\<noteq>) (CHR '' '')) line)"
  have m: "take sp1 line = takeWhile ((\<noteq>) (CHR '' '')) line" by (rule take_find_chr [OF sp1])
  have r: "drop (sp1 + 1) line = ?r"
    unfolding drop_find_chr [OF sp1, symmetric] by (simp add: drop_Suc tl_drop)
  show ?thesis
  proof (cases "find_chr (CHR '' '') ?r")
    case None
    moreover from None have "CHR '' '' \<notin> set ?r" by (simp add: find_chr_None)
    ultimately show ?thesis
      using sp1 r by (simp add: parse_request_line_def find_chr_from_def)
  next
    case (Some k)
    have "k < length ?r" using find_chr_Some [OF Some] by blast
    moreover have "length ?r = length line - (sp1 + 1)" unfolding r [symmetric] by simp
    ultimately have len: "sp1 + 1 + k < length line" by simp
    have url: "take k (drop (Suc sp1) line) = takeWhile ((\<noteq>) (CHR '' '')) ?r"
      using take_find_chr [OF Some] r by simp
    have "drop (Suc k) ?r = tl (dropWhile ((\<noteq>) (CHR '' '')) ?r)"
      unfolding drop_find_chr [OF Some, symmetric] by (simp add: drop_Suc tl_drop)
    then have v: "drop (Suc (Suc (sp1 + k))) line = tl (dropWhile ((\<noteq>) (CHR '' '')) ?r)"
      unfolding r [symmetric] by (simp add: add.commute)
    have sp: "CHR '' '' \<in> set ?r" using Some by (auto simp: find_chr_eq split: if_splits)
    show ?thesis
      using sp1 Some m url v r sp len
      by (auto simp: parse_request_line_def find_chr_from_def Let_def substr_def substr_from_def
                     bind_Some_pair)
  qed
qed

lemma parse_request_line_returns: "parse_request_line line out \<noteq> None"
  using split_absolute_url_returns by (simp add: parse_request_line_eq Let_def del: not_None_eq)

lemma parse_headers_returns:
  "end_pos \<le> length buf \<Longrightarrow> parse_headers buf end_pos pos hs \<noteq> None"
proof (induction buf end_pos pos hs rule: parse_headers.induct)
  case (1 buf end_pos pos hs)
  show ?case
  proof (cases "pos < end_pos")
    case True
    note lt = True
    show ?thesis
    proof (cases "find_str_from crlf buf pos")
      case None
      then show ?thesis by (auto simp: parse_headers.simps [of buf end_pos pos])
    next
      case (Some eol)
      then have "pos \<le> eol" using find_str_from_Some by blast
      let ?h = "take (eol - pos) (drop pos buf)"
      have h: "substr buf pos (eol - pos) = Some ?h" using lt "1.prems" by (simp add: substr_def)
      show ?thesis
      proof (cases "eol > end_pos \<or> ?h = [] \<or> find_chr (CHR '':'') ?h = None")
        case True
        then show ?thesis using Some h by (auto simp: parse_headers.simps [of buf end_pos pos])
      next
        case False
        then obtain colon where c: "find_chr (CHR '':'') ?h = Some colon" by auto
        obtain k where k: "Option.bind (substr ?h 0 colon) trim = Some k"
          using trim_returns by auto
        obtain v where v: "Option.bind (substr_from ?h (colon + 1)) trim = Some v"
          using trim_returns find_chr_Some [OF c] by (auto simp: substr_from_def)
        have "parse_headers buf end_pos (eol + 2) (hs @ [(k, v)]) \<noteq> None"
          using "1.IH" [OF lt Some _ h _ c _ k v] False "1.prems" by simp
        then show ?thesis
          using lt Some h c k v False by (subst parse_headers.simps) simp
      qed
    qed
  next
    case False
    then show ?thesis by (auto simp: parse_headers.simps [of buf end_pos pos])
  qed
qed

lemma parse_request_returns: "parse_request buf out \<noteq> None"
proof (cases "find_str crlfcrlf buf")
  case None
  then show ?thesis by (simp add: parse_request_def)
next
  case (Some end_pos)
  then have len: "end_pos + 4 \<le> length buf" using find_str_Some_bound by fastforce
  show ?thesis
  proof (cases "find_str crlf buf")
    case None
    then show ?thesis using Some by (simp add: parse_request_def)
  next
    case (Some line_end)
    obtain r out1 where line:
      "parse_request_line (take line_end buf) (out\<lparr>rq_header_bytes := end_pos + 4\<rparr>) = Some (r, out1)"
      using parse_request_line_returns by (metis not_None_eq prod.collapse)
    obtain bad hs where
      "parse_headers buf end_pos (line_end + 2) (rq_headers out1) = Some (bad, hs)"
      using parse_headers_returns [of end_pos buf "line_end + 2"] len by fastforce
    with line show ?thesis
      using \<open>find_str crlfcrlf buf = Some end_pos\<close> Some by (auto simp: parse_request_def Let_def)
  qed
qed

text \<open>
  C39. Parsing never raises \<^verbatim>\<open>std::out_of_range\<close>: whatever bytes a client sends, every
  \<^verbatim>\<open>substr\<close> of the parser is called with a position inside its string.
\<close>

theorem parse_request_never_throws: "parse_request buf out \<noteq> None"
  by (rule parse_request_returns)


section \<open>The result does not depend on how the input was chunked\<close>

lemma crlf_before_blank_line:
  assumes "find_str crlfcrlf buf = Some e" and "pos \<le> e"
  obtains eol where "find_str_from crlf buf pos = Some eol" and "pos \<le> eol" and "eol \<le> e"
    and "find_str_from crlf (buf @ rest) pos = Some eol"
proof -
  have "prefix crlfcrlf (drop e buf)" using assms(1) by (rule find_str_Some_prefix)
  then have "prefix crlf (drop (e - pos) (drop pos buf))"
    using assms(2) by (auto simp: prefix_def)
  from find_str_le [OF this] obtain i where i: "i \<le> e - pos" "find_str crlf (drop pos buf) = Some i"
    by auto
  have "pos \<le> length buf" using find_str_Some_bound [OF assms(1)] assms(2) by simp
  then have "find_str crlf (drop pos (buf @ rest)) = Some i"
    using find_str_append_stable [OF i(2)] by simp
  then show thesis using that [of "pos + i"] i assms(2) by (simp add: find_str_from_def)
qed

lemma parse_headers_append:
  "find_str crlfcrlf buf = Some e \<Longrightarrow> parse_headers (buf @ rest) e pos hs = parse_headers buf e pos hs"
proof (induction buf e pos hs rule: parse_headers.induct)
  case (1 buf e pos hs)
  have len: "e + 4 \<le> length buf" using find_str_Some_bound [OF "1.prems"] by simp
  show ?case
  proof (cases "pos < e")
    case True
    then obtain eol where eol: "find_str_from crlf buf pos = Some eol" "pos \<le> eol" "eol \<le> e"
      "find_str_from crlf (buf @ rest) pos = Some eol"
      using crlf_before_blank_line [OF "1.prems", of pos rest] by auto
    let ?h = "take (eol - pos) (drop pos buf)"
    have h: "substr buf pos (eol - pos) = Some ?h" "substr (buf @ rest) pos (eol - pos) = Some ?h"
      using eol len by (auto simp: substr_def)
    have IH: "parse_headers (buf @ rest) e (eol + 2) (hs @ [(k, v)]) =
              parse_headers buf e (eol + 2) (hs @ [(k, v)])"
      if "?h \<noteq> []" "find_chr (CHR '':'') ?h = Some colon"
         "Option.bind (substr ?h 0 colon) trim = Some k"
         "Option.bind (substr_from ?h (colon + 1)) trim = Some v" for colon k v
      using "1.IH" [OF True eol(1) _ h(1) _ that(2) _ that(3,4)] that(1) eol(3) "1.prems" by simp
    show ?thesis
      unfolding parse_headers.simps [of buf e pos] parse_headers.simps [of "buf @ rest" e pos]
      using True eol h IH by (auto split: option.splits)
  next
    case False
    then show ?thesis
      by (simp add: parse_headers.simps [of buf e pos] parse_headers.simps [of "buf @ rest" e pos])
  qed
qed

lemma parse_request_append:
  assumes "find_str crlfcrlf buf = Some e"
  shows "parse_request (buf @ rest) out = parse_request buf out"
proof -
  obtain line_end where "find_str crlf buf = Some line_end" "line_end \<le> e"
    and "find_str crlf (buf @ rest) = Some line_end"
    using crlf_before_blank_line [OF assms, of 0 rest] by (auto simp: find_str_from_def option.map_ident)
  moreover have "e + 4 \<le> length buf" using find_str_Some_bound [OF assms] by simp
  ultimately show ?thesis
    unfolding parse_request_def assms find_str_append_stable [OF assms, of rest] option.case Let_def
      parse_headers_append [OF assms]
    by simp
qed

lemma parse_request_line_not_Incomplete:
  "parse_request_line line out = Some (r, out') \<Longrightarrow> r \<noteq> Incomplete"
  by (auto simp: parse_request_line_eq Let_def split: if_splits)

lemma check_framing_not_Incomplete: "fst (check_framing out) \<noteq> Incomplete"
  by (simp add: check_framing_def Let_def)

lemma parse_request_Incomplete_iff:
  "parse_request buf out = Some (Incomplete, out') \<longleftrightarrow> \<not> sublist crlfcrlf buf \<and> out' = out"
proof (cases "find_str crlfcrlf buf")
  case None
  then show ?thesis by (auto simp: parse_request_def find_str_None [symmetric])
next
  case (Some e)
  then have "sublist crlfcrlf buf" using find_str_None [of crlfcrlf buf] by auto
  moreover have "parse_request buf out \<noteq> Some (Incomplete, out')"
    using Some parse_request_line_not_Incomplete
    by (auto simp: parse_request_def Let_def check_framing_def
             split: option.splits if_splits bind_splits)
  ultimately show ?thesis by simp
qed

text \<open>
  C22. Reading the request in pieces gives the same verdict as reading it at once: once
  \<^const>\<open>parse_request\<close> has answered anything but \<^const>\<open>Incomplete\<close>, no further input changes the answer or
  the parsed request, and until then it has not touched the request.
\<close>

theorem parse_request_chunking:
  assumes "parse_request buf out = Some (r, out')"
  shows "(r \<noteq> Incomplete \<longrightarrow> parse_request (buf @ rest) out = Some (r, out')) \<and>
         (r = Incomplete \<longrightarrow> out' = out \<and> \<not> sublist crlfcrlf buf)"
proof (cases "find_str crlfcrlf buf")
  case None
  with assms show ?thesis by (auto simp: parse_request_def find_str_None [symmetric])
next
  case (Some e)
  then show ?thesis
    using assms parse_request_append [OF Some] parse_request_Incomplete_iff by auto
qed

theorem parse_request_chunking_witness:
  "\<exists>out'. parse_request (''PUT x y'' @ crlfcrlf) init_request = Some (NotImplemented, out') \<and>
     parse_request ((''PUT x y'' @ crlfcrlf) @ ''body'') init_request = Some (NotImplemented, out')"
proof -
  have "parse_request (''PUT x y'' @ crlfcrlf) init_request =
      Some (NotImplemented, init_request\<lparr>rq_header_bytes := 11, rq_method := ''PUT'', rq_version := ''y''\<rparr>)"
    by (simp add: parse_request_def parse_request_line_eq)
  from this parse_request_chunking [OF this, of "''body''"] show ?thesis by auto
qed


section \<open>What a successfully parsed request looks like\<close>

text \<open>
  The shape that the rest of the proxy relies on: one of three methods, a non-empty host without
  blanks and slashes, a numeric port, an absolute path without blanks, and no line separator in
  any part that is sent on to the origin.
\<close>

definition wf_request :: "request \<Rightarrow> bool" where
  "wf_request req \<longleftrightarrow>
     rq_method req \<in> {''GET'', ''HEAD'', ''POST''} \<and>
     rq_host req \<noteq> [] \<and> CHR ''/'' \<notin> set (rq_host req) \<and> CHR '' '' \<notin> set (rq_host req) \<and>
     \<not> sublist crlf (rq_host req) \<and>
     rq_port req \<noteq> [] \<and> (\<forall>c\<in>set (rq_port req). is_digit c) \<and>
     rq_path req \<noteq> [] \<and> hd (rq_path req) = CHR ''/'' \<and> CHR '' '' \<notin> set (rq_path req) \<and>
     \<not> sublist crlf (rq_path req) \<and>
     (\<forall>(k, v) \<in> set (rq_headers req). CHR '':'' \<notin> set k \<and> \<not> sublist crlf k \<and> \<not> sublist crlf v)"

lemma trim_sublist: "trim s = Some t \<Longrightarrow> sublist t s"
  unfolding trim_def by (rule trim_chars_sublist)

lemma split_authority_parts:
  assumes "split_authority a out = Some (True, out')"
  shows "sublist (rq_host out') a \<and>
         out' = out\<lparr>rq_host := rq_host out', rq_port := rq_port out'\<rparr>"
proof -
  have "sublist (take n (drop m a)) a" for n m
    by (rule sublist_order.order.trans [OF sublist_take sublist_drop])
  with assms show ?thesis
    by (auto simp: split_authority_def substr_def substr_from_def Let_def
             split: option.splits if_splits)
qed

lemma split_absolute_url_parts:
  assumes "split_absolute_url url out = Some (True, out')"
  shows "sublist (rq_host out') (url_authority url)" and "rq_host out' \<noteq> []"
    and "rq_port out' \<noteq> []" and "\<forall>c\<in>set (rq_port out'). is_digit c"
    and "out' = out\<lparr>rq_host := rq_host out', rq_port := rq_port out', rq_path := url_path url\<rparr>"
  using assms
  by (auto simp: split_absolute_url_eq split: if_splits dest!: split_authority_parts)
     (metis (no_types, lifting) request.surjective request.update_convs)+

lemma parse_request_line_Ok:
  assumes "parse_request_line line out = Some (Ok, out')"
  shows "rq_method out' \<in> {''GET'', ''HEAD'', ''POST''}" and "rq_host out' \<noteq> []"
    and "rq_port out' \<noteq> []" and "\<forall>c\<in>set (rq_port out'). is_digit c"
    and "CHR ''/'' \<notin> set (rq_host out')" and "CHR '' '' \<notin> set (rq_host out')"
    and "rq_path out' \<noteq> []" and "hd (rq_path out') = CHR ''/''" and "CHR '' '' \<notin> set (rq_path out')"
    and "sublist (rq_host out') line"
    and "rq_path out' = ''/'' \<or> sublist (rq_path out') line"
    and "rq_headers out' = rq_headers out" and "rq_header_bytes out' = rq_header_bytes out"
    and "rq_content_length out' = rq_content_length out"
proof -
  let ?sp = "(\<noteq>) (CHR '' '')"
  define r where "r = tl (dropWhile ?sp line)"
  define url where "url = takeWhile ?sp r"
  define out1 where "out1 = out\<lparr>rq_method := takeWhile ?sp line, rq_version := tl (dropWhile ?sp r)\<rparr>"
  have m: "takeWhile ?sp line \<in> {''GET'', ''HEAD'', ''POST''}"
    and url_ok: "split_absolute_url url out1 = Some (True, out')"
    using assms by (auto simp: parse_request_line_eq Let_def r_def url_def out1_def split: if_splits)
  note parts = split_absolute_url_parts [OF url_ok]
  have sub_url: "sublist url line"
    unfolding url_def r_def
    using sublist_order.order.trans sublist_takeWhile sublist_tl sublist_dropWhile by metis
  have no_sp: "CHR '' '' \<notin> set url" unfolding url_def by (auto dest: set_takeWhileD)
  have sub_a: "sublist (url_authority url) url"
    unfolding url_authority_def using sublist_order.order.trans sublist_takeWhile sublist_drop by metis
  have path: "url_path url = ''/'' \<or> sublist (url_path url) url"
    unfolding url_path_def Let_def
    using sublist_order.order.trans [OF sublist_dropWhile sublist_drop] by auto
  have path_hd: "url_path url \<noteq> [] \<and> hd (url_path url) = CHR ''/''"
    using hd_dropWhile [of "(\<noteq>) (CHR ''/'')" "drop 7 url"] by (auto simp: url_path_def Let_def)
  have host_a: "set (rq_host out') \<subseteq> set (url_authority url)"
    using parts(1) by (rule set_mono_sublist)
  have "CHR ''/'' \<notin> set (url_authority url)" unfolding url_authority_def by (auto dest: set_takeWhileD)
  with host_a show "CHR ''/'' \<notin> set (rq_host out')" by blast
  show "CHR '' '' \<notin> set (rq_host out')"
    using host_a set_mono_sublist [OF sub_a] no_sp by blast
  have out': "rq_path out' = url_path url" "rq_method out' = takeWhile ?sp line"
    "rq_headers out' = rq_headers out" "rq_header_bytes out' = rq_header_bytes out"
    "rq_content_length out' = rq_content_length out"
    by (subst parts(5), simp add: out1_def)+
  show "CHR '' '' \<notin> set (rq_path out')"
    using path no_sp set_mono_sublist out'(1) by fastforce
  show "sublist (rq_host out') line"
    using parts(1) sub_a sub_url sublist_order.order.trans by metis
  show "rq_path out' = ''/'' \<or> sublist (rq_path out') line"
    using path sub_url out'(1) sublist_order.order.trans by metis
  show "rq_method out' \<in> {''GET'', ''HEAD'', ''POST''}" "rq_path out' \<noteq> []" "hd (rq_path out') = CHR ''/''"
    "rq_headers out' = rq_headers out" "rq_header_bytes out' = rq_header_bytes out"
    "rq_content_length out' = rq_content_length out"
    using m out' path_hd by simp_all
qed (use assms split_absolute_url_parts in \<open>auto simp: parse_request_line_eq Let_def split: if_splits\<close>)

lemma parse_headers_Ok:
  "parse_headers buf e pos hs = Some (bad, hs') \<Longrightarrow>
   \<exists>new. hs' = hs @ new \<and> (\<forall>(k, v)\<in>set new. CHR '':'' \<notin> set k \<and> \<not> sublist crlf k \<and> \<not> sublist crlf v)"
proof (induction buf e pos hs rule: parse_headers.induct)
  case (1 buf e pos hs)
  show ?case
  proof (cases "\<exists>eol h colon k v. pos < e \<and> find_str_from crlf buf pos = Some eol \<and> eol \<le> e \<and>
      substr buf pos (eol - pos) = Some h \<and> h \<noteq> [] \<and> find_chr (CHR '':'') h = Some colon \<and>
      Option.bind (substr h 0 colon) trim = Some k \<and> Option.bind (substr_from h (colon + 1)) trim = Some v")
    case False
    with "1.prems" show ?thesis
      by (subst (asm) parse_headers.simps) (auto split: option.splits if_splits)
  next
    case True
    then obtain eol h colon k v where c: "pos < e" "find_str_from crlf buf pos = Some eol" "eol \<le> e"
      "substr buf pos (eol - pos) = Some h" "h \<noteq> []" "find_chr (CHR '':'') h = Some colon"
      "Option.bind (substr h 0 colon) trim = Some k" "Option.bind (substr_from h (colon + 1)) trim = Some v"
      by blast
    have step: "parse_headers buf e (eol + 2) (hs @ [(k, v)]) = Some (bad, hs')"
      using "1.prems" c by (subst (asm) parse_headers.simps) simp
    have "\<exists>new. hs' = (hs @ [(k, v)]) @ new \<and>
      (\<forall>(k, v)\<in>set new. CHR '':'' \<notin> set k \<and> \<not> sublist crlf k \<and> \<not> sublist crlf v)"
      by (rule "1.IH" [OF c(1,2) _ c(4) _ c(6) _ c(7,8)]) (use c step in auto)
    moreover have "find_str crlf (drop pos buf) = Some (eol - pos)"
      using c(2) by (auto simp: find_str_from_def)
    then have no: "\<not> sublist crlf h"
      using find_str_take [of crlf "drop pos buf" "eol - pos"] c(4) by (auto simp: substr_def split: if_splits)
    have k: "sublist k (take colon h)" and v: "sublist v (drop (colon + 1) h)"
      using c(7,8) trim_sublist by (auto simp: substr_from_def split: if_splits)
    have "\<not> sublist crlf k" "\<not> sublist crlf v"
      using no k v sublist_order.order.trans [OF _ sublist_take] sublist_order.order.trans [OF _ sublist_drop]
      by (meson not_sublist_mono)+
    moreover have "CHR '':'' \<notin> set k"
      using find_chr_Some [OF c(6)] set_mono_sublist [OF k] by blast
    ultimately show ?thesis by auto
  qed
qed

lemma check_framing_Ok:
  assumes "check_framing out = (Ok, out')"
  shows "out' = out\<lparr>rq_content_length := rq_content_length out'\<rparr>"
    and "rq_content_length out \<le> ulong_max \<Longrightarrow> rq_content_length out' \<le> ulong_max"
  using assms strtoul_le by (auto simp: check_framing_def Let_def split: if_splits)

lemma parse_request_steps:
  assumes "parse_request buf out = Some (Ok, req)"
  obtains e line_end out1 hs where "find_str crlfcrlf buf = Some e" and "find_str crlf buf = Some line_end"
    and "parse_request_line (take line_end buf) (out\<lparr>rq_header_bytes := e + 4\<rparr>) = Some (Ok, out1)"
    and "parse_headers buf e (line_end + 2) (rq_headers out1) = Some (False, hs)"
    and "check_framing (out1\<lparr>rq_headers := hs\<rparr>) = (Ok, req)"
  using assms by (auto simp: parse_request_def Let_def bind_eq_Some_conv split: option.splits if_splits)

lemma parse_request_Ok_facts:
  assumes "parse_request buf init_request = Some (Ok, req)"
  shows "wf_request req \<and> rq_header_bytes req \<le> length buf \<and>
         find_str crlfcrlf buf = Some (rq_header_bytes req - 4) \<and> rq_content_length req \<le> ulong_max"
proof -
  obtain e line_end out1 hs where e: "find_str crlfcrlf buf = Some e"
    and le: "find_str crlf buf = Some line_end"
    and line: "parse_request_line (take line_end buf) (init_request\<lparr>rq_header_bytes := e + 4\<rparr>) = Some (Ok, out1)"
    and hs: "parse_headers buf e (line_end + 2) (rq_headers out1) = Some (False, hs)"
    and fr: "check_framing (out1\<lparr>rq_headers := hs\<rparr>) = (Ok, req)"
    using parse_request_steps [OF assms] by blast
  note L = parse_request_line_Ok [OF line]
  have no: "\<not> sublist crlf (take line_end buf)" using find_str_take [OF le] by simp
  have "rq_headers out1 = []" using L(12) by (simp add: init_request_def)
  with parse_headers_Ok [OF hs]
  have hs_ok: "\<forall>(k, v)\<in>set hs. CHR '':'' \<notin> set k \<and> \<not> sublist crlf k \<and> \<not> sublist crlf v" by auto
  have sep: "\<not> sublist crlf (rq_host out1)" "\<not> sublist crlf (rq_path out1)"
    using no L(10,11) not_sublist_mono by (auto simp: sublist_crlf_Cons)
  have req: "req = out1\<lparr>rq_headers := hs, rq_content_length := rq_content_length req\<rparr>"
    using check_framing_Ok(1) [OF fr] by simp
  have "wf_request req"
    by (subst req) (use L(1-9) sep hs_ok in \<open>simp add: wf_request_def\<close>)
  moreover have "rq_header_bytes req = e + 4" by (subst req) (simp add: L(13))
  moreover have "rq_content_length req \<le> ulong_max"
    by (rule check_framing_Ok(2) [OF fr]) (simp add: L(14) init_request_def)
  ultimately show ?thesis using e find_str_Some_bound [OF e] by simp
qed

text \<open>
  C21. A request accepted by the parser is well formed (\<^const>\<open>wf_request\<close>): in particular nothing that is
  forwarded to the origin contains a line separator. Its head ends inside the buffer, right after
  the first blank line, and its body length fits a \<^verbatim>\<open>size_t\<close>.
\<close>

theorem parse_request_wf:
  assumes "parse_request buf init_request = Some (Ok, req)"
  shows "wf_request req \<and> rq_header_bytes req \<le> length buf \<and>
         find_str crlfcrlf buf = Some (rq_header_bytes req - 4) \<and> rq_content_length req \<le> ulong_max"
  using assms by (rule parse_request_Ok_facts)

text \<open>A request as \<^verbatim>\<open>curl -x\<close> sends it, used by the witnesses below.\<close>

definition sample_request :: string where
  "sample_request =
     ''GET http://h:81/p HTTP/1.1'' @ crlf @ ''Cookie: a'' @ crlf @ ''Te: x'' @ crlfcrlf"

definition sample_parsed :: request where
  "sample_parsed =
     \<lparr>rq_method = ''GET'', rq_host = ''h'', rq_port = ''81'', rq_path = ''/p'', rq_version = ''HTTP/1.1'',
      rq_headers = [(''Cookie'', ''a''), (''Te'', ''x'')], rq_content_length = 0, rq_header_bytes = 48\<rparr>"

lemma parse_sample: "parse_request sample_request init_request = Some (Ok, sample_parsed)"
  by code_simp

theorem parse_request_wf_witness:
  "parse_request sample_request init_request = Some (Ok, sample_parsed) \<and> wf_request sample_parsed \<and>
   find_str crlfcrlf sample_request = Some (rq_header_bytes sample_parsed - 4)"
  using parse_sample parse_request_wf [OF parse_sample] by blast


section \<open>Round trip: what a client prints is what the parser returns\<close>

abbreviation blanks :: string where "blanks \<equiv> [CHR '' '', HT]"

definition hline :: "string \<times> string \<Rightarrow> string" where
  "hline kv = fst kv @ '': '' @ snd kv"

definition wf_client_request :: "request \<Rightarrow> bool" where
  "wf_client_request req \<longleftrightarrow>
     wf_request req \<and> hd (rq_host req) \<noteq> CHR ''['' \<and> \<not> sublist crlf (rq_version req) \<and>
     (\<forall>(k, v)\<in>set (rq_headers req). trimmed blanks k \<and> trimmed blanks v)"

definition request_line :: "request \<Rightarrow> string" where
  "request_line req =
     rq_method req @ '' http://'' @ rq_host req @ '':'' @ rq_port req @ rq_path req @ '' '' @ rq_version req"

text \<open>The absolute-form head that a client of a forward proxy sends.\<close>

definition client_head :: "request \<Rightarrow> string" where
  "client_head req = lines_block (request_line req # map hline (rq_headers req)) @ crlf"

lemma trim_trimmed: "trimmed blanks s \<Longrightarrow> trim s = Some s"
  unfolding trim_def by (rule trim_chars_id)

lemma trim_blank_trimmed: "trimmed blanks s \<Longrightarrow> trim (CHR '' '' # s) = Some s"
  using trim_chars_padded [of blanks s "'' ''" "[]"] by (simp add: trim_def)

lemma hline_ok:
  assumes "\<not> sublist crlf k" and "\<not> sublist crlf v"
  shows "line_ok (hline (k, v))"
proof -
  have "\<not> sublist crlf ('': '' @ v)"
    using assms(2) by (intro not_sublist_crlf_append) (auto simp: sublist_crlf_Cons)
  then have "\<not> sublist crlf (k @ '': '' @ v)"
    using assms(1) by (intro not_sublist_crlf_append [of k "'': '' @ v"]) simp_all
  then show ?thesis by (simp add: line_ok_def hline_def)
qed

lemma parse_headers_lines:
  assumes "\<forall>(k, v)\<in>set hs. CHR '':'' \<notin> set k \<and> \<not> sublist crlf k \<and> \<not> sublist crlf v \<and> trimmed blanks k \<and> trimmed blanks v"
    and "e = length pre + length (lines_block (map hline hs)) - 2"
  shows "parse_headers (pre @ lines_block (map hline hs) @ crlf @ body) e (length pre) acc =
         Some (False, acc @ hs)"
  using assms
proof (induction hs arbitrary: pre acc)
  case Nil
  then have "\<not> length pre < e" by simp
  then show ?case by (subst parse_headers.simps) simp
next
  case (Cons kv hs)
  obtain k v where kv: "kv = (k, v)" by (cases kv)
  let ?l = "hline (k, v)"
  let ?buf = "pre @ lines_block (map hline (kv # hs)) @ crlf @ body"
  have l: "line_ok ?l" using Cons.prems kv by (auto intro: hline_ok)
  have k: "CHR '':'' \<notin> set k" "trimmed blanks k" "trimmed blanks v" using Cons.prems kv by auto
  have "find_str crlf (drop (length pre) ?buf) = Some (length ?l)"
    using l find_str_crlf_line [of ?l "lines_block (map hline hs) @ crlf @ body"]
    by (simp add: kv line_ok_def)
  then have eol: "find_str_from crlf ?buf (length pre) = Some (length pre + length ?l)"
    by (simp add: find_str_from_def)
  have h: "substr ?buf (length pre) (length ?l) = Some ?l" by (simp add: substr_def kv)
  have colon: "find_chr (CHR '':'') ?l = Some (length k)"
    using find_chr_split [OF k(1), of "'' '' @ v"] by (simp add: hline_def)
  have kk: "Option.bind (substr ?l 0 (length k)) trim = Some k"
    using k by (simp add: hline_def trim_trimmed)
  have vv: "Option.bind (substr_from ?l (length k + 1)) trim = Some v"
    using k by (simp add: hline_def substr_from_def trim_blank_trimmed)
  have "parse_headers ((pre @ ?l @ crlf) @ lines_block (map hline hs) @ crlf @ body) e
          (length (pre @ ?l @ crlf)) (acc @ [(k, v)]) = Some (False, (acc @ [(k, v)]) @ hs)"
    by (rule Cons.IH) (use Cons.prems kv in auto)
  moreover have "length pre < e" "length pre + length ?l \<le> e"
    using Cons.prems(2) l by (auto simp: kv line_ok_def)
  ultimately show ?case
    using eol h colon kk vv l
    by (subst parse_headers.simps) (simp add: kv line_ok_def add.assoc add.commute)
qed

lemma split_authority_host_port:
  assumes "host \<noteq> []" and "hd host \<noteq> CHR ''[''" and "\<forall>c\<in>set port. is_digit c"
  shows "split_authority (host @ CHR '':'' # port) out = Some (True, out\<lparr>rq_host := host, rq_port := port\<rparr>)"
proof -
  have "CHR '':'' \<notin> set port" using assms(3) by (rule digits_notin) simp
  then have "rfind_chr (CHR '':'') (host @ CHR '':'' # port) = Some (length host)"
    by (rule rfind_chr_split)
  then show ?thesis using assms(1,2) by (simp add: split_authority_def substr_from_def hd_append)
qed

lemma parse_request_line_print:
  assumes "wf_client_request req"
  shows "parse_request_line (request_line req) out =
         Some (Ok, out\<lparr>rq_method := rq_method req, rq_host := rq_host req, rq_port := rq_port req,
                       rq_path := rq_path req, rq_version := rq_version req\<rparr>)"
proof -
  from assms have wf: "wf_request req" and hd: "hd (rq_host req) \<noteq> CHR ''[''"
    by (auto simp: wf_client_request_def)
  let ?url = "''http://'' @ rq_host req @ '':'' @ rq_port req @ rq_path req"
  obtain p where p: "rq_path req = CHR ''/'' # p" using wf by (cases "rq_path req") (auto simp: wf_request_def)
  have port: "\<forall>c\<in>set (rq_port req). is_digit c" "rq_port req \<noteq> []" and host: "rq_host req \<noteq> []"
    using wf by (auto simp: wf_request_def)
  have noslash: "CHR ''/'' \<notin> set (rq_host req @ '':'' @ rq_port req)"
    and nosp: "CHR '' '' \<notin> set ?url"
    using wf digits_notin [OF port(1)] by (auto simp: wf_request_def)
  have line: "request_line req = rq_method req @ CHR '' '' # ?url @ CHR '' '' # rq_version req"
    by (simp add: request_line_def)
  have m: "CHR '' '' \<notin> set (rq_method req)" "rq_method req \<in> {''GET'', ''HEAD'', ''POST''}"
    using wf by (auto simp: wf_request_def)
  have d7: "drop 7 ?url = (rq_host req @ '':'' @ rq_port req) @ CHR ''/'' # p"
    and t7: "lower (take 7 ?url) = ''http://''"
    by (simp_all add: p eval_nat_numeral) code_simp
  have auth: "url_authority ?url = rq_host req @ CHR '':'' # rq_port req"
    unfolding url_authority_def d7 takeWhile_upto [OF noslash] by simp
  have path: "url_path ?url = rq_path req"
    unfolding url_path_def d7 dropWhile_upto [OF noslash] by (simp add: p)
  have url: "split_absolute_url ?url o1 =
    Some (True, o1\<lparr>rq_path := rq_path req, rq_host := rq_host req, rq_port := rq_port req\<rparr>)" for o1
    unfolding split_absolute_url_eq auth path
    using t7 host port hd by (simp add: split_authority_host_port)
  show ?thesis
    unfolding parse_request_line_eq line takeWhile_upto [OF m(1)] dropWhile_upto [OF m(1)] list.sel Let_def
      takeWhile_upto [OF nosp] dropWhile_upto [OF nosp] url
    using m(2) by simp
qed

lemma request_line_ok:
  assumes "wf_client_request req"
  shows "line_ok (request_line req)"
proof -
  from assms have wf: "wf_request req" and v: "\<not> sublist crlf (rq_version req)"
    by (auto simp: wf_client_request_def)
  obtain p where p: "rq_path req = CHR ''/'' # p" using wf by (cases "rq_path req") (auto simp: wf_request_def)
  have "\<not> sublist crlf p" using wf by (auto simp: wf_request_def p sublist_crlf_Cons)
  then have tail: "\<not> sublist crlf (p @ CHR '' '' # rq_version req)"
    by (rule not_sublist_crlf_sep [OF _ v]) simp_all
  have port: "\<not> sublist crlf (rq_port req)"
    using wf by (intro not_sublist_crlf_notin digits_notin) (simp_all add: wf_request_def)
  have host: "\<not> sublist crlf (rq_host req)" and m: "\<not> sublist crlf (rq_method req @ '' http:/'')"
    using wf by (auto simp: wf_request_def sublist_crlf_Cons)
  have "\<not> sublist crlf (rq_port req @ CHR ''/'' # p @ CHR '' '' # rq_version req)"
    by (rule not_sublist_crlf_sep [OF port tail]) simp_all
  then have "\<not> sublist crlf (rq_host req @ CHR '':'' # rq_port req @ CHR ''/'' # p @ CHR '' '' # rq_version req)"
    by (rule not_sublist_crlf_sep [OF host]) simp_all
  then have "\<not> sublist crlf ((rq_method req @ '' http:/'') @ CHR ''/'' # rq_host req @ CHR '':'' # rq_port req @
      CHR ''/'' # p @ CHR '' '' # rq_version req)"
    by (rule not_sublist_crlf_sep [OF m]) simp_all
  then show ?thesis by (simp add: line_ok_def request_line_def p)
qed

text \<open>
  C23. Round trip: parsing the head printed by a client, followed by any body, gives back exactly the
  printed request, with the head's length recorded and the framing headers checked.
\<close>

theorem parse_client_head:
  assumes "wf_client_request req"
  shows "parse_request (client_head req @ body) init_request =
         Some (check_framing (req\<lparr>rq_header_bytes := length (client_head req), rq_content_length := 0\<rparr>))"
proof -
  let ?buf = "client_head req @ body"
  let ?hs = "rq_headers req"
  let ?l = "request_line req"
  have hs: "\<forall>(k, v)\<in>set ?hs. CHR '':'' \<notin> set k \<and> \<not> sublist crlf k \<and> \<not> sublist crlf v \<and> trimmed blanks k \<and> trimmed blanks v"
    using assms by (auto simp: wf_client_request_def wf_request_def)
  have l: "line_ok ?l" using assms by (rule request_line_ok)
  have e: "find_str crlfcrlf ?buf = Some (length (lines_block (?l # map hline ?hs)) - 2)"
    unfolding client_head_def append_assoc
    by (rule find_str_lines_block) (use l hs in \<open>auto intro: hline_ok\<close>)
  have le: "find_str crlf ?buf = Some (length ?l)"
    using find_str_crlf_line [of ?l "lines_block (map hline ?hs) @ crlf @ body"] l
    by (simp add: client_head_def line_ok_def)
  have ph: "parse_headers ?buf (length (lines_block (?l # map hline ?hs)) - 2) (length ?l + 2) [] = Some (False, ?hs)"
    using parse_headers_lines [OF hs, of _ "?l @ crlf" body "[]"] by (simp add: client_head_def)
  have t: "take (length ?l) ?buf = ?l" by (simp add: client_head_def)
  have len: "length (lines_block (?l # map hline ?hs)) - 2 + 4 = length (client_head req)"
    by (simp add: client_head_def)
  have out: "init_request\<lparr>rq_header_bytes := n, rq_method := rq_method req, rq_host := rq_host req,
      rq_port := rq_port req, rq_path := rq_path req, rq_version := rq_version req, rq_headers := ?hs\<rparr> =
      req\<lparr>rq_header_bytes := n, rq_content_length := 0\<rparr>" for n
    by (cases req) (simp add: init_request_def)
  show ?thesis
    unfolding parse_request_def e le option.case Let_def len out [symmetric]
    using l t ph by (simp add: parse_request_line_print [OF assms] line_ok_def init_request_def)
qed

theorem parse_client_head_witness:
  "wf_client_request sample_parsed \<and>
   parse_request (client_head sample_parsed @ ''xyz'') init_request =
     Some (check_framing (sample_parsed\<lparr>rq_header_bytes := length (client_head sample_parsed), rq_content_length := 0\<rparr>))"
proof -
  have wf: "wf_client_request sample_parsed" by code_simp
  show ?thesis using wf parse_client_head [OF wf] by blast
qed


section \<open>What the origin receives\<close>

text \<open>
  How an origin server reads a request head: line by line up to the first empty line; the rest is
  the body.
\<close>

function read_head :: "string \<Rightarrow> (string list \<times> string) option" where
  "read_head s =
     (case find_str crlf s of
        None \<Rightarrow> None
      | Some i \<Rightarrow>
          if i = 0 then Some ([], drop 2 s)
          else map_option (\<lambda>(ls, b). (take i s # ls, b)) (read_head (drop (i + 2) s)))"
  by pat_completeness auto
termination
  by (relation "measure length") (auto dest: find_str_Some_bound)

declare read_head.simps [simp del]

definition line_name :: "string \<Rightarrow> string" where
  "line_name l = lower (takeWhile ((\<noteq>) (CHR '':'')) l)"

lemma read_head_lines_block:
  "\<forall>l\<in>set ls. line_ok l \<Longrightarrow> read_head (lines_block ls @ crlf @ body) = Some (ls, body)"
proof (induction ls)
  case Nil
  then show ?case by (subst read_head.simps) simp
next
  case (Cons l ls)
  then have "find_str crlf (l @ crlf @ lines_block ls @ crlf @ body) = Some (length l)"
    by (intro find_str_crlf_line) (simp add: line_ok_def)
  with Cons show ?case by (subst read_head.simps) (simp add: line_ok_def)
qed

lemma build_upstream_request_lines:
  "build_upstream_request req body =
     lines_block ((rq_method req @ '' '' @ rq_path req @ '' HTTP/1.1'') #
                  (''Host: '' @ host_value req) # map hline (forwarded_headers req) @ [''Connection: close'']) @
     crlf @ body"
proof -
  have "concat (map header_line hs) = lines_block (map hline hs)" for hs
    by (induction hs) (auto simp: header_line_def hline_def)
  then show ?thesis by (simp add: build_upstream_request_def)
qed

lemma forwarded_headersD:
  assumes "wf_request req" and "(k, v) \<in> set (forwarded_headers req)"
  shows "CHR '':'' \<notin> set k" and "\<not> sublist crlf k" and "\<not> sublist crlf v"
    and "lower k \<noteq> ''host''" and "\<not> is_hop_by_hop (lower k)"
  using assms by (auto simp: forwarded_headers_def wf_request_def)

lemma upstream_lines_ok:
  assumes "wf_request req"
  shows "\<forall>l\<in>set ((rq_method req @ '' '' @ rq_path req @ '' HTTP/1.1'') #
                  (''Host: '' @ host_value req) # map hline (forwarded_headers req) @ [''Connection: close'']). line_ok l"
proof -
  have m: "\<not> sublist crlf (rq_method req)" and path: "\<not> sublist crlf (rq_path req)"
    and host: "\<not> sublist crlf (rq_host req)"
    using assms by (auto simp: wf_request_def sublist_crlf_Cons)
  have port: "\<not> sublist crlf (rq_port req)"
    using assms by (intro not_sublist_crlf_notin digits_notin) (simp_all add: wf_request_def)
  have "\<not> sublist crlf (rq_path req @ CHR '' '' # ''HTTP/1.1'')"
    by (rule not_sublist_crlf_sep [OF path]) (simp_all add: sublist_crlf_Cons)
  then have "\<not> sublist crlf (rq_method req @ CHR '' '' # rq_path req @ CHR '' '' # ''HTTP/1.1'')"
    by (rule not_sublist_crlf_sep [OF m]) simp_all
  moreover have "\<not> sublist crlf (rq_host req @ CHR '':'' # rq_port req)"
    by (rule not_sublist_crlf_sep [OF host port]) simp_all
  then have "\<not> sublist crlf (''Host: '' @ host_value req)"
    using host by (simp add: host_value_def sublist_crlf_Cons)
  moreover have "line_ok (hline kv)" if "kv \<in> set (forwarded_headers req)" for kv
    using forwarded_headersD [OF assms, of "fst kv" "snd kv"] hline_ok [of "fst kv" "snd kv"] that by simp
  moreover have "\<not> sublist crlf ''Connection: close''" by (simp add: sublist_crlf_Cons)
  ultimately show ?thesis by (auto simp: line_ok_def)
qed

lemma line_name_hline: "CHR '':'' \<notin> set k \<Longrightarrow> line_name (hline (k, v)) = lower k"
  by (simp add: line_name_def hline_def takeWhile_upto)

text \<open>
  C24. For every request the parser accepts, the origin reads exactly the head the proxy intends and
  then exactly the body: an origin-form request line, one Host header (the proxy's own), the
  client's headers without the hop-by-hop ones, and one Connection header, \<^verbatim>\<open>close\<close>. No client
  input can add or hide a line.
\<close>

theorem upstream_request_lines:
  assumes "parse_request buf init_request = Some (Ok, req)"
  shows "\<exists>hs. read_head (build_upstream_request req body) =
           Some ((rq_method req @ '' '' @ rq_path req @ '' HTTP/1.1'') # hs, body) \<and>
         [l \<leftarrow> hs. line_name l = ''host''] = [''Host: '' @ host_value req] \<and>
         [l \<leftarrow> hs. line_name l = ''connection''] = [''Connection: close''] \<and>
         [l \<leftarrow> hs. is_hop_by_hop (line_name l)] = [''Connection: close''] \<and>
         [l \<leftarrow> hs. line_name l \<noteq> ''host'' \<and> \<not> is_hop_by_hop (line_name l)] =
           map hline [(k, v) \<leftarrow> rq_headers req. lower k \<noteq> ''host'' \<and> \<not> is_hop_by_hop (lower k)]"
proof -
  have wf: "wf_request req" using parse_request_Ok_facts [OF assms] by blast
  let ?hs = "(''Host: '' @ host_value req) # map hline (forwarded_headers req) @ [''Connection: close'']"
  have read: "read_head (build_upstream_request req body) =
      Some ((rq_method req @ '' '' @ rq_path req @ '' HTTP/1.1'') # ?hs, body)"
    unfolding build_upstream_request_lines by (rule read_head_lines_block [OF upstream_lines_ok [OF wf]])
  have host: "line_name (''Host: '' @ host_value req) = ''host''"
    by (simp add: line_name_def lower_def tolower_def) code_simp
  have conn: "line_name ''Connection: close'' = ''connection''" by code_simp
  have name: "line_name (hline kv) = lower (fst kv) \<and> lower (fst kv) \<noteq> ''host'' \<and>
      \<not> is_hop_by_hop (lower (fst kv))" if "kv \<in> set (forwarded_headers req)" for kv
    using forwarded_headersD [OF wf, of "fst kv" "snd kv"] line_name_hline [of "fst kv" "snd kv"] that by simp
  have hop: "\<not> is_hop_by_hop ''host''" "is_hop_by_hop ''connection''" by (simp_all add: is_hop_by_hop_def)
  have none: "[l \<leftarrow> map hline (forwarded_headers req). line_name l = ''host''] = []"
    "[l \<leftarrow> map hline (forwarded_headers req). line_name l = ''connection''] = []"
    "[l \<leftarrow> map hline (forwarded_headers req). is_hop_by_hop (line_name l)] = []"
    using name hop by (force simp: filter_empty_conv)+
  moreover have "[l \<leftarrow> map hline (forwarded_headers req). line_name l \<noteq> ''host'' \<and> \<not> is_hop_by_hop (line_name l)] =
      map hline (forwarded_headers req)"
    using name by (auto simp: filter_id_conv)
  ultimately show ?thesis
    using read host conn hop none
    by (intro exI [of _ ?hs]) (simp add: forwarded_headers_def)
qed

theorem upstream_request_lines_witness:
  "parse_request sample_request init_request = Some (Ok, sample_parsed) \<and>
   (\<exists>hs. read_head (build_upstream_request sample_parsed ''b'') = Some (''GET /p HTTP/1.1'' # hs, ''b'') \<and>
      [l \<leftarrow> hs. line_name l = ''host''] = [''Host: h:81''])"
proof -
  have eqs: "''Host: '' @ host_value sample_parsed = ''Host: h:81''"
    "rq_method sample_parsed @ '' '' @ rq_path sample_parsed @ '' HTTP/1.1'' = ''GET /p HTTP/1.1''"
    by (simp_all add: host_value_def sample_parsed_def)
  show ?thesis
    using parse_sample upstream_request_lines [OF parse_sample, of "''b''", unfolded eqs] by blast
qed

end
