(* ===== verification/Config.thy ===== *)
theory Config
  imports Prelude
begin

text \<open>
  Model of \<^verbatim>\<open>src/src/config.hpp\<close> and \<^verbatim>\<open>src/src/config.cpp\<close>: the configuration record with its
  defaults, the backend names and the \<^verbatim>\<open>key = value\<close> file loader. The file is a parameter:
  \<open>None\<close> when it cannot be opened, otherwise its bytes, which \<^verbatim>\<open>std::getline\<close> cuts into lines.
\<close>

section \<open>Data\<close>

datatype backend_kind = ThreadPerConn | ThreadPool | EventLoop

record config =
  listen_host :: string
  listen_port :: int
  backlog :: int
  backend :: backend_kind
  thread_pool_size :: size_t
  job_queue_capacity :: size_t
  max_header_bytes :: size_t
  max_body_bytes :: size_t
  io_chunk_bytes :: size_t
  desired_fd_limit :: int
  event_loops :: size_t
  poll_timeout_ms :: int
  async_resolve :: bool
  resolver_threads :: size_t
  dns_cache_ttl_s :: int
  resolve_delay_ms :: int
  cache_enabled :: bool
  cache_max_entries :: size_t
  cache_max_bytes :: size_t
  cache_max_entry_bytes :: size_t
  log_level :: int

definition default_config :: config where
  "default_config =
     \<lparr>listen_host = ''127.0.0.1'', listen_port = 8888, backlog = 512, backend = ThreadPerConn,
      thread_pool_size = 64, job_queue_capacity = 256, max_header_bytes = 16 * 1024,
      max_body_bytes = 8 * 1024 * 1024, io_chunk_bytes = 32 * 1024, desired_fd_limit = 10240,
      event_loops = 1, poll_timeout_ms = 30000, async_resolve = True, resolver_threads = 4,
      dns_cache_ttl_s = 60, resolve_delay_ms = 0, cache_enabled = True, cache_max_entries = 256,
      cache_max_bytes = 64 * 1024 * 1024, cache_max_entry_bytes = 1 * 1024 * 1024, log_level = 2\<rparr>"


section \<open>Operations\<close>

definition parse_backend :: "string \<Rightarrow> backend_kind option" where
  "parse_backend name =
     (if name = ''thread_per_conn'' then Some ThreadPerConn
      else if name = ''thread_pool'' then Some ThreadPool
      else if name = ''event_loop'' then Some EventLoop
      else None)"

fun backend_name :: "backend_kind \<Rightarrow> string" where
  "backend_name ThreadPerConn = ''thread_per_conn''"
| "backend_name ThreadPool = ''thread_pool''"
| "backend_name EventLoop = ''event_loop''"

text \<open>The lines that \<^verbatim>\<open>std::getline\<close> yields; a final line feed does not start another line.\<close>

function getlines :: "string \<Rightarrow> string list" where
  "getlines s =
     (if s = [] then []
      else takeWhile ((\<noteq>) LF) s # getlines (drop (Suc (length (takeWhile ((\<noteq>) LF) s))) s))"
  by pat_completeness auto
termination
  by (relation "measure length") auto

declare getlines.simps [simp del]

definition cfg_trim :: "string \<Rightarrow> string option" where
  "cfg_trim s = trim_chars [CHR '' '', HT, CR] s"

datatype set_key_result = Applied config | UnknownBackend | UnknownKey

text \<open>The chain of key comparisons, in the order of the source.\<close>

definition set_key :: "string \<Rightarrow> string \<Rightarrow> config \<Rightarrow> set_key_result" where
  "set_key key val cfg =
     (if key = ''listen_host'' then Applied (cfg\<lparr>listen_host := val\<rparr>)
      else if key = ''listen_port'' then Applied (cfg\<lparr>listen_port := atoi val\<rparr>)
      else if key = ''backlog'' then Applied (cfg\<lparr>backlog := atoi val\<rparr>)
      else if key = ''max_header_bytes'' then Applied (cfg\<lparr>max_header_bytes := strtoul val\<rparr>)
      else if key = ''max_body_bytes'' then Applied (cfg\<lparr>max_body_bytes := strtoul val\<rparr>)
      else if key = ''io_chunk_bytes'' then Applied (cfg\<lparr>io_chunk_bytes := strtoul val\<rparr>)
      else if key = ''desired_fd_limit'' then Applied (cfg\<lparr>desired_fd_limit := strtol val\<rparr>)
      else if key = ''event_loops'' then Applied (cfg\<lparr>event_loops := strtoul val\<rparr>)
      else if key = ''poll_timeout_ms'' then Applied (cfg\<lparr>poll_timeout_ms := atoi val\<rparr>)
      else if key = ''async_resolve'' then Applied (cfg\<lparr>async_resolve := (atoi val \<noteq> 0)\<rparr>)
      else if key = ''resolver_threads'' then Applied (cfg\<lparr>resolver_threads := strtoul val\<rparr>)
      else if key = ''dns_cache_ttl_s'' then Applied (cfg\<lparr>dns_cache_ttl_s := atoi val\<rparr>)
      else if key = ''resolve_delay_ms'' then Applied (cfg\<lparr>resolve_delay_ms := atoi val\<rparr>)
      else if key = ''thread_pool_size'' then Applied (cfg\<lparr>thread_pool_size := strtoul val\<rparr>)
      else if key = ''job_queue_capacity'' then Applied (cfg\<lparr>job_queue_capacity := strtoul val\<rparr>)
      else if key = ''cache_enabled'' then Applied (cfg\<lparr>cache_enabled := (atoi val \<noteq> 0)\<rparr>)
      else if key = ''cache_max_entries'' then Applied (cfg\<lparr>cache_max_entries := strtoul val\<rparr>)
      else if key = ''cache_max_bytes'' then Applied (cfg\<lparr>cache_max_bytes := strtoul val\<rparr>)
      else if key = ''cache_max_entry_bytes'' then Applied (cfg\<lparr>cache_max_entry_bytes := strtoul val\<rparr>)
      else if key = ''log_level'' then Applied (cfg\<lparr>log_level := atoi val\<rparr>)
      else if key = ''backend'' then
        (case parse_backend val of Some k \<Rightarrow> Applied (cfg\<lparr>backend := k\<rparr>) | None \<Rightarrow> UnknownBackend)
      else UnknownKey)"

text \<open>One line: \<open>Inl\<close> is the error message, \<open>Inr\<close> the configuration after the line.\<close>

definition load_line :: "nat \<Rightarrow> string \<Rightarrow> config \<Rightarrow> (string + config) option" where
  "load_line lineno line cfg =
     (let line = (case find_chr (CHR ''#'') line of Some h \<Rightarrow> take h line | None \<Rightarrow> line)
      in case find_chr (CHR ''='') line of
           None \<Rightarrow>
             if find_first_not_of [CHR '' '', HT, CR] line = None then Some (Inr cfg)
             else Some (Inl (''line '' @ to_string_nat lineno @ '': expected key = value''))
         | Some eq \<Rightarrow> do {
             l \<leftarrow> substr line 0 eq;
             key \<leftarrow> cfg_trim l;
             r \<leftarrow> substr_from line (eq + 1);
             val \<leftarrow> cfg_trim r;
             if key = [] then Some (Inr cfg)
             else
               (case set_key key val cfg of
                  Applied cfg' \<Rightarrow> Some (Inr cfg')
                | UnknownBackend \<Rightarrow>
                    Some (Inl (''line '' @ to_string_nat lineno @ '': unknown backend '' @ [CHR 0x27] @ val @ [CHR 0x27]))
                | UnknownKey \<Rightarrow>
                    Some (Inl (''line '' @ to_string_nat lineno @ '': unknown key '' @ [CHR 0x27] @ key @ [CHR 0x27])))
           })"

text \<open>The loop over the lines stops at the first error.\<close>

fun load_lines :: "nat \<Rightarrow> string list \<Rightarrow> config \<Rightarrow> (string + config) option" where
  "load_lines lineno [] cfg = Some (Inr cfg)"
| "load_lines lineno (line # lines) cfg =
     (case load_line (lineno + 1) line cfg of
        None \<Rightarrow> None
      | Some (Inl err) \<Rightarrow> Some (Inl err)
      | Some (Inr cfg') \<Rightarrow> load_lines (lineno + 1) lines cfg')"

definition load_config :: "string \<Rightarrow> string option \<Rightarrow> config \<Rightarrow> (string + config) option" where
  "load_config path file cfg =
     (case file of
        None \<Rightarrow> Some (Inl (''cannot open config: '' @ path))
      | Some content \<Rightarrow> load_lines 0 (getlines content) cfg)"


section \<open>Backend names\<close>

lemma parse_backend_name [simp]: "parse_backend (backend_name k) = Some k"
  by (cases k) (simp_all add: parse_backend_def)

lemma backend_name_parse: "parse_backend s = Some k \<Longrightarrow> backend_name k = s"
  by (auto simp: parse_backend_def split: if_splits)


section \<open>A typo fails loudly\<close>

definition known_keys :: "string list" where
  "known_keys =
     [''listen_host'', ''listen_port'', ''backlog'', ''max_header_bytes'', ''max_body_bytes'',
      ''io_chunk_bytes'', ''desired_fd_limit'', ''event_loops'', ''poll_timeout_ms'', ''async_resolve'',
      ''resolver_threads'', ''dns_cache_ttl_s'', ''resolve_delay_ms'', ''thread_pool_size'',
      ''job_queue_capacity'', ''cache_enabled'', ''cache_max_entries'', ''cache_max_bytes'',
      ''cache_max_entry_bytes'', ''log_level'', ''backend'']"

text \<open>The key of a line as a reader sees it: before the first \<^verbatim>\<open>=\<close>, comment removed, blanks trimmed.\<close>

definition uncommented :: "string \<Rightarrow> string" where
  "uncommented line = takeWhile ((\<noteq>) (CHR ''#'')) line"

definition line_key :: "string \<Rightarrow> string option" where
  "line_key line =
     (if CHR ''='' \<in> set (uncommented line)
      then cfg_trim (takeWhile ((\<noteq>) (CHR ''='')) (uncommented line)) else None)"

lemma set_key_UnknownKey_iff: "set_key k v cfg = UnknownKey \<longleftrightarrow> k \<notin> set known_keys"
  by (simp add: set_key_def known_keys_def split: option.splits)

lemma uncommented_eq:
  "(case find_chr (CHR ''#'') line of Some h \<Rightarrow> take h line | None \<Rightarrow> line) = uncommented line"
  by (auto simp: uncommented_def takeWhile_absent take_find_chr find_chr_None [symmetric] split: option.split)

lemma load_line_returns: "load_line n line cfg \<noteq> None"
proof (cases "find_chr (CHR ''='') (uncommented line)")
  case None
  then show ?thesis by (simp add: load_line_def uncommented_eq)
next
  case (Some eq)
  obtain k v where "cfg_trim (take eq (uncommented line)) = Some k"
    and "cfg_trim (drop (eq + 1) (uncommented line)) = Some v"
    using trim_chars_returns by (fastforce simp: cfg_trim_def)
  then show ?thesis
    using Some find_chr_Some [OF Some]
    by (simp add: load_line_def uncommented_eq substr_from_def split: set_key_result.splits)
qed

lemma load_lines_returns: "load_lines n lines cfg \<noteq> None"
proof (induction lines arbitrary: n cfg)
  case (Cons line lines)
  then show ?case
    using load_line_returns by (auto split: option.splits sum.splits)
qed simp

lemma load_line_unknown_key:
  assumes "line_key line = Some k" and "k \<noteq> []" and "k \<notin> set known_keys"
  shows "load_line n line cfg = Some (Inl (''line '' @ to_string_nat n @ '': unknown key '' @ [CHR 0x27] @ k @ [CHR 0x27]))"
proof -
  from assms(1) obtain eq where eq: "find_chr (CHR ''='') (uncommented line) = Some eq"
    and k: "cfg_trim (take eq (uncommented line)) = Some k"
    by (auto simp: line_key_def find_chr_eq takeWhile_eq_take [symmetric] split: if_splits)
  obtain v where "cfg_trim (drop (eq + 1) (uncommented line)) = Some v"
    using trim_chars_returns by (fastforce simp: cfg_trim_def)
  moreover have "set_key k v cfg = UnknownKey" using assms(3) by (simp add: set_key_UnknownKey_iff)
  ultimately show ?thesis
    using eq k assms(2) find_chr_Some [OF eq] by (simp add: load_line_def uncommented_eq substr_from_def)
qed

lemma load_lines_unknown_key:
  assumes "line \<in> set lines" and "line_key line = Some k" and "k \<noteq> []" and "k \<notin> set known_keys"
  shows "\<exists>err. load_lines n lines cfg = Some (Inl err)"
  using assms(1)
proof (induction lines arbitrary: n cfg)
  case (Cons l lines)
  obtain r where r: "load_line (n + 1) l cfg = Some r" using load_line_returns by blast
  show ?case
  proof (cases "l = line")
    case True
    then show ?thesis using load_line_unknown_key [OF assms(2-4)] by simp
  next
    case False
    then show ?thesis using Cons r by (cases r) auto
  qed
qed simp

text \<open>
  C38. An unknown key anywhere in the file makes loading fail, with a message: a configuration with a
  misspelt key never runs with the defaults. Loading itself never throws.
\<close>

theorem load_config_unknown_key:
  assumes "line \<in> set (getlines content)" and "line_key line = Some k" and "k \<noteq> []"
    and "k \<notin> set known_keys"
  shows "\<exists>err. load_config path (Some content) cfg = Some (Inl err)"
  using load_lines_unknown_key [OF assms] by (simp add: load_config_def)

theorem load_config_unknown_key_witness:
  "\<exists>err. load_config ''f'' (Some ''backned = x'') default_config = Some (Inl err)"
proof (rule load_config_unknown_key [where line = "''backned = x''" and k = "''backned''"])
  show "''backned = x'' \<in> set (getlines ''backned = x'')" by code_simp
  show "line_key ''backned = x'' = Some ''backned''" by code_simp
qed (simp_all add: known_keys_def)

text \<open>
  A line whose key is empty is skipped without a message, whatever its value: the loader does not
  treat it as the malformed line it is.
\<close>

lemma load_config_empty_key_ignored:
  "load_config path (Some ''= event_loop'') cfg = Some (Inr cfg)"
proof -
  have "getlines ''= event_loop'' = [''= event_loop'']" by code_simp
  moreover have "uncommented ''= event_loop'' = ''= event_loop''" by code_simp
  moreover have "find_chr (CHR ''='') ''= event_loop'' = Some 0" by simp
  moreover have "cfg_trim [] = Some []" "cfg_trim '' event_loop'' = Some ''event_loop''" by code_simp+
  ultimately show ?thesis
    by (simp add: load_config_def load_line_def uncommented_eq substr_from_def)
qed


section \<open>Round trip of the configuration file\<close>

definition wf_config :: "config \<Rightarrow> bool" where
  "wf_config c \<longleftrightarrow>
     (\<forall>i\<in>{listen_port c, backlog c, poll_timeout_ms c, dns_cache_ttl_s c, resolve_delay_ms c, log_level c}.
        - (2 ^ 31) \<le> i \<and> i < 2 ^ 31) \<and>
     (\<forall>n\<in>{thread_pool_size c, job_queue_capacity c, max_header_bytes c, max_body_bytes c, io_chunk_bytes c,
           event_loops c, resolver_threads c, cache_max_entries c, cache_max_bytes c, cache_max_entry_bytes c}.
        n \<le> ulong_max) \<and>
     - (2 ^ 63) \<le> desired_fd_limit c \<and> desired_fd_limit c < 2 ^ 63"

definition config_entries :: "config \<Rightarrow> (string \<times> string) list" where
  "config_entries c =
     [(''listen_host'', listen_host c),
      (''listen_port'', to_string_int (listen_port c)),
      (''backlog'', to_string_int (backlog c)),
      (''max_header_bytes'', to_string_nat (max_header_bytes c)),
      (''max_body_bytes'', to_string_nat (max_body_bytes c)),
      (''io_chunk_bytes'', to_string_nat (io_chunk_bytes c)),
      (''desired_fd_limit'', to_string_int (desired_fd_limit c)),
      (''event_loops'', to_string_nat (event_loops c)),
      (''poll_timeout_ms'', to_string_int (poll_timeout_ms c)),
      (''async_resolve'', if async_resolve c then ''1'' else ''0''),
      (''resolver_threads'', to_string_nat (resolver_threads c)),
      (''dns_cache_ttl_s'', to_string_int (dns_cache_ttl_s c)),
      (''resolve_delay_ms'', to_string_int (resolve_delay_ms c)),
      (''thread_pool_size'', to_string_nat (thread_pool_size c)),
      (''job_queue_capacity'', to_string_nat (job_queue_capacity c)),
      (''cache_enabled'', if cache_enabled c then ''1'' else ''0''),
      (''cache_max_entries'', to_string_nat (cache_max_entries c)),
      (''cache_max_bytes'', to_string_nat (cache_max_bytes c)),
      (''cache_max_entry_bytes'', to_string_nat (cache_max_entry_bytes c)),
      (''log_level'', to_string_int (log_level c)),
      (''backend'', backend_name (backend c))]"

definition config_line :: "string \<times> string \<Rightarrow> string" where
  "config_line kv = fst kv @ '' = '' @ snd kv"

definition print_config :: "config \<Rightarrow> string" where
  "print_config c = concat (map (\<lambda>kv. config_line kv @ [LF]) (config_entries c))"

definition plain_value :: "string \<Rightarrow> bool" where
  "plain_value v \<longleftrightarrow> trimmed [CHR '' '', HT, CR] v \<and> CHR ''#'' \<notin> set v \<and> LF \<notin> set v"

definition plain_key :: "string \<Rightarrow> bool" where
  "plain_key k \<longleftrightarrow> k \<noteq> [] \<and> plain_value k \<and> CHR ''='' \<notin> set k"

lemma getlines_unlines:
  "\<forall>l\<in>set ls. LF \<notin> set l \<Longrightarrow> getlines (concat (map (\<lambda>l. l @ [LF]) ls)) = ls"
proof (induction ls)
  case Nil
  then show ?case by (simp add: getlines.simps)
next
  case (Cons l ls)
  then have t: "takeWhile ((\<noteq>) LF) (l @ LF # concat (map (\<lambda>l. l @ [LF]) ls)) = l"
    by (intro takeWhile_upto) simp
  from Cons show ?case by (subst getlines.simps) (simp add: t)
qed

lemma load_line_entry:
  assumes "plain_key k" and "plain_value v"
  shows "load_line n (config_line (k, v)) cfg =
    (case set_key k v cfg of
       Applied cfg' \<Rightarrow> Some (Inr cfg')
     | UnknownBackend \<Rightarrow> Some (Inl (''line '' @ to_string_nat n @ '': unknown backend '' @ [CHR 0x27] @ v @ [CHR 0x27]))
     | UnknownKey \<Rightarrow> Some (Inl (''line '' @ to_string_nat n @ '': unknown key '' @ [CHR 0x27] @ k @ [CHR 0x27])))"
proof -
  let ?l = "config_line (k, v)"
  have u: "uncommented ?l = (k @ '' '') @ CHR ''='' # '' '' @ v"
    using assms by (simp add: uncommented_def config_line_def plain_key_def plain_value_def takeWhile_absent)
  have "CHR ''='' \<notin> set (k @ '' '')" using assms by (simp add: plain_key_def)
  then have eq: "find_chr (CHR ''='') (uncommented ?l) = Some (length (k @ '' ''))"
    unfolding u by (rule find_chr_split)
  have key: "cfg_trim (k @ '' '') = Some k"
    using trim_chars_padded [of "[CHR '' '', HT, CR]" k "[]" "'' ''"] assms
    by (simp add: cfg_trim_def plain_key_def plain_value_def)
  have val: "cfg_trim ('' '' @ v) = Some v"
    using trim_chars_padded [of "[CHR '' '', HT, CR]" v "'' ''" "[]"] assms
    by (simp add: cfg_trim_def plain_value_def)
  show ?thesis
    using eq key val assms(1)
    by (simp add: load_line_def uncommented_eq u substr_from_def plain_key_def split: set_key_result.splits)
qed

text \<open>A file made of plain entries applies them one after the other.\<close>

fun apply_entries :: "(string \<times> string) list \<Rightarrow> config \<Rightarrow> config option" where
  "apply_entries [] cfg = Some cfg"
| "apply_entries ((k, v) # es) cfg =
     (case set_key k v cfg of Applied cfg' \<Rightarrow> apply_entries es cfg' | _ \<Rightarrow> None)"

lemma load_lines_entries:
  assumes "\<forall>(k, v)\<in>set es. plain_key k \<and> plain_value v" and "apply_entries es cfg = Some cfg'"
  shows "load_lines n (map config_line es) cfg = Some (Inr cfg')"
  using assms
proof (induction es arbitrary: n cfg)
  case (Cons kv es)
  then show ?case
    by (cases kv) (auto simp: load_line_entry split: set_key_result.splits)
qed simp

lemma plain_value_digits: "\<forall>c\<in>set s. is_digit c \<Longrightarrow> plain_value s"
proof -
  assume d: "\<forall>c\<in>set s. is_digit c"
  have "\<not> is_digit (CHR ''#'')" "\<not> is_digit HT" by (simp_all add: is_digit_def)
  then have "CHR ''#'' \<notin> set s" "HT \<notin> set s" "CHR '' '' \<notin> set s" "CR \<notin> set s" "LF \<notin> set s"
    using digits_notin [OF d] by simp_all
  moreover from this have "s \<noteq> [] \<Longrightarrow> hd s \<notin> {CHR '' '', HT, CR} \<and> last s \<notin> {CHR '' '', HT, CR}"
    by (metis empty_iff hd_in_set insert_iff last_in_set)
  ultimately show ?thesis by (auto simp: plain_value_def trimmed_def)
qed

lemma plain_value_int: "plain_value (to_string_int i)"
proof (cases "i < 0")
  case True
  have "plain_value (to_string_nat (nat (- i)))" by (rule plain_value_digits [OF to_string_nat_digits])
  with True show ?thesis by (simp add: to_string_int_def plain_value_def trimmed_def)
next
  case False
  then show ?thesis by (simp add: to_string_int_def plain_value_digits [OF to_string_nat_digits])
qed

lemma plain_value_backend_name: "plain_value (backend_name k)"
  by (cases k) (simp_all add: plain_value_def trimmed_def)

lemma plain_value_flag: "plain_value (if b then ''1'' else ''0'')"
  by (simp add: plain_value_def trimmed_def)

lemma config_entries_plain:
  assumes "plain_value (listen_host c)"
  shows "\<forall>(k, v)\<in>set (config_entries c). plain_key k \<and> plain_value v"
proof -
  have "\<forall>k\<in>fst ` set (config_entries c). plain_key k"
    by (simp add: config_entries_def plain_key_def plain_value_def trimmed_def)
  moreover have "\<forall>v\<in>snd ` set (config_entries c). plain_value v"
    using assms plain_value_int plain_value_backend_name plain_value_flag
      plain_value_digits [OF to_string_nat_digits]
    by (simp add: config_entries_def)
  ultimately show ?thesis by force
qed

lemma atoi_flag: "atoi ''1'' = 1" "atoi ''0'' = 0"
  by code_simp+

lemma apply_config_entries:
  assumes "wf_config c"
  shows "apply_entries (config_entries c) cfg = Some c"
  using assms
  by (cases c; cases cfg)
     (simp add: config_entries_def set_key_def wf_config_def atoi_to_string_int strtol_to_string_int
        strtoul_to_string_nat atoi_flag)

text \<open>
  C37. Round trip: printing any configuration and loading the file, from whatever configuration one
  starts, gives the printed configuration back, every field included.
\<close>

theorem load_print_config:
  assumes "wf_config c" and "plain_value (listen_host c)"
  shows "load_config path (Some (print_config c)) cfg = Some (Inr c)"
proof -
  have "\<forall>l\<in>set (map config_line (config_entries c)). LF \<notin> set l"
    using config_entries_plain [OF assms(2)]
    by (auto simp: config_line_def plain_key_def plain_value_def)
  then have "getlines (print_config c) = map config_line (config_entries c)"
    using getlines_unlines [of "map config_line (config_entries c)"] by (simp add: print_config_def comp_def)
  then show ?thesis
    using load_lines_entries [OF config_entries_plain [OF assms(2)] apply_config_entries [OF assms(1)]]
    by (simp add: load_config_def)
qed

theorem load_print_config_witness:
  "load_config ''evproxy.conf'' (Some (print_config (default_config\<lparr>backend := EventLoop, event_loops := 4\<rparr>)))
     default_config = Some (Inr (default_config\<lparr>backend := EventLoop, event_loops := 4\<rparr>))"
  by (rule load_print_config)
     (simp_all add: wf_config_def default_config_def ulong_max_def plain_value_def trimmed_def)

end
