(* ===== verification/Cache.thy ===== *)
theory Cache
  imports Prelude Http Config
begin

text \<open>
  Model of \<^verbatim>\<open>src/src/cache.hpp\<close> and \<^verbatim>\<open>src/src/cache.cpp\<close>: the LRU response cache and its key.
  \<^verbatim>\<open>std::list<Entry>\<close> is a list of nodes, each with the identity that an iterator to it denotes;
  \<^verbatim>\<open>index_\<close> is an association list from keys to those identities. Following an iterator that denotes no
  node is undefined behaviour in C++ and \<open>None\<close> here. \<^verbatim>\<open>bytes_\<close> and the counters are 64-bit words.
\<close>

section \<open>Data\<close>

datatype lock_policy = StdMutex | NullMutex

type_synonym node = nat

record entry =
  ent_key :: string
  ent_response :: string

record lru =
  lc_policy :: lock_policy
  lc_order :: "(node \<times> entry) list"
  lc_index :: "(string \<times> node) list"
  lc_max_entries :: size_t
  lc_max_bytes :: size_t
  lc_bytes :: uint64
  lc_hits :: uint64
  lc_misses :: uint64

definition new_cache :: "lock_policy \<Rightarrow> size_t \<Rightarrow> size_t \<Rightarrow> lru" where
  "new_cache p max_entries max_bytes =
     \<lparr>lc_policy = p, lc_order = [], lc_index = [], lc_max_entries = max_entries, lc_max_bytes = max_bytes,
      lc_bytes = 0, lc_hits = 0, lc_misses = 0\<rparr>"

definition make_cache :: "config \<Rightarrow> lru" where
  "make_cache cfg =
     (if backend cfg = EventLoop then new_cache NullMutex (cache_max_entries cfg) (cache_max_bytes cfg)
      else new_cache StdMutex (cache_max_entries cfg) (cache_max_bytes cfg))"

definition locked :: "lru \<Rightarrow> bool" where
  "locked c \<longleftrightarrow> lc_policy c \<noteq> NullMutex"

definition cache_entries :: "lru \<Rightarrow> size_t" where
  "cache_entries c = length (lc_index c)"

definition cache_key :: "string \<Rightarrow> string \<Rightarrow> string \<Rightarrow> string \<Rightarrow> string" where
  "cache_key meth host port path = meth @ '' '' @ host @ '':'' @ port @ path"


section \<open>Operations\<close>

text \<open>The \<^verbatim>\<open>std::list\<close> operations the cache uses; a new node is none of the live ones.\<close>

definition fresh_node :: "(node \<times> entry) list \<Rightarrow> node" where
  "fresh_node order = Suc (foldr max (map fst order) 0)"

definition splice_front :: "node \<Rightarrow> (node \<times> entry) list \<Rightarrow> (node \<times> entry) list option" where
  "splice_front it order =
     map_option (\<lambda>e. (it, e) # filter (\<lambda>(n, _). n \<noteq> it) order) (map_of order it)"

definition assign_response :: "node \<Rightarrow> string \<Rightarrow> (node \<times> entry) list \<Rightarrow> (node \<times> entry) list" where
  "assign_response it r = map (\<lambda>(n, e). (n, if n = it then e\<lparr>ent_response := r\<rparr> else e))"

definition lru_get :: "string \<Rightarrow> string \<Rightarrow> lru \<Rightarrow> (bool \<times> string \<times> lru) option" where
  "lru_get key out c =
     (case map_of (lc_index c) key of
        None \<Rightarrow> Some (False, out, c\<lparr>lc_misses := lc_misses c + 1\<rparr>)
      | Some it \<Rightarrow> do {
          order \<leftarrow> splice_front it (lc_order c);
          e \<leftarrow> map_of order it;
          Some (True, ent_response e, c\<lparr>lc_order := order, lc_hits := lc_hits c + 1\<rparr>)
        })"

definition over_limit :: "lru \<Rightarrow> bool" where
  "over_limit c \<longleftrightarrow>
     lc_max_entries c \<noteq> 0 \<and> length (lc_index c) > lc_max_entries c \<or>
     lc_max_bytes c \<noteq> 0 \<and> unat (lc_bytes c) > lc_max_bytes c"

function evict :: "lru \<Rightarrow> lru" where
  "evict c =
     (if over_limit c then
        if lc_order c = [] then c
        else
          let victim = snd (last (lc_order c)) in
          evict (c\<lparr>lc_bytes := lc_bytes c - of_nat (length (ent_response victim)),
                   lc_index := AList.delete (ent_key victim) (lc_index c),
                   lc_order := butlast (lc_order c)\<rparr>)
      else c)"
  by pat_completeness auto
termination by (relation "measure (\<lambda>c. length (lc_order c))") auto

declare evict.simps [simp del]

definition lru_put :: "string \<Rightarrow> string \<Rightarrow> lru \<Rightarrow> lru option" where
  "lru_put key response c =
     (case map_of (lc_index c) key of
        Some it \<Rightarrow> do {
          e \<leftarrow> map_of (lc_order c) it;
          order \<leftarrow> splice_front it (assign_response it response (lc_order c));
          Some (c\<lparr>lc_bytes := lc_bytes c - of_nat (length (ent_response e)) + of_nat (length response),
                  lc_order := order\<rparr>)
        }
      | None \<Rightarrow>
          let it = fresh_node (lc_order c) in
          Some (evict (c\<lparr>lc_order := (it, \<lparr>ent_key = key, ent_response = response\<rparr>) # lc_order c,
                         lc_index := AList.update key it (lc_index c),
                         lc_bytes := lc_bytes c + of_nat (length response)\<rparr>)))"


section \<open>Invariant\<close>

text \<open>
  The two structures are in step: the index has exactly one entry for every node of the list, under
  the node's key, and \<open>lc_bytes\<close> is the total size of the stored responses.
\<close>

definition kv :: "node \<times> entry \<Rightarrow> string \<times> string" where
  "kv x = (ent_key (snd x), ent_response (snd x))"

definition entries_of :: "lru \<Rightarrow> (string \<times> string) list" where
  "entries_of c = map kv (lc_order c)"

definition total_size :: "(string \<times> string) list \<Rightarrow> nat" where
  "total_size xs = sum_list (map (length \<circ> snd) xs)"

definition index_of :: "(node \<times> entry) list \<Rightarrow> (string \<times> node) set" where
  "index_of order = (\<lambda>x. (ent_key (snd x), fst x)) ` set order"

definition lru_inv :: "lru \<Rightarrow> bool" where
  "lru_inv c \<longleftrightarrow>
     distinct (map fst (lc_order c)) \<and> distinct (map fst (entries_of c)) \<and>
     distinct (map fst (lc_index c)) \<and> set (lc_index c) = index_of (lc_order c) \<and>
     lc_bytes c = of_nat (total_size (entries_of c))"

lemma total_size_simps [simp]:
  "total_size [] = 0" "total_size ((k, v) # xs) = length v + total_size xs"
  "total_size (xs @ ys) = total_size xs + total_size ys"
  by (simp_all add: total_size_def)

lemma lru_inv_new [simp]: "lru_inv (new_cache p me mb)"
  by (simp add: lru_inv_def new_cache_def index_of_def entries_of_def)

lemma fresh_node_notin: "fresh_node order \<notin> fst ` set order"
proof -
  have "n \<le> foldr max (map fst order) 0" if "n \<in> fst ` set order" for n
    using that by (induction order) (auto simp: le_max_iff_disj)
  then show ?thesis by (force simp: fresh_node_def)
qed

lemma map_fst_entries_of: "map fst (entries_of c) = map (ent_key \<circ> snd) (lc_order c)"
  by (simp add: entries_of_def kv_def comp_def)

text \<open>What a lookup in the index finds.\<close>

lemma index_lookup:
  assumes "lru_inv c"
  shows "map_of (lc_index c) k = Some it \<longleftrightarrow> (\<exists>e. (it, e) \<in> set (lc_order c) \<and> ent_key e = k)"
proof -
  have "map_of (lc_index c) k = Some it \<longleftrightarrow> (k, it) \<in> set (lc_index c)"
    using assms by (simp add: lru_inv_def)
  also have "\<dots> \<longleftrightarrow> (\<exists>e. (it, e) \<in> set (lc_order c) \<and> ent_key e = k)"
    using assms by (force simp: lru_inv_def index_of_def)
  finally show ?thesis .
qed

lemma index_lookup_None:
  assumes "lru_inv c"
  shows "map_of (lc_index c) k = None \<longleftrightarrow> k \<notin> fst ` set (entries_of c)"
proof -
  have "fst ` set (lc_index c) = fst ` set (entries_of c)"
    using assms by (force simp: lru_inv_def index_of_def entries_of_def kv_def)
  then show ?thesis by (simp add: map_of_eq_None_iff)
qed

lemma length_index:
  assumes "lru_inv c"
  shows "length (lc_index c) = length (entries_of c)"
proof -
  have "length (lc_index c) = card (fst ` set (lc_index c))"
    using assms distinct_card [of "map fst (lc_index c)"] by (simp add: lru_inv_def)
  also have "fst ` set (lc_index c) = fst ` set (entries_of c)"
    using assms by (force simp: lru_inv_def index_of_def entries_of_def kv_def)
  also have "card \<dots> = length (entries_of c)"
    using assms distinct_card [of "map fst (entries_of c)"] by (simp add: lru_inv_def)
  finally show ?thesis .
qed

text \<open>A key in the index splits the list at its node.\<close>

lemma index_split:
  assumes "lru_inv c" and "map_of (lc_index c) k = Some it"
  obtains ys e zs where "lc_order c = ys @ (it, e) # zs" and "ent_key e = k"
    and "it \<notin> fst ` set ys" and "it \<notin> fst ` set zs"
    and "k \<notin> fst ` set (map kv ys)" and "k \<notin> fst ` set (map kv zs)"
proof -
  obtain e where "(it, e) \<in> set (lc_order c)" and k: "ent_key e = k"
    using index_lookup [OF assms(1)] assms(2) by blast
  then obtain ys zs where s: "lc_order c = ys @ (it, e) # zs" by (auto dest: split_list)
  have d: "distinct (map fst (lc_order c))" "distinct (map fst (map kv (lc_order c)))"
    using assms(1) by (simp_all add: lru_inv_def entries_of_def)
  have "fst (kv (it, e)) = k" by (simp add: kv_def k)
  then have "k \<notin> fst ` set (map kv ys)" "k \<notin> fst ` set (map kv zs)"
    using d(2) unfolding s by (auto simp: image_image)
  moreover have "it \<notin> fst ` set ys" "it \<notin> fst ` set zs" using d(1) unfolding s by auto
  ultimately show ?thesis using that s k by blast
qed

lemma filter_absent: "k \<notin> fst ` set xs \<Longrightarrow> filter (\<lambda>x. fst x \<noteq> k) xs = xs"
  by (rule filter_True) auto

lemma splice_front_split:
  assumes "it \<notin> fst ` set ys" and "it \<notin> fst ` set zs"
  shows "splice_front it (ys @ (it, e) # zs) = Some ((it, e) # ys @ zs)"
proof -
  have "map_of (ys @ (it, e) # zs) it = Some e"
    using assms(1) by (simp add: map_add_Some_iff map_of_eq_None_iff)
  then show ?thesis
    using assms by (simp add: splice_front_def case_prod_unfold filter_absent)
qed

lemma delete_split:
  assumes "k \<notin> fst ` set xs" and "k \<notin> fst ` set ys"
  shows "AList.delete k (xs @ (k, v) # ys) = xs @ ys"
proof -
  have "AList.delete k (xs @ (k, v) # ys) = AList.delete k xs @ AList.delete k ys"
    by (simp add: AList.delete_eq)
  then show ?thesis using assms by simp
qed

lemma map_of_split: "k \<notin> fst ` set xs \<Longrightarrow> map_of (xs @ (k, v) # ys) k = Some v"
  by (simp add: map_add_Some_iff map_of_eq_None_iff)

lemma kv_pair: "ent_key e = k \<Longrightarrow> kv (it, e) = (k, ent_response e)"
  by (simp add: kv_def)

text \<open>Moving a node to the front, with another response, keeps the invariant.\<close>

lemma lru_inv_move:
  assumes inv: "lru_inv c" and s: "lc_order c = ys @ (it, e) # zs" and k: "ent_key e' = ent_key e"
  shows "lru_inv (c\<lparr>lc_bytes := lc_bytes c - of_nat (length (ent_response e)) + of_nat (length (ent_response e')),
                    lc_order := (it, e') # ys @ zs\<rparr>)" (is "lru_inv ?c")
proof -
  have "distinct (map fst (lc_order ?c))" using inv by (simp add: lru_inv_def s)
  moreover have "distinct (map fst (entries_of ?c))"
    using inv by (simp add: lru_inv_def map_fst_entries_of s k)
  moreover have "distinct (map fst (lc_index ?c))" using inv by (simp add: lru_inv_def)
  moreover have "set (lc_index ?c) = index_of (lc_order ?c)"
    using inv by (simp add: lru_inv_def index_of_def s k image_Un)
  moreover have "lc_bytes ?c = of_nat (total_size (entries_of ?c))"
    using inv by (simp add: lru_inv_def entries_of_def s kv_def)
  ultimately show ?thesis by (simp add: lru_inv_def)
qed

text \<open>\<open>get\<close> on the two branches.\<close>

lemma lru_get_hit:
  assumes "lru_inv c" and "map_of (entries_of c) k = Some v"
  obtains order where "lru_get k out c = Some (True, v, c\<lparr>lc_order := order, lc_hits := lc_hits c + 1\<rparr>)"
    and "lru_inv (c\<lparr>lc_order := order, lc_hits := lc_hits c + 1\<rparr>)"
    and "map kv order = (k, v) # AList.delete k (entries_of c)"
proof -
  have "k \<in> fst ` set (entries_of c)" using assms(2) by (metis domI dom_map_of_conv_image_fst)
  then obtain it where it: "map_of (lc_index c) k = Some it"
    using index_lookup_None [OF assms(1), of k] by blast
  obtain ys e zs where s: "lc_order c = ys @ (it, e) # zs" "ent_key e = k"
    "it \<notin> fst ` set ys" "it \<notin> fst ` set zs" "k \<notin> fst ` set (map kv ys)" "k \<notin> fst ` set (map kv zs)"
    by (rule index_split [OF assms(1) it])
  have en: "entries_of c = map kv ys @ (k, ent_response e) # map kv zs"
    by (simp add: entries_of_def s(1) kv_pair [OF s(2)])
  then have v: "v = ent_response e" using assms(2) map_of_split [OF s(5)] by simp
  have "lru_get k out c = Some (True, v, c\<lparr>lc_order := (it, e) # ys @ zs, lc_hits := lc_hits c + 1\<rparr>)"
    using it splice_front_split [OF s(3,4)] by (simp add: lru_get_def s(1) v)
  moreover have "lru_inv (c\<lparr>lc_order := (it, e) # ys @ zs, lc_hits := lc_hits c + 1\<rparr>)"
    using lru_inv_move [OF assms(1) s(1), of e]
    by (simp add: lru_inv_def entries_of_def)
  moreover have "map kv ((it, e) # ys @ zs) = (k, v) # AList.delete k (entries_of c)"
    unfolding en using delete_split [OF s(5,6)] by (simp add: kv_pair [OF s(2)] v)
  ultimately show ?thesis by (rule that)
qed

lemma lru_get_miss:
  assumes "lru_inv c" and "map_of (entries_of c) k = None"
  shows "lru_get k out c = Some (False, out, c\<lparr>lc_misses := lc_misses c + 1\<rparr>)"
proof -
  have "map_of (lc_index c) k = None"
    using assms index_lookup_None [OF assms(1)] by (simp add: map_of_eq_None_iff)
  then show ?thesis by (simp add: lru_get_def)
qed

lemma lru_inv_counters [simp]:
  "lru_inv (c\<lparr>lc_misses := m\<rparr>) \<longleftrightarrow> lru_inv c" "entries_of (c\<lparr>lc_misses := m\<rparr>) = entries_of c"
  "lru_inv (c\<lparr>lc_hits := m\<rparr>) \<longleftrightarrow> lru_inv c" "entries_of (c\<lparr>lc_hits := m\<rparr>) = entries_of c"
  by (simp_all add: lru_inv_def entries_of_def)

text \<open>\<open>put\<close> on a key the cache has.\<close>

lemma lru_put_present:
  assumes "lru_inv c" and "k \<in> fst ` set (entries_of c)"
  obtains c' where "lru_put k r c = Some c'" and "lru_inv c'"
    and "entries_of c' = (k, r) # AList.delete k (entries_of c)"
    and "lc_max_entries c' = lc_max_entries c" and "lc_max_bytes c' = lc_max_bytes c"
proof -
  obtain it where it: "map_of (lc_index c) k = Some it"
    using index_lookup_None [OF assms(1), of k] assms(2) by blast
  obtain ys e zs where s: "lc_order c = ys @ (it, e) # zs" "ent_key e = k"
    "it \<notin> fst ` set ys" "it \<notin> fst ` set zs" "k \<notin> fst ` set (map kv ys)" "k \<notin> fst ` set (map kv zs)"
    by (rule index_split [OF assms(1) it])
  let ?e = "e\<lparr>ent_response := r\<rparr>"
  have keep: "assign_response it r xs = xs" if "it \<notin> fst ` set xs" for xs
    using that by (auto simp: assign_response_def image_iff intro!: map_idI)
  have a: "assign_response it r (lc_order c) = ys @ (it, ?e) # zs"
    using keep [OF s(3)] keep [OF s(4)] by (simp add: s(1) assign_response_def)
  let ?c = "c\<lparr>lc_bytes := lc_bytes c - of_nat (length (ent_response e)) + of_nat (length r),
               lc_order := (it, ?e) # ys @ zs\<rparr>"
  have "map_of (lc_order c) it = Some e" using map_of_split [OF s(3)] by (simp add: s(1))
  then have "lru_put k r c = Some ?c"
    using it splice_front_split [OF s(3,4)] by (simp add: lru_put_def a)
  moreover have "lru_inv ?c"
    using lru_inv_move [OF assms(1) s(1), of ?e] by simp
  moreover have "entries_of ?c = (k, r) # AList.delete k (entries_of c)"
    using delete_split [OF s(5,6)] s(2) by (simp add: entries_of_def s(1) kv_def)
  ultimately show ?thesis by (rule that) simp_all
qed


section \<open>Abstract specification: a recency list\<close>

text \<open>
  The cache as a list of key-response pairs, the most recently used first. The insertion of a new key
  keeps the longest prefix of the list that is within both bounds; the replacement of a response moves
  its key to the front and evicts nothing, even when the new response takes the list over the byte bound.
\<close>

definition within :: "size_t \<Rightarrow> size_t \<Rightarrow> (string \<times> string) list \<Rightarrow> bool" where
  "within me mb xs \<longleftrightarrow> (me = 0 \<or> length xs \<le> me) \<and> (mb = 0 \<or> total_size xs \<le> mb)"

definition fit :: "size_t \<Rightarrow> size_t \<Rightarrow> (string \<times> string) list \<Rightarrow> (string \<times> string) list" where
  "fit me mb xs = last (filter (within me mb) (prefixes xs))"

definition spec_get :: "string \<Rightarrow> (string \<times> string) list \<Rightarrow> string option \<times> (string \<times> string) list" where
  "spec_get k xs =
     (case map_of xs k of None \<Rightarrow> (None, xs) | Some v \<Rightarrow> (Some v, (k, v) # AList.delete k xs))"

definition spec_put ::
  "size_t \<Rightarrow> size_t \<Rightarrow> string \<Rightarrow> string \<Rightarrow> (string \<times> string) list \<Rightarrow> (string \<times> string) list" where
  "spec_put me mb k v xs =
     (if k \<in> fst ` set xs then (k, v) # AList.delete k xs else fit me mb ((k, v) # xs))"

lemma within_Nil [simp]: "within me mb []"
  by (simp add: within_def)

lemma fit_id: "within me mb xs \<Longrightarrow> fit me mb xs = xs"
  by (cases xs rule: rev_cases) (simp_all add: fit_def prefixes_snoc)

lemma fit_butlast: "\<not> within me mb xs \<Longrightarrow> fit me mb xs = fit me mb (butlast xs)"
  by (cases xs rule: rev_cases) (simp_all add: fit_def prefixes_snoc)

lemma fit_prefix: "prefix (fit me mb xs) xs" and fit_within: "within me mb (fit me mb xs)"
proof -
  have "[] \<in> set (filter (within me mb) (prefixes xs))" by simp
  then have "filter (within me mb) (prefixes xs) \<noteq> []" by (metis empty_iff empty_set)
  then have "fit me mb xs \<in> set (filter (within me mb) (prefixes xs))"
    unfolding fit_def by (rule last_in_set)
  then show "prefix (fit me mb xs) xs" and "within me mb (fit me mb xs)" by simp_all
qed

lemma last_prefixes_longest:
  "ys \<in> set (filter P (prefixes xs)) \<Longrightarrow> length ys \<le> length (last (filter P (prefixes xs)))"
  by (induction xs rule: rev_induct) (auto simp: prefixes_snoc dest: prefix_length_le split: if_splits)

lemma fit_not_Nil: "[x] \<in> set (filter (within me mb) (prefixes xs)) \<Longrightarrow> fit me mb xs \<noteq> []"
  unfolding fit_def by (drule last_prefixes_longest) auto

text \<open>One round of the eviction loop, on the invariant and on the abstract list.\<close>

abbreviation evict_one :: "lru \<Rightarrow> lru" where
  "evict_one c \<equiv>
     c\<lparr>lc_bytes := lc_bytes c - of_nat (length (ent_response (snd (last (lc_order c))))),
       lc_index := AList.delete (ent_key (snd (last (lc_order c)))) (lc_index c),
       lc_order := butlast (lc_order c)\<rparr>"

lemma evict_one:
  assumes inv: "lru_inv c" and "lc_order c \<noteq> []"
  shows "lru_inv (evict_one c)" and "entries_of (evict_one c) = butlast (entries_of c)"
proof -
  obtain ys it e where s: "lc_order c = ys @ [(it, e)]" using assms(2) by (cases "lc_order c" rule: rev_cases) auto
  show "entries_of (evict_one c) = butlast (entries_of c)" by (simp add: entries_of_def map_butlast)
  have d: "ent_key (snd x) \<noteq> ent_key e" if "x \<in> set ys" for x
    using inv that by (force simp: lru_inv_def map_fst_entries_of s)
  have "distinct (map fst (lc_order (evict_one c)))" using inv by (simp add: lru_inv_def s)
  moreover have "distinct (map fst (entries_of (evict_one c)))"
    using inv by (simp add: lru_inv_def map_fst_entries_of s)
  moreover have "distinct (map fst (lc_index (evict_one c)))"
    using inv by (simp add: lru_inv_def distinct_delete)
  moreover have "set (lc_index (evict_one c)) = index_of (lc_order (evict_one c))"
  proof -
    have "set (lc_index c) = insert (ent_key e, it) (index_of ys)"
      using inv by (simp add: lru_inv_def s index_of_def)
    moreover have "set (AList.delete k xs) = {x \<in> set xs. fst x \<noteq> k}" for k and xs :: "(string \<times> node) list"
      by (auto simp: AList.delete_eq)
    ultimately show ?thesis using d by (auto simp: s index_of_def)
  qed
  moreover have "lc_bytes (evict_one c) = of_nat (total_size (entries_of (evict_one c)))"
    using inv by (simp add: lru_inv_def entries_of_def s kv_def)
  ultimately show "lru_inv (evict_one c)" by (simp add: lru_inv_def)
qed

lemma evict_inv:
  "lru_inv c \<Longrightarrow> lru_inv (evict c) \<and> prefix (entries_of (evict c)) (entries_of c) \<and>
     lc_max_entries (evict c) = lc_max_entries c \<and> lc_max_bytes (evict c) = lc_max_bytes c"
proof (induction c rule: evict.induct)
  case (1 c)
  show ?case
  proof (cases "over_limit c \<and> lc_order c \<noteq> []")
    case True
    have "prefix xs (butlast ys) \<Longrightarrow> prefix xs ys" for xs ys :: "(string \<times> string) list"
      using prefixeq_butlast prefix_order.trans by blast
    with True 1(1) [OF _ _ refl] evict_one [OF 1(2)] show ?thesis
      by (subst (1 2 3 4) evict.simps) (simp add: Let_def)
  next
    case False
    with 1(2) show ?thesis by (subst (1 2 3 4) evict.simps) auto
  qed
qed

lemma over_limit_within:
  assumes "lru_inv c" and "total_size (entries_of c) \<le> ulong_max"
  shows "over_limit c \<longleftrightarrow> \<not> within (lc_max_entries c) (lc_max_bytes c) (entries_of c)"
proof -
  have "unat (lc_bytes c) = total_size (entries_of c)"
    using assms by (simp add: lru_inv_def unat_of_nat ulong_max_def)
  then show ?thesis by (auto simp: over_limit_def within_def length_index [OF assms(1)])
qed

lemma evict_fit:
  assumes "lru_inv c" and "total_size (entries_of c) \<le> ulong_max"
  shows "entries_of (evict c) = fit (lc_max_entries c) (lc_max_bytes c) (entries_of c)"
  using assms
proof (induction c rule: evict.induct)
  case (1 c)
  note over = over_limit_within [OF 1(2,3)]
  have ne: "lc_order c \<noteq> []" if "over_limit c"
    using that over by (auto simp: entries_of_def)
  show ?case
  proof (cases "over_limit c")
    case True
    have "total_size (butlast xs) \<le> total_size xs" for xs
      by (cases xs rule: rev_cases) (simp_all add: total_size_def)
    then have "total_size (entries_of (evict_one c)) \<le> ulong_max"
      using 1(3) evict_one(2) [OF 1(2) ne [OF True]] le_trans by metis
    then have "entries_of (evict (evict_one c)) =
        fit (lc_max_entries c) (lc_max_bytes c) (entries_of (evict_one c))"
      using 1(1) [OF True ne [OF True] refl] evict_one(1) [OF 1(2) ne [OF True]] by simp
    also have "\<dots> = fit (lc_max_entries c) (lc_max_bytes c) (entries_of c)"
      using True over evict_one(2) [OF 1(2) ne [OF True]] by (simp add: fit_butlast)
    finally show ?thesis using True ne by (subst evict.simps) (simp add: Let_def)
  next
    case False
    then show ?thesis using over by (subst evict.simps) (simp add: fit_id)
  qed
qed

text \<open>\<open>put\<close> on a key the cache does not have.\<close>

lemma lru_put_absent:
  assumes inv: "lru_inv c" and "k \<notin> fst ` set (entries_of c)"
  obtains c0 where "lru_put k r c = Some (evict c0)" and "lru_inv c0"
    and "entries_of c0 = (k, r) # entries_of c"
    and "lc_max_entries c0 = lc_max_entries c" and "lc_max_bytes c0 = lc_max_bytes c"
proof -
  define it where "it = fresh_node (lc_order c)"
  define c0 where "c0 = c\<lparr>lc_order := (it, \<lparr>ent_key = k, ent_response = r\<rparr>) # lc_order c,
                          lc_index := AList.update k it (lc_index c),
                          lc_bytes := lc_bytes c + of_nat (length r)\<rparr>"
  have none: "map_of (lc_index c) k = None" using index_lookup_None [OF inv] assms(2) by blast
  have e: "entries_of c0 = (k, r) # entries_of c" by (simp add: c0_def entries_of_def kv_def)
  have nk: "k \<notin> fst ` set (lc_index c)" using none by (simp add: map_of_eq_None_iff)
  have up: "AList.update k it xs = xs @ [(k, it)]" if "k \<notin> fst ` set xs" for xs :: "(string \<times> node) list"
    using that by (induction xs) auto
  have "distinct (map fst (lc_order c0))"
    using inv fresh_node_notin [of "lc_order c"] by (simp add: c0_def lru_inv_def it_def)
  moreover have "distinct (map fst (entries_of c0))" using inv assms(2) by (simp add: e lru_inv_def)
  moreover have "distinct (map fst (lc_index c0))"
    using inv by (simp add: c0_def lru_inv_def distinct_update)
  moreover have "set (lc_index c0) = index_of (lc_order c0)"
    using inv nk by (simp add: c0_def lru_inv_def index_of_def up)
  moreover have "lc_bytes c0 = of_nat (total_size (entries_of c0))"
    using inv by (simp add: e) (simp add: c0_def lru_inv_def)
  ultimately have "lru_inv c0" by (simp add: lru_inv_def)
  moreover have "lru_put k r c = Some (evict c0)"
    using none by (simp add: lru_put_def Let_def c0_def it_def)
  moreover have "lc_max_entries c0 = lc_max_entries c" "lc_max_bytes c0 = lc_max_bytes c"
    by (simp_all add: c0_def)
  ultimately show ?thesis using e that by blast
qed

lemma map_of_delete_front:
  "map_of xs k = Some v \<Longrightarrow> map_of ((k, v) # AList.delete k xs) = map_of xs"
  by (auto simp: delete_conv')

lemma prefix_map_le: "prefix xs ys \<Longrightarrow> map_of xs \<subseteq>\<^sub>m map_of ys"
  by (auto simp: prefix_def map_le_def map_add_def split: option.splits)

text \<open>Every operation, on a well-formed cache, against the abstract one.\<close>

lemma lru_get_spec:
  assumes "lru_inv c"
  obtains b v c' where "lru_get k out c = Some (b, v, c')" and "lru_inv c'"
    and "spec_get k (entries_of c) = (if b then Some v else None, entries_of c')"
    and "b \<or> v = out"
    and "lc_max_entries c' = lc_max_entries c" and "lc_max_bytes c' = lc_max_bytes c"
    and "map_of (entries_of c') = map_of (entries_of c)"
proof (cases "map_of (entries_of c) k")
  case None
  show ?thesis
    by (rule that [OF lru_get_miss [OF assms None]]) (use assms None in \<open>simp_all add: spec_get_def\<close>)
next
  case (Some v)
  obtain order where o: "lru_get k out c = Some (True, v, c\<lparr>lc_order := order, lc_hits := lc_hits c + 1\<rparr>)"
    "lru_inv (c\<lparr>lc_order := order, lc_hits := lc_hits c + 1\<rparr>)"
    "map kv order = (k, v) # AList.delete k (entries_of c)"
    by (rule lru_get_hit [OF assms Some])
  have "entries_of (c\<lparr>lc_order := order, lc_hits := lc_hits c + 1\<rparr>) = (k, v) # AList.delete k (entries_of c)"
    using o(3) by (simp add: entries_of_def)
  with o(1,2) Some map_of_delete_front [OF Some] show ?thesis
    by (intro that [OF o(1,2)]) (simp_all add: spec_get_def)
qed

lemma lru_put_spec:
  assumes "lru_inv c" and "total_size (entries_of c) + length r \<le> ulong_max"
  obtains c' where "lru_put k r c = Some c'" and "lru_inv c'"
    and "entries_of c' = spec_put (lc_max_entries c) (lc_max_bytes c) k r (entries_of c)"
    and "lc_max_entries c' = lc_max_entries c" and "lc_max_bytes c' = lc_max_bytes c"
proof (cases "k \<in> fst ` set (entries_of c)")
  case True
  obtain c' where c': "lru_put k r c = Some c'" "lru_inv c'"
    "entries_of c' = (k, r) # AList.delete k (entries_of c)"
    "lc_max_entries c' = lc_max_entries c" "lc_max_bytes c' = lc_max_bytes c"
    by (rule lru_put_present [OF assms(1) True])
  with True show ?thesis by (intro that [OF c'(1)]) (simp_all add: spec_put_def)
next
  case False
  obtain c0 where c0: "lru_put k r c = Some (evict c0)" "lru_inv c0" "entries_of c0 = (k, r) # entries_of c"
    "lc_max_entries c0 = lc_max_entries c" "lc_max_bytes c0 = lc_max_bytes c"
    by (rule lru_put_absent [OF assms(1) False])
  have "entries_of (evict c0) = fit (lc_max_entries c) (lc_max_bytes c) ((k, r) # entries_of c)"
    using evict_fit [OF c0(2)] assms(2) by (simp add: c0)
  with c0 evict_inv [OF c0(2)] False show ?thesis by (intro that [OF c0(1)]) (simp_all add: spec_put_def)
qed

lemma lru_put_map_le:
  assumes "lru_inv c"
  obtains c' where "lru_put k r c = Some c'" and "lru_inv c'"
    and "map_of (entries_of c') \<subseteq>\<^sub>m (map_of (entries_of c))(k \<mapsto> r)"
proof (cases "k \<in> fst ` set (entries_of c)")
  case True
  obtain c' where c': "lru_put k r c = Some c'" "lru_inv c'"
    "entries_of c' = (k, r) # AList.delete k (entries_of c)"
    by (rule lru_put_present [OF assms True])
  then show ?thesis by (intro that [OF c'(1)]) (simp_all add: map_le_def delete_conv')
next
  case False
  obtain c0 where c0: "lru_put k r c = Some (evict c0)" "lru_inv c0" "entries_of c0 = (k, r) # entries_of c"
    by (rule lru_put_absent [OF assms False])
  show ?thesis
    by (rule that [OF c0(1)]) (use evict_inv [OF c0(2)] prefix_map_le c0(3) in fastforce)+
qed


section \<open>The \<open>ResponseCache\<close> interface\<close>

text \<open>
  What the connection relies on when it calls \<^verbatim>\<open>ResponseCache::get\<close> and \<^verbatim>\<open>put\<close>: no call fails, a
  lookup changes no binding, and an insertion binds its own key only (it may drop any other).
\<close>

datatype cache_op = CGet string | CPut string string

fun cache_run ::
  "(string \<Rightarrow> string \<Rightarrow> 'c \<Rightarrow> (bool \<times> string \<times> 'c) option) \<Rightarrow> (string \<Rightarrow> string \<Rightarrow> 'c \<Rightarrow> 'c option) \<Rightarrow>
   cache_op list \<Rightarrow> 'c \<Rightarrow> (string option list \<times> 'c) option" where
  "cache_run get put [] c = Some ([], c)"
| "cache_run get put (CGet k # ops) c = do {
     (b, v, c1) \<leftarrow> get k [] c;
     (rs, c2) \<leftarrow> cache_run get put ops c1;
     Some ((if b then Some v else None) # rs, c2)
   }"
| "cache_run get put (CPut k v # ops) c = do {
     c1 \<leftarrow> put k v c;
     cache_run get put ops c1
   }"

fun puts :: "cache_op list \<Rightarrow> (string \<rightharpoonup> string) \<Rightarrow> (string \<rightharpoonup> string)" where
  "puts [] m = m"
| "puts (CGet k # ops) m = puts ops m"
| "puts (CPut k v # ops) m = puts ops (m(k \<mapsto> v))"

lemma puts_mono: "m \<subseteq>\<^sub>m m' \<Longrightarrow> puts ops m \<subseteq>\<^sub>m puts ops m'"
  by (induction ops m arbitrary: m' rule: puts.induct) (simp_all add: map_le_upd)

locale response_cache =
  fixes get :: "string \<Rightarrow> string \<Rightarrow> 'c \<Rightarrow> (bool \<times> string \<times> 'c) option"
    and put :: "string \<Rightarrow> string \<Rightarrow> 'c \<Rightarrow> 'c option"
    and inv :: "'c \<Rightarrow> bool"
    and lookup :: "'c \<Rightarrow> (string \<rightharpoonup> string)"
  assumes get_law: "inv c \<Longrightarrow> \<exists>c'. inv c' \<and> lookup c' = lookup c \<and>
      get k out c = Some (case lookup c k of None \<Rightarrow> (False, out, c') | Some v \<Rightarrow> (True, v, c'))"
    and put_law: "inv c \<Longrightarrow> \<exists>c'. put k v c = Some c' \<and> inv c' \<and> lookup c' \<subseteq>\<^sub>m (lookup c)(k \<mapsto> v)"
begin

lemma get_returns:
  assumes "inv c"
  obtains b v c' where "get k out c = Some (b, v, c')" and "inv c'" and "lookup c' = lookup c"
    and "b \<Longrightarrow> lookup c k = Some v" and "\<not> b \<Longrightarrow> lookup c k = None \<and> v = out"
proof (cases "lookup c k")
  case None
  then show ?thesis using get_law [OF assms, of k out] that [of False out] by auto
next
  case (Some v)
  then show ?thesis using get_law [OF assms, of k out] that [of True v] by auto
qed

lemma run_returns:
  assumes "inv c"
  obtains rs c' where "cache_run get put ops c = Some (rs, c')" and "inv c'"
    and "lookup c' \<subseteq>\<^sub>m puts ops (lookup c)"
  using assms
proof (induction ops arbitrary: c thesis)
  case Nil
  then show ?case by simp
next
  case (Cons op ops)
  show ?case
  proof (cases op)
    case (CGet k)
    obtain b v c1 where g: "get k [] c = Some (b, v, c1)" "inv c1" "lookup c1 = lookup c"
      by (rule get_returns [OF Cons.prems(2)])
    show ?thesis
      by (rule Cons.IH [OF _ g(2)]) (use Cons.prems(1) g in \<open>simp add: CGet\<close>)
  next
    case (CPut k v)
    obtain c1 where p: "put k v c = Some c1" "inv c1" "lookup c1 \<subseteq>\<^sub>m (lookup c)(k \<mapsto> v)"
      using put_law [OF Cons.prems(2)] by blast
    obtain rs c' where c': "cache_run get put ops c1 = Some (rs, c')" "inv c'"
      "lookup c' \<subseteq>\<^sub>m puts ops (lookup c1)"
      by (rule Cons.IH [OF _ p(2)])
    have "lookup c' \<subseteq>\<^sub>m puts (op # ops) (lookup c)"
      using map_le_trans [OF c'(3) puts_mono [OF p(3)]] by (simp add: CPut)
    with c' p(1) Cons.prems(1) show ?thesis by (simp add: CPut)
  qed
qed

lemma hit_after_run:
  assumes "inv c" and "cache_run get put ops c = Some (rs, c')" and "get k out c' = Some (True, v, c2)"
  shows "puts ops (lookup c) k = Some v"
proof -
  have c': "inv c' \<and> lookup c' \<subseteq>\<^sub>m puts ops (lookup c)"
    by (rule run_returns [OF assms(1), of ops]) (use assms(2) in simp)
  have "lookup c' k = Some v"
    by (rule get_returns [of c' k out]) (use c' assms(3) in simp_all)
  with c' show ?thesis by (metis domI map_le_def)
qed

end

interpretation lru: response_cache lru_get lru_put lru_inv "\<lambda>c. map_of (entries_of c)"
proof
  fix c k out assume inv: "lru_inv c"
  obtain b v c' where g: "lru_get k out c = Some (b, v, c')" "lru_inv c'"
    "spec_get k (entries_of c) = (if b then Some v else None, entries_of c')" "b \<or> v = out"
    "lc_max_entries c' = lc_max_entries c" "lc_max_bytes c' = lc_max_bytes c"
    "map_of (entries_of c') = map_of (entries_of c)"
    by (rule lru_get_spec [OF inv, of k out])
  have "map_of (entries_of c) k = (if b then Some v else None)"
    using g(3) by (auto simp add: spec_get_def split: option.splits if_splits)
  then have "lru_get k out c =
      Some (case map_of (entries_of c) k of None \<Rightarrow> (False, out, c') | Some v \<Rightarrow> (True, v, c'))"
    using g(1,4) by (cases b) simp_all
  with g(2,7) show "\<exists>c'. lru_inv c' \<and> map_of (entries_of c') = map_of (entries_of c) \<and>
      lru_get k out c = Some (case map_of (entries_of c) k of None \<Rightarrow> (False, out, c') | Some v \<Rightarrow> (True, v, c'))"
    by (intro exI [of _ c'] conjI)
next
  fix c k v assume inv: "lru_inv c"
  show "\<exists>c'. lru_put k v c = Some c' \<and> lru_inv c' \<and>
      map_of (entries_of c') \<subseteq>\<^sub>m (map_of (entries_of c))(k \<mapsto> v)"
    by (rule lru_put_map_le [OF inv, of k v]) (intro exI conjI)
qed


section \<open>Properties\<close>

lemma lru_inv_make_cache: "lru_inv (make_cache cfg)" and entries_of_make_cache: "entries_of (make_cache cfg) = []"
  by (simp_all add: make_cache_def) (simp_all add: new_cache_def entries_of_def)

text \<open>
  C27. A hit is never stale: whatever lookups and insertions ran on a fresh cache, a lookup that hits
  returns the response of the last insertion under that key.
\<close>

theorem cache_hit_is_last_put:
  assumes "cache_run lru_get lru_put ops (make_cache cfg) = Some (rs, c)"
    and "lru_get key out c = Some (True, v, c')"
  shows "puts ops Map.empty key = Some v"
  using lru.hit_after_run [OF lru_inv_make_cache assms] by (simp add: entries_of_make_cache)

abbreviation sample_ops :: "cache_op list" where
  "sample_ops \<equiv> [CPut ''a'' ''1'', CPut ''b'' ''2'', CGet ''a'', CPut ''c'' ''3'', CGet ''b'']"

abbreviation two_entries :: config where
  "two_entries \<equiv> default_config\<lparr>cache_max_entries := 2\<rparr>"

lemma sample_run:
  "map_option fst (cache_run lru_get lru_put sample_ops (make_cache two_entries)) = Some [Some ''1'', None]"
  "Option.bind (cache_run lru_get lru_put sample_ops (make_cache two_entries))
     (\<lambda>(_, c). map_option (\<lambda>(b, v, _). (b, v)) (lru_get ''a'' [] c)) = Some (True, ''1'')"
  by (simp_all add: make_cache_def new_cache_def default_config_def lru_put_def lru_get_def Let_def
      fresh_node_def evict.simps over_limit_def splice_front_def)

theorem cache_hit_is_last_put_witness: "puts sample_ops Map.empty ''a'' = Some ''1''"
proof -
  obtain rs c c' where "cache_run lru_get lru_put sample_ops (make_cache two_entries) = Some (rs, c)"
    "lru_get ''a'' [] c = Some (True, ''1'', c')"
    using sample_run(2) by (auto simp: bind_eq_Some_conv)
  then show ?thesis by (rule cache_hit_is_last_put)
qed

subsection \<open>Refinement of the recency list\<close>

fun spec_run ::
  "size_t \<Rightarrow> size_t \<Rightarrow> cache_op list \<Rightarrow> (string \<times> string) list \<Rightarrow> string option list \<times> (string \<times> string) list" where
  "spec_run me mb [] xs = ([], xs)"
| "spec_run me mb (CGet k # ops) xs =
     (let (r, xs') = spec_get k xs; (rs, ys) = spec_run me mb ops xs' in (r # rs, ys))"
| "spec_run me mb (CPut k v # ops) xs = spec_run me mb ops (spec_put me mb k v xs)"

primrec put_size :: "cache_op \<Rightarrow> nat" where
  "put_size (CGet k) = 0"
| "put_size (CPut k v) = length v"

lemma total_size_prefix: "prefix xs ys \<Longrightarrow> total_size xs \<le> total_size ys"
  by (auto simp: prefix_def)

lemma total_size_delete:
  "total_size (AList.delete k xs) + (case map_of xs k of None \<Rightarrow> 0 | Some v \<Rightarrow> length v) \<le> total_size xs"
  by (induction xs) (auto split: option.splits simp: delete_conv')

lemma total_size_spec_get: "total_size (snd (spec_get k xs)) \<le> total_size xs"
  using total_size_delete [of k xs] by (auto simp: spec_get_def split: option.splits)

lemma total_size_spec_put: "total_size (spec_put me mb k v xs) \<le> total_size xs + length v"
  using total_size_delete [of k xs] total_size_prefix [OF fit_prefix [of me mb "(k, v) # xs"]]
  by (simp add: spec_put_def)

lemma cache_run_refines:
  assumes "lru_inv c" and "total_size (entries_of c) + sum_list (map put_size ops) \<le> ulong_max"
  shows "\<exists>c'. cache_run lru_get lru_put ops c =
      Some (fst (spec_run (lc_max_entries c) (lc_max_bytes c) ops (entries_of c)), c') \<and>
    entries_of c' = snd (spec_run (lc_max_entries c) (lc_max_bytes c) ops (entries_of c)) \<and> lru_inv c'"
  using assms
proof (induction ops arbitrary: c)
  case Nil
  then show ?case by simp
next
  case (Cons op ops)
  show ?case
  proof (cases op)
    case (CGet k)
    obtain b v c1 where g: "lru_get k [] c = Some (b, v, c1)" "lru_inv c1"
      "spec_get k (entries_of c) = (if b then Some v else None, entries_of c1)" "b \<or> v = []"
      "lc_max_entries c1 = lc_max_entries c" "lc_max_bytes c1 = lc_max_bytes c"
      "map_of (entries_of c1) = map_of (entries_of c)"
      by (rule lru_get_spec [OF Cons.prems(1), of k "[]"])
    have "total_size (entries_of c1) \<le> total_size (entries_of c)"
      using total_size_spec_get [of k "entries_of c"] by (simp add: g(3))
    with Cons.IH [OF g(2)] Cons.prems(2) g(1,3,5,6) show ?thesis
      by (fastforce simp: CGet split: prod.splits)
  next
    case (CPut k v)
    have fits: "total_size (entries_of c) + length v \<le> ulong_max"
      using Cons.prems(2) by (simp add: CPut)
    obtain c1 where p: "lru_put k v c = Some c1" "lru_inv c1"
      "entries_of c1 = spec_put (lc_max_entries c) (lc_max_bytes c) k v (entries_of c)"
      "lc_max_entries c1 = lc_max_entries c" "lc_max_bytes c1 = lc_max_bytes c"
      by (rule lru_put_spec [OF Cons.prems(1) fits])
    have "total_size (entries_of c1) \<le> total_size (entries_of c) + length v"
      unfolding p(3) by (rule total_size_spec_put)
    with Cons.IH [OF p(2)] Cons.prems(2) p(1,3,4,5) show ?thesis by (simp add: CPut)
  qed
qed


lemma spec_run_sample:
  "spec_run 2 (cache_max_bytes default_config) sample_ops [] = ([Some ''1'', None], [(''c'', ''3''), (''a'', ''1'')])"
  by (simp add: spec_put_def spec_get_def fit_def within_def total_size_def default_config_def)



subsection \<open>Bounds\<close>

text \<open>
  C28. Inserting a new key leaves the cache within both bounds, evicts from the least recently used
  end only, and keeps the new response whenever it fits the byte bound on its own.
\<close>

theorem insert_within_bounds:
  assumes "lru_inv c" and "total_size (entries_of c) + length r \<le> ulong_max"
    and "k \<notin> fst ` set (entries_of c)"
  shows "\<exists>c'. lru_put k r c = Some c' \<and>
    (lc_max_entries c \<noteq> 0 \<longrightarrow> cache_entries c' \<le> lc_max_entries c) \<and>
    (lc_max_bytes c \<noteq> 0 \<longrightarrow> unat (lc_bytes c') \<le> lc_max_bytes c) \<and>
    prefix (entries_of c') ((k, r) # entries_of c) \<and>
    (lc_max_bytes c = 0 \<or> length r \<le> lc_max_bytes c \<longrightarrow> map_of (entries_of c') k = Some r)"
proof -
  obtain c' where p: "lru_put k r c = Some c'" "lru_inv c'"
    "entries_of c' = spec_put (lc_max_entries c) (lc_max_bytes c) k r (entries_of c)"
    "lc_max_entries c' = lc_max_entries c" "lc_max_bytes c' = lc_max_bytes c"
    by (rule lru_put_spec [OF assms(1,2)])
  have e: "entries_of c' = fit (lc_max_entries c) (lc_max_bytes c) ((k, r) # entries_of c)"
    using p(3) assms(3) by (simp add: spec_put_def)
  have pre: "prefix (entries_of c') ((k, r) # entries_of c)" unfolding e by (rule fit_prefix)
  have w: "within (lc_max_entries c) (lc_max_bytes c) (entries_of c')" unfolding e by (rule fit_within)
  have t: "total_size (entries_of c') \<le> ulong_max"
    using total_size_prefix [OF pre] assms(2) by simp
  have b: "unat (lc_bytes c') = total_size (entries_of c')"
    using p(2) t by (simp add: lru_inv_def unat_of_nat ulong_max_def)
  have "map_of (entries_of c') k = Some r" if "lc_max_bytes c = 0 \<or> length r \<le> lc_max_bytes c"
  proof -
    have "[(k, r)] \<in> set (filter (within (lc_max_entries c) (lc_max_bytes c)) (prefixes ((k, r) # entries_of c)))"
      using that by (auto simp: within_def)
    then have "entries_of c' \<noteq> []" unfolding e by (rule fit_not_Nil)
    with pre show ?thesis by (cases "entries_of c'") auto
  qed
  with p(1) w b pre show ?thesis by (auto simp: within_def cache_entries_def length_index [OF p(2)])
qed

theorem insert_within_bounds_witness:
  "\<exists>c'. lru_put ''k'' ''abc'' (new_cache StdMutex 1 8) = Some c' \<and> cache_entries c' \<le> 1 \<and>
     unat (lc_bytes c') \<le> 8 \<and> map_of (entries_of c') ''k'' = Some ''abc''"
  using insert_within_bounds [of "new_cache StdMutex 1 8" "''abc''" "''k''"]
  by (simp add: new_cache_def entries_of_def ulong_max_def lru_inv_new [unfolded new_cache_def]) blast

text \<open>
  Replacing the response of a stored key runs no eviction, so the byte bound does not hold of the
  cache as a whole.
\<close>

lemma replace_exceeds_byte_bound:
  "map_option (\<lambda>(_, c). unat (lc_bytes c) > lc_max_bytes c)
     (cache_run lru_get lru_put [CPut ''a'' ''1'', CPut ''a'' ''123''] (new_cache StdMutex 8 2)) = Some True"
  by (simp add: new_cache_def lru_put_def Let_def fresh_node_def evict.simps over_limit_def splice_front_def
      assign_response_def)


subsection \<open>Recently used keys stay\<close>

primrec op_key :: "cache_op \<Rightarrow> string" where
  "op_key (CGet k) = k"
| "op_key (CPut k v) = k"

definition kept :: "string \<Rightarrow> string \<Rightarrow> string set \<Rightarrow> (string \<times> string) list \<Rightarrow> bool" where
  "kept k v S xs \<longleftrightarrow>
     (\<exists>ys zs. xs = ys @ (k, v) # zs \<and> fst ` set ys \<subseteq> S \<and> distinct (map fst ys) \<and> k \<notin> fst ` set ys)"

lemma kept_front:
  assumes "kept k v S xs" and "j \<in> S" and "j \<noteq> k"
  shows "kept k v S ((j, w) # AList.delete j xs)"
proof -
  obtain ys zs where xs: "xs = ys @ (k, v) # zs" "fst ` set ys \<subseteq> S" "distinct (map fst ys)" "k \<notin> fst ` set ys"
    using assms(1) by (auto simp: kept_def)
  have "(j, w) # AList.delete j xs = ((j, w) # AList.delete j ys) @ (k, v) # AList.delete j zs"
    using assms(3) by (simp add: xs(1) AList.delete_eq)
  moreover have "fst ` set (AList.delete j ys) = fst ` set ys - {j}"
    by (auto simp: AList.delete_eq image_iff)
  ultimately show ?thesis
    using xs(2-4) assms(2,3) unfolding kept_def
    by (intro exI [of _ "(j, w) # AList.delete j ys"] exI [of _ "AList.delete j zs"])
       (auto simp: distinct_delete)
qed

text \<open>There is room for \<open>n\<close> other responses of at most \<open>B\<close> bytes.\<close>

definition room :: "size_t \<Rightarrow> size_t \<Rightarrow> nat \<Rightarrow> nat \<Rightarrow> bool" where
  "room me mb B n \<longleftrightarrow> (me = 0 \<or> n < me) \<and> (mb = 0 \<or> (n + 1) * B \<le> mb)"

definition small :: "nat \<Rightarrow> (string \<times> string) list \<Rightarrow> bool" where
  "small B xs \<longleftrightarrow> (\<forall>x\<in>set xs. length (snd x) \<le> B)"

lemma small_total: "small B xs \<Longrightarrow> total_size xs \<le> length xs * B"
  by (induction xs) (auto simp: small_def)

lemma small_prefix: "small B ys \<Longrightarrow> prefix xs ys \<Longrightarrow> small B xs"
  by (meson set_mono_prefix small_def subsetD)

lemma small_spec_get: "small B xs \<Longrightarrow> small B (snd (spec_get j xs))"
  by (auto simp: small_def spec_get_def AList.delete_eq split: option.split dest!: map_of_SomeD)

lemma small_spec_put:
  assumes "small B xs" and "length w \<le> B"
  shows "small B (spec_put me mb j w xs)"
proof -
  have "small B ((j, w) # xs)" using assms by (simp add: small_def)
  then have "small B (fit me mb ((j, w) # xs))" by (rule small_prefix [OF _ fit_prefix])
  then show ?thesis using assms by (auto simp: spec_put_def small_def AList.delete_eq)
qed

lemma small_run: "small B xs \<Longrightarrow> \<forall>op\<in>set ops. put_size op \<le> B \<Longrightarrow> small B (snd (spec_run me mb ops xs))"
proof (induction ops arbitrary: xs)
  case (Cons op ops)
  then show ?case by (cases op) (simp_all add: case_prod_unfold Let_def small_spec_get small_spec_put)
qed simp

lemma kept_fit:
  assumes "kept k v S ((j, w) # xs)" and "finite S" and "room me mb B (card S)" and "small B ((j, w) # xs)"
  shows "kept k v S (fit me mb ((j, w) # xs))"
proof -
  let ?l = "(j, w) # xs"
  obtain ys zs where l: "?l = ys @ (k, v) # zs" "fst ` set ys \<subseteq> S" "distinct (map fst ys)" "k \<notin> fst ` set ys"
    using assms(1) by (auto simp: kept_def)
  have pre: "prefix (ys @ [(k, v)]) ?l" unfolding l(1) by simp
  have "length ys = card (fst ` set ys)" using distinct_card [OF l(3)] by simp
  also have "\<dots> \<le> card S" by (rule card_mono [OF assms(2) l(2)])
  finally have n: "length (ys @ [(k, v)]) \<le> card S + 1" by simp
  have "total_size (ys @ [(k, v)]) \<le> length (ys @ [(k, v)]) * B" by (rule small_total [OF small_prefix [OF assms(4) pre]])
  also have "\<dots> \<le> (card S + 1) * B" using n by (rule mult_le_mono1)
  finally have "within me mb (ys @ [(k, v)])" using assms(3) n unfolding room_def within_def by linarith
  then have "ys @ [(k, v)] \<in> set (filter (within me mb) (prefixes ?l))"
    unfolding set_filter set_prefixes_eq using pre by blast
  from last_prefixes_longest [OF this] have "length (ys @ [(k, v)]) \<le> length (fit me mb ?l)"
    by (simp only: fit_def)
  then have "prefix (ys @ [(k, v)]) (fit me mb ?l)"
    by (rule prefix_length_prefix [OF pre fit_prefix])
  then obtain us where "fit me mb ?l = ys @ (k, v) # us" by (auto simp: prefix_def)
  with l(2-4) show ?thesis unfolding kept_def by blast
qed

lemma kept_run:
  assumes "finite S" and "room me mb B (card S)" and "k \<notin> S"
  shows "kept k v S xs \<Longrightarrow> small B xs \<Longrightarrow> op_key ` set ops \<subseteq> S \<Longrightarrow> \<forall>op\<in>set ops. put_size op \<le> B \<Longrightarrow>
    kept k v S (snd (spec_run me mb ops xs))"
proof (induction ops arbitrary: xs)
  case Nil
  then show ?case by simp
next
  case (Cons op ops)
  have key: "op_key op \<in> S" "op_key op \<noteq> k" using Cons.prems(3) assms(3) by auto
  note front = kept_front [OF Cons.prems(1) key]
  show ?case
  proof (cases op)
    case (CGet j)
    have "kept k v S (snd (spec_get j xs))"
      using front Cons.prems(1) by (simp add: CGet spec_get_def split: option.split)
    with Cons small_spec_get show ?thesis by (simp add: CGet case_prod_unfold Let_def)
  next
    case (CPut j w)
    have w: "length w \<le> B" using Cons.prems(4) by (simp add: CPut)
    have "kept k v S (spec_put me mb j w xs)"
    proof (cases "j \<in> fst ` set xs")
      case True
      then show ?thesis using front by (simp add: CPut spec_put_def)
    next
      case False
      then have "kept k v S ((j, w) # xs)" using front [of w] by (simp add: CPut)
      then show ?thesis using kept_fit [OF _ assms(1,2)] False w Cons.prems(2) by (simp add: spec_put_def small_def)
    qed
    with Cons small_spec_put [OF Cons.prems(2) w] show ?thesis by (simp add: CPut)
  qed
qed

lemma spec_run_append: "snd (spec_run me mb (ops1 @ ops2) xs) = snd (spec_run me mb ops2 (snd (spec_run me mb ops1 xs)))"
proof (induction ops1 arbitrary: xs)
  case (Cons op ops1)
  then show ?case by (cases op) (simp_all add: case_prod_unfold Let_def)
qed simp

lemma kept_put:
  assumes "room me mb B 0" and "small B xs" and "length v \<le> B"
  shows "kept k v {} (spec_put me mb k v xs)"
proof (cases "k \<in> fst ` set xs")
  case True
  then show ?thesis by (auto simp: spec_put_def kept_def)
next
  case False
  have "kept k v {} ((k, v) # xs)" by (auto simp: kept_def)
  then show ?thesis using False assms by (auto simp: spec_put_def small_def intro!: kept_fit [of _ _ _ _ _ _ _ _ B])
qed

text \<open>
  C29. Recency: when no stored response is longer than \<open>B\<close> bytes, a response stays in the cache as long
  as the distinct other keys used since it was stored are fewer than \<^verbatim>\<open>cache_max_entries\<close> (if that bound
  is on) and they and it, at \<open>B\<close> bytes each, are within \<^verbatim>\<open>cache_max_bytes\<close> (if that bound is on),
  whatever happened before.
\<close>

theorem recently_stored_retained:
  assumes "cache_max_entries cfg = 0 \<or> card (op_key ` set ops) < cache_max_entries cfg"
    and "cache_max_bytes cfg = 0 \<or> (card (op_key ` set ops) + 1) * B \<le> cache_max_bytes cfg"
    and "\<forall>op\<in>set (before @ CPut k v # ops). put_size op \<le> B"
    and "k \<notin> op_key ` set ops" and "sum_list (map put_size (before @ CPut k v # ops)) \<le> ulong_max"
  shows "\<exists>rs c c'. cache_run lru_get lru_put (before @ CPut k v # ops) (make_cache cfg) = Some (rs, c) \<and>
    lru_get k out c = Some (True, v, c')"
proof -
  let ?me = "cache_max_entries cfg" and ?mb = "cache_max_bytes cfg" and ?ops = "before @ CPut k v # ops"
  let ?S = "op_key ` set ops" and ?xs = "snd (spec_run (cache_max_entries cfg) (cache_max_bytes cfg) before [])"
  have lim: "lc_max_entries (make_cache cfg) = ?me" "lc_max_bytes (make_cache cfg) = ?mb"
    by (simp_all add: make_cache_def new_cache_def)
  obtain rs c where c: "cache_run lru_get lru_put ?ops (make_cache cfg) = Some (rs, c)"
    "entries_of c = snd (spec_run ?me ?mb ?ops [])" "lru_inv c"
    using cache_run_refines [OF lru_inv_make_cache, of cfg ?ops] assms(5)
    by (auto simp: lim entries_of_make_cache)
  have room: "room ?me ?mb B (card ?S)" using assms(1,2) by (simp add: room_def)
  then have "room ?me ?mb B 0" by (auto simp: room_def)
  moreover have small: "small B ?xs" by (rule small_run) (use assms(3) in \<open>auto simp: small_def\<close>)
  ultimately have "kept k v {} (spec_put ?me ?mb k v ?xs)" using assms(3) by (intro kept_put [of _ _ B]) auto
  then have "kept k v ?S (spec_put ?me ?mb k v ?xs)" unfolding kept_def by blast
  moreover have "small B (spec_put ?me ?mb k v ?xs)" using assms(3) by (intro small_spec_put [OF small]) auto
  ultimately have "kept k v ?S (entries_of c)"
    using kept_run [OF _ room assms(4)] assms(3) by (simp add: c(2) spec_run_append)
  then have "map_of (entries_of c) k = Some v" by (auto simp: kept_def map_add_Some_iff map_of_eq_None_iff)
  from lru_get_hit [OF c(3) this, of out] c(1) show ?thesis by blast
qed

theorem recently_stored_retained_witness:
  "\<exists>rs c c'. cache_run lru_get lru_put ([CGet ''x''] @ CPut ''k'' ''v'' # [CPut ''a'' ''1'', CPut ''a'' ''2''])
       (make_cache (default_config\<lparr>cache_max_entries := 2, cache_max_bytes := 5\<rparr>)) = Some (rs, c) \<and>
     lru_get ''k'' [] c = Some (True, ''v'', c')"
  by (rule recently_stored_retained [of _ _ 2]) (simp_all add: ulong_max_def)


subsection \<open>The cache key\<close>

text \<open>
  C30. Requests that the parser accepts share a cache key only when they agree on method, host, port
  and path.
\<close>

theorem cache_key_injective:
  assumes "parse_request buf1 init_request = Some (Ok, r1)" and "parse_request buf2 init_request = Some (Ok, r2)"
    and "cache_key (rq_method r1) (rq_host r1) (rq_port r1) (rq_path r1) =
         cache_key (rq_method r2) (rq_host r2) (rq_port r2) (rq_path r2)"
  shows "rq_method r1 = rq_method r2 \<and> rq_host r1 = rq_host r2 \<and> rq_port r1 = rq_port r2 \<and> rq_path r1 = rq_path r2"
proof -
  have wf: "wf_request r1" "wf_request r2" using parse_request_Ok_facts assms(1,2) by blast+
  have split_at: "a = b \<and> u = v" if "a @ x # u = b @ x # v" "x \<notin> set a" "x \<notin> set b"
    for a b u v :: string and x
    using that by (induction a arbitrary: b) (case_tac b; auto)+
  define t where "t r = rq_host r @ '':'' @ rq_port r @ rq_path r" for r :: request
  have m: "CHR '' '' \<notin> set (rq_method r)" if "wf_request r" for r using that by (auto simp: wf_request_def)
  have "rq_method r1 @ CHR '' '' # t r1 = rq_method r2 @ CHR '' '' # t r2"
    using assms(3) by (simp add: cache_key_def t_def)
  from split_at [OF this m [OF wf(1)] m [OF wf(2)]]
  have meth: "rq_method r1 = rq_method r2" and t: "t r1 = t r2" by auto
  have slash: "\<exists>p. rq_path r = CHR ''/'' # p" "CHR ''/'' \<notin> set (rq_host r @ '':'' @ rq_port r)"
    "CHR '':'' \<notin> set (rq_port r)" if "wf_request r" for r
  proof -
    have d: "\<forall>c\<in>set (rq_port r). is_digit c" using that by (simp add: wf_request_def)
    show "\<exists>p. rq_path r = CHR ''/'' # p"
      using that by (cases "rq_path r") (simp_all add: wf_request_def)
    show "CHR ''/'' \<notin> set (rq_host r @ '':'' @ rq_port r)" and "CHR '':'' \<notin> set (rq_port r)"
      using that digits_notin [OF d] by (simp_all add: wf_request_def)
  qed
  obtain p1 p2 where p: "rq_path r1 = CHR ''/'' # p1" "rq_path r2 = CHR ''/'' # p2"
    using slash(1) wf by blast
  have "(rq_host r1 @ '':'' @ rq_port r1) @ CHR ''/'' # p1 = (rq_host r2 @ '':'' @ rq_port r2) @ CHR ''/'' # p2"
    using t by (simp add: t_def p)
  from split_at [OF this slash(2) [OF wf(1)] slash(2) [OF wf(2)]]
  have path: "p1 = p2" and auth: "rq_host r1 @ '':'' @ rq_port r1 = rq_host r2 @ '':'' @ rq_port r2" by auto
  have "rev (rq_port r1) @ CHR '':'' # rev (rq_host r1) = rev (rq_port r2) @ CHR '':'' # rev (rq_host r2)"
    using arg_cong [OF auth, of rev] by simp
  from split_at [OF this] slash(3) wf have "rq_port r1 = rq_port r2 \<and> rq_host r1 = rq_host r2" by simp
  with meth path p show ?thesis by simp
qed

theorem cache_key_injective_witness:
  "parse_request sample_request init_request = Some (Ok, sample_parsed) \<and>
   cache_key ''GET'' ''h'' ''81'' ''/p'' = cache_key (rq_method sample_parsed) (rq_host sample_parsed)
     (rq_port sample_parsed) (rq_path sample_parsed) \<and> rq_host sample_parsed = ''h''"
  using parse_sample cache_key_injective [OF parse_sample parse_sample refl] by (simp add: sample_parsed_def)

end
