(* ===== verification/Socket.thy ===== *)
theory Socket
  imports Prelude
begin

text \<open>
  Model of \<^verbatim>\<open>src/src/socket.hpp\<close> and \<^verbatim>\<open>src/src/socket.cpp\<close>. The kernel and the C library are not part
  of the program: they are a parameter \<open>os\<close>, a record with one function per call, which answers from
  the history of all calls made so far and the arguments of the call. Every call is recorded in the
  history (newest first) with its answer, so that what the program did to the outside world can be
  read off: the descriptors that are open, the bytes that went through each of them, the
  descriptors a kqueue watches.
\<close>

section \<open>The operating system\<close>

datatype errno = EINTR | EAGAIN | EMFILE | ENFILE | EINPROGRESS | EPIPE | ENOENT | EOTHER int

datatype sockopt = SO_REUSEADDR | SO_REUSEPORT | SO_NOSIGPIPE

text \<open>What a kqueue registration carries (\<^verbatim>\<open>udata\<close>): the tag of a shard's inbox, the null pointer of
  the listener, or the address of a connection.\<close>

datatype udata = INBOX_TAG | NullPtr | ConnPtr nat

record addrinfo =
  ai_family :: int
  ai_socktype :: int
  ai_protocol :: int
  ai_addr :: string

record rlimit =
  rlim_cur :: uint64
  rlim_max :: uint64

datatype event =
    EvSocket int int int "errno + fd"
  | EvClose fd
  | EvPipe "errno + fd \<times> fd"
  | EvAccept fd "errno + fd"
  | EvKqueue "errno + fd"
  | EvFcntlGetFl fd "errno + int"
  | EvFcntlSetFl fd int "errno option"
  | EvFcntlGetFd fd bool
  | EvSetsockopt fd sockopt "errno option"
  | EvSoError fd "errno + int"
  | EvBind fd string "errno option"
  | EvListen fd int "errno option"
  | EvConnect fd string "errno option"
  | EvRecv fd size_t "errno + string"
  | EvSend fd string "errno + size_t"
  | EvRead fd size_t "errno + string"
  | EvWrite fd string "errno + size_t"
  | EvPoll fd bool int "errno + int"
  | EvGetaddrinfo "string option" string bool "int + addrinfo list"
  | EvGetrlimit "errno + rlimit"
  | EvSetrlimit rlimit "errno option"
  | EvClock int
  | EvSleep int
  | EvKevAdd fd fd bool udata "errno option"
  | EvKevDelete fd fd bool "errno option"
  | EvKevent fd "errno + udata list"

type_synonym trace = "event list"

record os =
  os_socket :: "trace \<Rightarrow> int \<Rightarrow> int \<Rightarrow> int \<Rightarrow> errno + fd"
  os_pipe :: "trace \<Rightarrow> errno + fd \<times> fd"
  os_accept :: "trace \<Rightarrow> fd \<Rightarrow> errno + fd"
  os_kqueue :: "trace \<Rightarrow> errno + fd"
  os_getfl :: "trace \<Rightarrow> fd \<Rightarrow> errno + int"
  os_setfl :: "trace \<Rightarrow> fd \<Rightarrow> int \<Rightarrow> errno option"
  os_getfd :: "trace \<Rightarrow> fd \<Rightarrow> bool"
  os_setsockopt :: "trace \<Rightarrow> fd \<Rightarrow> sockopt \<Rightarrow> errno option"
  os_so_error :: "trace \<Rightarrow> fd \<Rightarrow> errno + int"
  os_bind :: "trace \<Rightarrow> fd \<Rightarrow> string \<Rightarrow> errno option"
  os_listen :: "trace \<Rightarrow> fd \<Rightarrow> int \<Rightarrow> errno option"
  os_connect :: "trace \<Rightarrow> fd \<Rightarrow> string \<Rightarrow> errno option"
  os_recv :: "trace \<Rightarrow> fd \<Rightarrow> size_t \<Rightarrow> errno + string"
  os_send :: "trace \<Rightarrow> fd \<Rightarrow> string \<Rightarrow> errno + size_t"
  os_read :: "trace \<Rightarrow> fd \<Rightarrow> size_t \<Rightarrow> errno + string"
  os_write :: "trace \<Rightarrow> fd \<Rightarrow> string \<Rightarrow> errno + size_t"
  os_poll :: "trace \<Rightarrow> fd \<Rightarrow> bool \<Rightarrow> int \<Rightarrow> errno + int"
  os_getaddrinfo :: "trace \<Rightarrow> string option \<Rightarrow> string \<Rightarrow> bool \<Rightarrow> int + addrinfo list"
  os_getrlimit :: "trace \<Rightarrow> errno + rlimit"
  os_setrlimit :: "trace \<Rightarrow> rlimit \<Rightarrow> errno option"
  os_rlim_infinity :: uint64
  os_o_nonblock :: int
  os_clock :: "trace \<Rightarrow> int"
  os_kev_add :: "trace \<Rightarrow> fd \<Rightarrow> fd \<Rightarrow> bool \<Rightarrow> udata \<Rightarrow> errno option"
  os_kev_delete :: "trace \<Rightarrow> fd \<Rightarrow> fd \<Rightarrow> bool \<Rightarrow> errno option"
  os_kevent :: "trace \<Rightarrow> fd \<Rightarrow> errno + udata list"
  os_strerror :: "errno \<Rightarrow> string"
  os_strerror_code :: "int \<Rightarrow> string"
  os_gai_strerror :: "int \<Rightarrow> string"

text \<open>\<^verbatim>\<open>errno\<close> is what the last failed call left there.\<close>

fun event_errno :: "event \<Rightarrow> errno option" where
  "event_errno (EvSocket _ _ _ (Inl e)) = Some e"
| "event_errno (EvPipe (Inl e)) = Some e"
| "event_errno (EvAccept _ (Inl e)) = Some e"
| "event_errno (EvKqueue (Inl e)) = Some e"
| "event_errno (EvFcntlGetFl _ (Inl e)) = Some e"
| "event_errno (EvFcntlSetFl _ _ r) = r"
| "event_errno (EvSetsockopt _ _ r) = r"
| "event_errno (EvSoError _ (Inl e)) = Some e"
| "event_errno (EvBind _ _ r) = r"
| "event_errno (EvListen _ _ r) = r"
| "event_errno (EvConnect _ _ r) = r"
| "event_errno (EvRecv _ _ (Inl e)) = Some e"
| "event_errno (EvSend _ _ (Inl e)) = Some e"
| "event_errno (EvRead _ _ (Inl e)) = Some e"
| "event_errno (EvWrite _ _ (Inl e)) = Some e"
| "event_errno (EvPoll _ _ _ (Inl e)) = Some e"
| "event_errno (EvGetrlimit (Inl e)) = Some e"
| "event_errno (EvSetrlimit _ r) = r"
| "event_errno (EvKevAdd _ _ _ _ r) = r"
| "event_errno (EvKevDelete _ _ _ r) = r"
| "event_errno (EvKevent _ (Inl e)) = Some e"
| "event_errno _ = None"

fun last_errno :: "trace \<Rightarrow> errno" where
  "last_errno [] = EOTHER 0"
| "last_errno (ev # t) = (case event_errno ev of Some e \<Rightarrow> e | None \<Rightarrow> last_errno t)"


section \<open>What the history says\<close>

text \<open>The descriptors an event opens and the one it closes.\<close>

fun opened_by :: "event \<Rightarrow> fd list" where
  "opened_by (EvSocket _ _ _ (Inr fd)) = [fd]"
| "opened_by (EvPipe (Inr (r, w))) = [r, w]"
| "opened_by (EvAccept _ (Inr fd)) = [fd]"
| "opened_by (EvKqueue (Inr fd)) = [fd]"
| "opened_by _ = []"

fun closed_by :: "event \<Rightarrow> fd option" where
  "closed_by (EvClose fd) = Some fd"
| "closed_by _ = None"

fun open_fds :: "trace \<Rightarrow> fd set" where
  "open_fds [] = {}"
| "open_fds (ev # t) = (open_fds t - set_option (closed_by ev)) \<union> set (opened_by ev)"

text \<open>Bytes that the process handed to a socket, and bytes it got from one, oldest first. A
  descriptor number that is opened anew starts afresh.\<close>

fun sent_bytes :: "fd \<Rightarrow> trace \<Rightarrow> string" where
  "sent_bytes fd [] = []"
| "sent_bytes fd (ev # t) =
     (if fd \<in> set (opened_by ev) then []
      else case ev of
        EvSend fd' bs (Inr n) \<Rightarrow> if fd' = fd then sent_bytes fd t @ take n bs else sent_bytes fd t
      | _ \<Rightarrow> sent_bytes fd t)"

fun received_bytes :: "fd \<Rightarrow> trace \<Rightarrow> string" where
  "received_bytes fd [] = []"
| "received_bytes fd (ev # t) =
     (if fd \<in> set (opened_by ev) then []
      else case ev of
        EvRecv fd' len (Inr bs) \<Rightarrow> if fd' = fd then received_bytes fd t @ bs else received_bytes fd t
      | _ \<Rightarrow> received_bytes fd t)"

text \<open>
  The registrations of a kqueue: \<^verbatim>\<open>EV_ADD\<close> installs or replaces the registration of a descriptor and
  filter, \<^verbatim>\<open>EV_DELETE\<close> removes it, closing a descriptor removes both of its registrations, and a new
  kqueue has none.
\<close>

fun registered :: "fd \<Rightarrow> trace \<Rightarrow> fd \<times> bool \<Rightarrow> udata option" where
  "registered kq [] = Map.empty"
| "registered kq (ev # t) =
     (case ev of
        EvKevAdd k fd w u None \<Rightarrow> if k = kq then (registered kq t)((fd, w) \<mapsto> u) else registered kq t
      | EvKevDelete k fd w _ \<Rightarrow> if k = kq then (registered kq t)((fd, w) := None) else registered kq t
      | EvClose fd \<Rightarrow> (registered kq t)((fd, True) := None, (fd, False) := None)
      | EvKqueue (Inr k) \<Rightarrow> if k = kq then Map.empty else registered kq t
      | _ \<Rightarrow> registered kq t)"


section \<open>Hypotheses on the operating system\<close>

text \<open>
  Documented behaviour the program relies on: calls that create descriptors return descriptors that
  are not open, \<^verbatim>\<open>recv\<close> and \<^verbatim>\<open>read\<close> return at most as many bytes as asked for and \<^verbatim>\<open>send\<close> takes at most
  as many as offered.
\<close>

definition fresh_descriptors :: "os \<Rightarrow> bool" where
  "fresh_descriptors os \<longleftrightarrow>
     (\<forall>t a b c fd. os_socket os t a b c = Inr fd \<longrightarrow> 0 \<le> fd \<and> fd \<notin> open_fds t) \<and>
     (\<forall>t r w. os_pipe os t = Inr (r, w) \<longrightarrow> 0 \<le> r \<and> 0 \<le> w \<and> r \<noteq> w \<and> r \<notin> open_fds t \<and> w \<notin> open_fds t) \<and>
     (\<forall>t l fd. os_accept os t l = Inr fd \<longrightarrow> 0 \<le> fd \<and> fd \<notin> open_fds t) \<and>
     (\<forall>t fd. os_kqueue os t = Inr fd \<longrightarrow> 0 \<le> fd \<and> fd \<notin> open_fds t)"

definition bounded_io :: "os \<Rightarrow> bool" where
  "bounded_io os \<longleftrightarrow>
     (\<forall>t fd len bs. os_recv os t fd len = Inr bs \<longrightarrow> length bs \<le> len) \<and>
     (\<forall>t fd bs n. os_send os t fd bs = Inr n \<longrightarrow> n \<le> length bs)"

text \<open>No call is interrupted by signals for ever: after some number of retries the answer is not
  \<^verbatim>\<open>EINTR\<close>.\<close>

definition finite_interrupts :: "os \<Rightarrow> bool" where
  "finite_interrupts os \<longleftrightarrow>
     (\<forall>t fd len. \<exists>n. os_recv os (replicate n (EvRecv fd len (Inl EINTR)) @ t) fd len \<noteq> Inl EINTR) \<and>
     (\<forall>t fd bs. \<exists>n. os_send os (replicate n (EvSend fd bs (Inl EINTR)) @ t) fd bs \<noteq> Inl EINTR) \<and>
     (\<forall>t fd. \<exists>n. os_accept os (replicate n (EvAccept fd (Inl EINTR)) @ t) fd \<noteq> Inl EINTR) \<and>
     (\<forall>t fd w ms. \<exists>n. os_poll os (replicate n (EvPoll fd w ms (Inl EINTR)) @ t) fd w ms \<noteq> Inl EINTR)"


section \<open>Descriptors\<close>

text \<open>
  \<^verbatim>\<open>class Fd\<close> is the number it owns; \<^verbatim>\<open>reset\<close> closes the old one, the destructor is \<^verbatim>\<open>reset()\<close>, and a
  move leaves \<open>-1\<close> behind.
\<close>

definition fd_valid :: "fd \<Rightarrow> bool" where
  "fd_valid fd \<longleftrightarrow> 0 \<le> fd"

definition fd_reset :: "fd \<Rightarrow> fd \<Rightarrow> trace \<Rightarrow> fd \<times> trace" where
  "fd_reset old new t = (new, if 0 \<le> old then EvClose old # t else t)"

definition fd_destroy :: "fd \<Rightarrow> trace \<Rightarrow> trace" where
  "fd_destroy fd t = snd (fd_reset fd (-1) t)"

definition fd_release :: "fd \<Rightarrow> fd \<times> fd" where
  "fd_release fd = (fd, -1)"

definition set_nonblocking :: "os \<Rightarrow> fd \<Rightarrow> trace \<Rightarrow> bool \<times> trace" where
  "set_nonblocking os fd t =
     (let r = os_getfl os t fd; t1 = EvFcntlGetFl fd r # t in
      case r of
        Inl _ \<Rightarrow> (False, t1)
      | Inr flags \<Rightarrow>
          let v = or flags (os_o_nonblock os); r2 = os_setfl os t1 fd v in
          (r2 = None, EvFcntlSetFl fd v r2 # t1))"

definition make_pipe :: "os \<Rightarrow> fd \<Rightarrow> fd \<Rightarrow> trace \<Rightarrow> bool \<times> fd \<times> fd \<times> trace" where
  "make_pipe os read_end write_end t =
     (let r = os_pipe os t; t1 = EvPipe r # t in
      case r of
        Inl _ \<Rightarrow> (False, read_end, write_end, t1)
      | Inr (a, b) \<Rightarrow>
          let (re, t2) = fd_reset read_end a t1;
              (we, t3) = fd_reset write_end b t2;
              (ok, t4) = set_nonblocking os re t3
          in (ok, re, we, t4))"


section \<open>Input and output\<close>

datatype io_status = IoOk | IoWouldBlock | IoClosed | IoError

partial_function (option) read_some :: "os \<Rightarrow> fd \<Rightarrow> size_t \<Rightarrow> trace \<Rightarrow> ((io_status \<times> string) \<times> trace) option" where
  "read_some os fd len t =
     (let r = os_recv os t fd len; t1 = EvRecv fd len r # t in
      case r of
        Inr bs \<Rightarrow> if bs \<noteq> [] then Some ((IoOk, bs), t1) else Some ((IoClosed, []), t1)
      | Inl e \<Rightarrow>
          if e = EINTR then read_some os fd len t1
          else if e = EAGAIN then Some ((IoWouldBlock, []), t1)
          else Some ((IoError, []), t1))"

partial_function (option) write_some :: "os \<Rightarrow> fd \<Rightarrow> string \<Rightarrow> trace \<Rightarrow> ((io_status \<times> size_t) \<times> trace) option" where
  "write_some os fd bs t =
     (let r = os_send os t fd bs; t1 = EvSend fd bs r # t in
      case r of
        Inr n \<Rightarrow> Some ((IoOk, n), t1)
      | Inl e \<Rightarrow>
          if e = EINTR then write_some os fd bs t1
          else if e = EAGAIN then Some ((IoWouldBlock, 0), t1)
          else Some ((IoError, 0), t1))"

definition suppress_sigpipe :: "os \<Rightarrow> fd \<Rightarrow> trace \<Rightarrow> trace" where
  "suppress_sigpipe os fd t = EvSetsockopt fd SO_NOSIGPIPE (os_setsockopt os t fd SO_NOSIGPIPE) # t"

datatype accept_status = AcceptOk | AcceptWouldBlock | OutOfFds | AcceptError

partial_function (option) accept_one :: "os \<Rightarrow> fd \<Rightarrow> trace \<Rightarrow> ((accept_status \<times> fd) \<times> trace) option" where
  "accept_one os listener t =
     (let r = os_accept os t listener; t1 = EvAccept listener r # t in
      case r of
        Inr fd \<Rightarrow> Some ((AcceptOk, fd), suppress_sigpipe os fd t1)
      | Inl e \<Rightarrow>
          if e = EINTR then accept_one os listener t1
          else if e = EAGAIN then Some ((AcceptWouldBlock, -1), t1)
          else if e = EMFILE \<or> e = ENFILE then Some ((OutOfFds, -1), t1)
          else Some ((AcceptError, -1), t1))"

partial_function (option) wait_ready :: "os \<Rightarrow> fd \<Rightarrow> bool \<Rightarrow> int \<Rightarrow> trace \<Rightarrow> (bool \<times> trace) option" where
  "wait_ready os fd for_write timeout_ms t =
     (let r = os_poll os t fd for_write timeout_ms; t1 = EvPoll fd for_write timeout_ms r # t in
      case r of
        Inr rc \<Rightarrow> if rc > 0 then Some (True, t1) else Some (False, t1)
      | Inl e \<Rightarrow> if e = EINTR then wait_ready os fd for_write timeout_ms t1 else Some (False, t1))"


section \<open>Listening, resolving, connecting\<close>

record endpoint =
  ep_addr :: string
  ep_len :: size_t
  ep_family :: int
  ep_socktype :: int
  ep_protocol :: int

fun listen_loop :: "os \<Rightarrow> int \<Rightarrow> bool \<Rightarrow> addrinfo list \<Rightarrow> string \<Rightarrow> trace \<Rightarrow> fd \<times> string \<times> trace" where
  "listen_loop os backlog reuseport [] err t = (-1, err, t)"
| "listen_loop os backlog reuseport (p # ps) err t =
     (let r = os_socket os t (ai_family p) (ai_socktype p) (ai_protocol p);
          t1 = EvSocket (ai_family p) (ai_socktype p) (ai_protocol p) r # t in
      case r of
        Inl _ \<Rightarrow> listen_loop os backlog reuseport ps err t1
      | Inr fd \<Rightarrow>
          let t2 = EvSetsockopt fd SO_REUSEADDR (os_setsockopt os t1 fd SO_REUSEADDR) # t1;
              t3 = (if reuseport then EvSetsockopt fd SO_REUSEPORT (os_setsockopt os t2 fd SO_REUSEPORT) # t2 else t2);
              t4 = suppress_sigpipe os fd t3;
              b = os_bind os t4 fd (ai_addr p);
              t5 = EvBind fd (ai_addr p) b # t4;
              l = os_listen os t5 fd backlog;
              t6 = (if b = None then EvListen fd backlog l # t5 else t5)
          in if b = None \<and> l = None then (fd, err, t6)
             else listen_loop os backlog reuseport ps
                    (''bind/listen: '' @ os_strerror os (last_errno t6)) (fd_destroy fd t6))"

definition c_str :: "string \<Rightarrow> string" where
  "c_str s = takeWhile (\<lambda>c. c \<noteq> CHR 0x00) s"

definition listen_on :: "os \<Rightarrow> string \<Rightarrow> int \<Rightarrow> int \<Rightarrow> string \<Rightarrow> bool \<Rightarrow> trace \<Rightarrow> fd \<times> string \<times> trace" where
  "listen_on os host port backlog err reuseport t =
     (let node = (if host = [] then None else Some (c_str host));
          r = os_getaddrinfo os t node (to_string_int port) True;
          t1 = EvGetaddrinfo node (to_string_int port) True r # t in
      case r of
        Inl rc \<Rightarrow> (-1, ''getaddrinfo: '' @ os_gai_strerror os rc, t1)
      | Inr res \<Rightarrow>
          let (listener, err1, t2) = listen_loop os backlog reuseport res err t1 in
          (listener, if \<not> fd_valid listener \<and> err1 = [] then ''no usable address'' else err1, t2))"

definition endpoint_of :: "addrinfo \<Rightarrow> endpoint" where
  "endpoint_of p = \<lparr>ep_addr = ai_addr p, ep_len = length (ai_addr p), ep_family = ai_family p,
                    ep_socktype = ai_socktype p, ep_protocol = ai_protocol p\<rparr>"

definition resolve ::
  "os \<Rightarrow> string \<Rightarrow> string \<Rightarrow> endpoint list \<Rightarrow> string \<Rightarrow> trace \<Rightarrow> bool \<times> endpoint list \<times> string \<times> trace" where
  "resolve os host port out err t =
     (let r = os_getaddrinfo os t (Some (c_str host)) (c_str port) False;
          t1 = EvGetaddrinfo (Some (c_str host)) (c_str port) False r # t in
      case r of
        Inl rc \<Rightarrow> (False, out, ''getaddrinfo('' @ host @ ''): '' @ os_gai_strerror os rc, t1)
      | Inr res \<Rightarrow>
          let out1 = map endpoint_of (filter (\<lambda>p. length (ai_addr p) \<le> 128) res) in
          if out1 = [] then (False, out1, ''no usable address for '' @ host, t1)
          else (True, out1, err, t1))"

datatype connect_status = Connected | InProgress | ConnectFailed

definition start_connect :: "os \<Rightarrow> endpoint \<Rightarrow> fd \<Rightarrow> string \<Rightarrow> trace \<Rightarrow> connect_status \<times> fd \<times> string \<times> trace" where
  "start_connect os ep out err t =
     (let r = os_socket os t (ep_family ep) (ep_socktype ep) (ep_protocol ep);
          t1 = EvSocket (ep_family ep) (ep_socktype ep) (ep_protocol ep) r # t in
      case r of
        Inl e \<Rightarrow> (ConnectFailed, out, ''socket: '' @ os_strerror os e, t1)
      | Inr fd \<Rightarrow>
          let (nb, t2) = set_nonblocking os fd (suppress_sigpipe os fd t1) in
          if \<not> nb then (ConnectFailed, out, ''set_nonblocking: '' @ os_strerror os (last_errno t2), fd_destroy fd t2)
          else
            let c = os_connect os t2 fd (take (ep_len ep) (ep_addr ep));
                t3 = EvConnect fd (take (ep_len ep) (ep_addr ep)) c # t2 in
            case c of
              None \<Rightarrow> (let (out1, t4) = fd_reset out fd t3 in (Connected, out1, err, t4))
            | Some e \<Rightarrow>
                if e = EINPROGRESS \<or> e = EINTR
                then (let (out1, t4) = fd_reset out fd t3 in (InProgress, out1, err, t4))
                else (ConnectFailed, out, ''connect: '' @ os_strerror os e, fd_destroy fd t3))"

definition connect_succeeded :: "os \<Rightarrow> fd \<Rightarrow> string \<Rightarrow> trace \<Rightarrow> bool \<times> string \<times> trace" where
  "connect_succeeded os fd err t =
     (let r = os_so_error os t fd; t1 = EvSoError fd r # t in
      case r of
        Inl e \<Rightarrow> (False, ''getsockopt(SO_ERROR): '' @ os_strerror os e, t1)
      | Inr so_error \<Rightarrow>
          if so_error \<noteq> 0 then (False, ''connect: '' @ os_strerror_code os so_error, t1)
          else (True, err, t1))"


section \<open>Descriptor limits\<close>

definition fd_limit_current :: "os \<Rightarrow> trace \<Rightarrow> int \<times> trace" where
  "fd_limit_current os t =
     (let r = os_getrlimit os t; t1 = EvGetrlimit r # t in
      case r of Inl _ \<Rightarrow> (-1, t1) | Inr rl \<Rightarrow> (sint (rlim_cur rl), t1))"

definition fd_limit_raise :: "os \<Rightarrow> int \<Rightarrow> trace \<Rightarrow> int \<times> trace" where
  "fd_limit_raise os desired t =
     (let r = os_getrlimit os t; t1 = EvGetrlimit r # t in
      case r of
        Inl _ \<Rightarrow> (-1, t1)
      | Inr rl \<Rightarrow>
          let want = word_of_int desired in
          if rlim_cur rl \<ge> want then (sint (rlim_cur rl), t1)
          else
            let target = (if rlim_max rl = os_rlim_infinity os then want
                          else if want < rlim_max rl then want else rlim_max rl);
                next = rl\<lparr>rlim_cur := target\<rparr>;
                s = os_setrlimit os t1 next;
                t2 = EvSetrlimit next s # t1
            in if s \<noteq> None then (sint (rlim_cur rl), t2) else fd_limit_current os t2)"

text \<open>The loop variable is an \<^verbatim>\<open>int\<close>: a limit that it cannot reach makes it overflow, which is
  undefined behaviour.\<close>

fun count_open :: "os \<Rightarrow> fd list \<Rightarrow> int \<Rightarrow> trace \<Rightarrow> int \<times> trace" where
  "count_open os [] count t = (count, t)"
| "count_open os (fd # fds) count t =
     (let b = os_getfd os t fd in
      count_open os fds (if b then count + 1 else count) (EvFcntlGetFd fd b # t))"

definition open_fd_count :: "os \<Rightarrow> trace \<Rightarrow> (int \<times> trace) option" where
  "open_fd_count os t =
     (let (limit, t1) = fd_limit_current os t in
      if limit < 0 then Some (-1, t1)
      else if limit > 2 ^ 31 - 1 then None
      else Some (count_open os [0..limit - 1] 0 t1))"


section \<open>Effects on the history\<close>

text \<open>Events that open and close nothing, move no bytes through a socket and touch no kqueue.\<close>

fun quiet :: "event \<Rightarrow> bool" where
  "quiet (EvClose _) = False"
| "quiet (EvSend _ _ r) = isl r"
| "quiet (EvRecv _ _ r) = isl r"
| "quiet (EvKevAdd _ _ _ _ _) = False"
| "quiet (EvKevDelete _ _ _ _) = False"
| "quiet ev = (opened_by ev = [])"

lemma quiet_effects:
  assumes "quiet ev"
  shows "open_fds (ev # t) = open_fds t" and "sent_bytes fd (ev # t) = sent_bytes fd t"
    and "received_bytes fd (ev # t) = received_bytes fd t" and "registered kq (ev # t) = registered kq t"
proof -
  show "open_fds (ev # t) = open_fds t" using assms by (cases ev) (auto split: sum.splits)
  show "sent_bytes fd (ev # t) = sent_bytes fd t" using assms by (cases ev) (auto split: sum.splits)
  show "received_bytes fd (ev # t) = received_bytes fd t" using assms by (cases ev) (auto split: sum.splits)
  show "registered kq (ev # t) = registered kq t" using assms by (cases ev) (auto split: sum.splits)
qed

lemma quiet_list_effects:
  assumes "\<forall>ev\<in>set evs. quiet ev"
  shows "open_fds (evs @ t) = open_fds t" and "sent_bytes fd (evs @ t) = sent_bytes fd t"
    and "received_bytes fd (evs @ t) = received_bytes fd t" and "registered kq (evs @ t) = registered kq t"
  using assms by (induction evs) (simp_all del: open_fds.simps sent_bytes.simps received_bytes.simps
      registered.simps add: quiet_effects)

text \<open>What a call leaves alone: the bytes and the registrations of the descriptors in \<open>F\<close>.\<close>

definition untouched :: "fd set \<Rightarrow> trace \<Rightarrow> trace \<Rightarrow> bool" where
  "untouched F t t' \<longleftrightarrow>
     (\<forall>fd\<in>F. sent_bytes fd t' = sent_bytes fd t \<and> received_bytes fd t' = received_bytes fd t \<and>
        (\<forall>kq w. registered kq t' (fd, w) = registered kq t (fd, w)))"

lemma untouched_refl [simp]: "untouched F t t"
  by (simp add: untouched_def)

lemma untouched_trans: "untouched F t t1 \<Longrightarrow> untouched G t1 t2 \<Longrightarrow> untouched (F \<inter> G) t t2"
  by (simp add: untouched_def)

lemma untouched_mono: "untouched F t t1 \<Longrightarrow> G \<subseteq> F \<Longrightarrow> untouched G t t1"
  by (auto simp: untouched_def)

lemma untouched_quiet: "quiet ev \<Longrightarrow> untouched F t (ev # t)"
  by (simp add: untouched_def quiet_effects del: sent_bytes.simps received_bytes.simps registered.simps)

lemma untouched_open:
  assumes "closed_by ev = None" and "opened_by ev \<noteq> []" and "\<And>r. ev \<noteq> EvKqueue r"
  shows "untouched (- set (opened_by ev)) t (ev # t)"
  using assms by (cases ev) (auto simp: untouched_def split: sum.splits)

lemma untouched_close: "untouched (- {fd}) t (EvClose fd # t)"
  by (auto simp: untouched_def)


section \<open>Interrupted calls\<close>

text \<open>A call that is retried while it answers \<^verbatim>\<open>EINTR\<close> ends with the first other answer.\<close>

lemma retry_unroll:
  assumes step: "\<And>t. g t = Inl EINTR \<Longrightarrow> f t = f (ev # t)" and ex: "\<exists>n. g (replicate n ev @ t) \<noteq> Inl EINTR"
  shows "\<exists>n. g (replicate n ev @ t) \<noteq> Inl EINTR \<and> f t = f (replicate n ev @ t)"
proof -
  define n where "n = (LEAST n. g (replicate n ev @ t) \<noteq> Inl EINTR)"
  have n: "g (replicate n ev @ t) \<noteq> Inl EINTR" unfolding n_def using ex by (rule LeastI_ex)
  have "f t = f (replicate k ev @ t)" if "k \<le> n" for k
    using that
  proof (induction k)
    case (Suc k)
    then have "g (replicate k ev @ t) = Inl EINTR" 
      using not_less_Least [of k "\<lambda>n. g (replicate n ev @ t) \<noteq> Inl EINTR"] by (auto simp: n_def)
    with Suc step show ?case by simp
  qed simp
  with n show ?thesis by blast
qed

lemma read_some_last:
  assumes "finite_interrupts os"
  obtains n r where "r \<noteq> Inl EINTR"
    and "r = os_recv os (replicate n (EvRecv fd len (Inl EINTR)) @ t) fd len"
    and "read_some os fd len t = Some (case r of Inr [] \<Rightarrow> (IoClosed, []) | Inr bs \<Rightarrow> (IoOk, bs)
          | Inl e \<Rightarrow> (if e = EAGAIN then IoWouldBlock else IoError, []),
        EvRecv fd len r # replicate n (EvRecv fd len (Inl EINTR)) @ t)"
proof -
  have step: "read_some os fd len t = read_some os fd len (EvRecv fd len (Inl EINTR) # t)"
    if "os_recv os t fd len = Inl EINTR" for t
    using that by (subst read_some.simps) simp
  have ex: "\<exists>n. os_recv os (replicate n (EvRecv fd len (Inl EINTR)) @ t) fd len \<noteq> Inl EINTR"
    using assms unfolding finite_interrupts_def by blast
  obtain n where n: "os_recv os (replicate n (EvRecv fd len (Inl EINTR)) @ t) fd len \<noteq> Inl EINTR"
    "read_some os fd len t = read_some os fd len (replicate n (EvRecv fd len (Inl EINTR)) @ t)"
    using retry_unroll [of "\<lambda>t. os_recv os t fd len" "read_some os fd len", OF step ex] by blast
  show ?thesis
    by (rule that [OF n(1) refl], unfold n(2), subst read_some.simps)
       (use n(1) in \<open>auto simp: Let_def split: sum.splits list.splits\<close>)
qed

lemma write_some_last:
  assumes "finite_interrupts os"
  obtains n r where "r \<noteq> Inl EINTR"
    and "r = os_send os (replicate n (EvSend fd bs (Inl EINTR)) @ t) fd bs"
    and "write_some os fd bs t = Some (case r of Inr k \<Rightarrow> (IoOk, k)
          | Inl e \<Rightarrow> (if e = EAGAIN then IoWouldBlock else IoError, 0),
        EvSend fd bs r # replicate n (EvSend fd bs (Inl EINTR)) @ t)"
proof -
  have step: "write_some os fd bs t = write_some os fd bs (EvSend fd bs (Inl EINTR) # t)"
    if "os_send os t fd bs = Inl EINTR" for t
    using that by (subst write_some.simps) simp
  have ex: "\<exists>n. os_send os (replicate n (EvSend fd bs (Inl EINTR)) @ t) fd bs \<noteq> Inl EINTR"
    using assms unfolding finite_interrupts_def by blast
  obtain n where n: "os_send os (replicate n (EvSend fd bs (Inl EINTR)) @ t) fd bs \<noteq> Inl EINTR"
    "write_some os fd bs t = write_some os fd bs (replicate n (EvSend fd bs (Inl EINTR)) @ t)"
    using retry_unroll [of "\<lambda>t. os_send os t fd bs" "write_some os fd bs", OF step ex] by blast
  show ?thesis
    by (rule that [OF n(1) refl], unfold n(2), subst write_some.simps)
       (use n(1) in \<open>auto simp: Let_def split: sum.splits\<close>)
qed

text \<open>The call that answered, after the interrupted ones, is the only one with an effect.\<close>

definition only_events :: "(event \<Rightarrow> bool) \<Rightarrow> trace \<Rightarrow> trace \<Rightarrow> bool" where
  "only_events P t t' \<longleftrightarrow> (\<exists>evs. t' = evs @ t \<and> (\<forall>ev\<in>set evs. P ev))"

lemma only_events_refl [simp]: "only_events P t t"
  by (simp add: only_events_def)

lemma only_events_trans: "only_events P t t1 \<Longrightarrow> only_events P t1 t2 \<Longrightarrow> only_events P t t2"
  unfolding only_events_def by (metis UnE append.assoc set_append)

lemma only_events_Cons: "P ev \<Longrightarrow> only_events P t t' \<Longrightarrow> only_events P t (ev # t')"
  unfolding only_events_def by (metis append_Cons set_ConsD)

lemma only_events_mono: "only_events P t t' \<Longrightarrow> (\<And>ev. P ev \<Longrightarrow> Q ev) \<Longrightarrow> only_events Q t t'"
  unfolding only_events_def by blast

lemma only_events_quiet:
  assumes "only_events quiet t t'"
  shows "open_fds t' = open_fds t" and "untouched F t t'"
  using assms quiet_list_effects by (auto simp: only_events_def untouched_def)

lemma read_some_effect:
  assumes "finite_interrupts os" and "bounded_io os"
  obtains st bs t' where "read_some os fd len t = Some ((st, bs), t')"
    and "open_fds t' = open_fds t" and "untouched (- {fd}) t t'"
    and "sent_bytes fd t' = sent_bytes fd t" and "received_bytes fd t' = received_bytes fd t @ bs"
    and "registered kq t' = registered kq t" and "length bs \<le> len" and "st = IoOk \<longleftrightarrow> bs \<noteq> []"
    and "only_events (\<lambda>ev. \<exists>r. ev = EvRecv fd len r) t t'"
    and "st = IoClosed \<longrightarrow> (\<exists>t2. t' = EvRecv fd len (Inr []) # t2 \<and> sent_bytes fd t2 = sent_bytes fd t \<and>
      received_bytes fd t2 = received_bytes fd t)"
proof -
  obtain n r where r: "r \<noteq> Inl EINTR" "r = os_recv os (replicate n (EvRecv fd len (Inl EINTR)) @ t) fd len"
    and eq: "read_some os fd len t = Some (case r of Inr [] \<Rightarrow> (IoClosed, []) | Inr bs \<Rightarrow> (IoOk, bs)
          | Inl e \<Rightarrow> (if e = EAGAIN then IoWouldBlock else IoError, []),
        EvRecv fd len r # replicate n (EvRecv fd len (Inl EINTR)) @ t)"
    by (rule read_some_last [OF assms(1)])
  let ?t = "replicate n (EvRecv fd len (Inl EINTR)) @ t"
  define bs where "bs = (case r of Inl _ \<Rightarrow> [] | Inr bs \<Rightarrow> bs)"
  obtain st where st: "read_some os fd len t = Some ((st, bs), EvRecv fd len r # ?t)" "st = IoOk \<longleftrightarrow> bs \<noteq> []"
      "st \<noteq> IoClosed \<or> r = Inr []"
    unfolding eq by (cases r; cases "projr r") (auto simp: bs_def)
  have q: "\<forall>ev\<in>set (replicate n (EvRecv fd len (Inl EINTR))). quiet ev" by auto
  note e = quiet_list_effects [OF q]
  have "length bs \<le> len" using assms(2) r(2) by (auto simp: bs_def bounded_io_def split: sum.splits)
  moreover have "only_events (\<lambda>ev. \<exists>r. ev = EvRecv fd len r) t (EvRecv fd len r # ?t)"
    by (rule only_events_Cons) (auto simp: only_events_def)
  moreover have "untouched (- {fd}) t (EvRecv fd len r # ?t)"
    by (auto simp: untouched_def e split: sum.splits)
  ultimately show ?thesis
    using st by (intro that [OF st(1)]) (auto simp: e bs_def split: sum.splits)
qed

lemma write_some_effect:
  assumes "finite_interrupts os" and "bounded_io os"
  obtains st n t' where "write_some os fd bs t = Some ((st, n), t')"
    and "open_fds t' = open_fds t" and "untouched (- {fd}) t t'"
    and "received_bytes fd t' = received_bytes fd t" and "sent_bytes fd t' = sent_bytes fd t @ take n bs"
    and "registered kq t' = registered kq t" and "n \<le> length bs" and "st \<noteq> IoOk \<longrightarrow> n = 0"
    and "only_events (\<lambda>ev. \<exists>r. ev = EvSend fd bs r) t t'"
proof -
  obtain m r where r: "r \<noteq> Inl EINTR" "r = os_send os (replicate m (EvSend fd bs (Inl EINTR)) @ t) fd bs"
    and eq: "write_some os fd bs t = Some (case r of Inr k \<Rightarrow> (IoOk, k)
          | Inl e \<Rightarrow> (if e = EAGAIN then IoWouldBlock else IoError, 0),
        EvSend fd bs r # replicate m (EvSend fd bs (Inl EINTR)) @ t)"
    by (rule write_some_last [OF assms(1)])
  let ?t = "replicate m (EvSend fd bs (Inl EINTR)) @ t"
  define n where "n = (case r of Inl _ \<Rightarrow> 0 | Inr k \<Rightarrow> k)"
  obtain st where st: "write_some os fd bs t = Some ((st, n), EvSend fd bs r # ?t)" "st \<noteq> IoOk \<Longrightarrow> n = 0"
    unfolding eq by (cases r) (auto simp: n_def)
  have q: "\<forall>ev\<in>set (replicate m (EvSend fd bs (Inl EINTR))). quiet ev" by auto
  note e = quiet_list_effects [OF q]
  have "n \<le> length bs" using assms(2) r(2) by (auto simp: n_def bounded_io_def split: sum.splits)
  moreover have "only_events (\<lambda>ev. \<exists>r. ev = EvSend fd bs r) t (EvSend fd bs r # ?t)"
    by (rule only_events_Cons) (auto simp: only_events_def)
  moreover have "untouched (- {fd}) t (EvSend fd bs r # ?t)"
    by (auto simp: untouched_def e split: sum.splits)
  ultimately show ?thesis
    using st by (intro that [OF st(1)]) (auto simp: e n_def split: sum.splits)
qed

lemma set_nonblocking_quiet: "only_events quiet t (snd (set_nonblocking os fd t))"
  by (auto simp: set_nonblocking_def Let_def split: sum.splits intro!: only_events_Cons)

lemma suppress_sigpipe_quiet: "only_events quiet t (suppress_sigpipe os fd t)"
  by (auto simp: suppress_sigpipe_def intro!: only_events_Cons)

lemma connect_succeeded_quiet: "only_events quiet t (snd (snd (connect_succeeded os fd err t)))"
  by (auto simp: connect_succeeded_def Let_def split: sum.splits intro!: only_events_Cons)

text \<open>A new descriptor that was only configured, and is then kept or closed.\<close>

lemma fresh_socket_kept:
  assumes "fd \<notin> open_fds t" and "only_events quiet (EvSocket a b c (Inr fd) # t) t'"
  shows "open_fds t' = insert fd (open_fds t)" and "untouched (open_fds t) t t'"
    and "sent_bytes fd t' = []" and "received_bytes fd t' = []"
proof -
  let ?t1 = "EvSocket a b c (Inr fd) # t"
  note q = only_events_quiet [OF assms(2)]
  show "open_fds t' = insert fd (open_fds t)" by (simp add: q(1))
  have "untouched (- {fd}) t ?t1" using untouched_open [of "EvSocket a b c (Inr fd)" t] by simp
  from untouched_trans [OF this q(2) [of UNIV]] show "untouched (open_fds t) t t'"
    by (rule untouched_mono) (use assms(1) in auto)
  show "sent_bytes fd t' = []" "received_bytes fd t' = []"
    using q(2) [of UNIV] by (simp_all add: untouched_def)
qed

lemma fresh_socket_dropped:
  assumes "fd \<notin> open_fds t" and "only_events quiet (EvSocket a b c (Inr fd) # t) t'" and "0 \<le> fd"
  shows "open_fds (fd_destroy fd t') = open_fds t" and "untouched (open_fds t) t (fd_destroy fd t')"
proof -
  note k = fresh_socket_kept [OF assms(1,2)]
  have d: "fd_destroy fd t' = EvClose fd # t'" using assms(3) by (simp add: fd_destroy_def fd_reset_def)
  show "open_fds (fd_destroy fd t') = open_fds t" using assms(1) by (auto simp: d k(1))
  show "untouched (open_fds t) t (fd_destroy fd t')"
    unfolding d by (rule untouched_mono [OF untouched_trans [OF k(2) untouched_close [of fd]]]) (use assms(1) in auto)
qed

text \<open>
  A connect attempt keeps exactly one new descriptor, or none when it fails, and leaves every
  descriptor that was open alone.
\<close>

lemma start_connect_effect:
  assumes "fresh_descriptors os"
  obtains st fd err' t' where "start_connect os ep (-1) err t = (st, fd, err', t')"
    and "untouched (open_fds t) t t'"
    and "st = ConnectFailed \<longrightarrow> fd = -1 \<and> open_fds t' = open_fds t"
    and "st \<noteq> ConnectFailed \<longrightarrow> 0 \<le> fd \<and> fd \<notin> open_fds t \<and> open_fds t' = insert fd (open_fds t) \<and>
      sent_bytes fd t' = [] \<and> received_bytes fd t' = [] \<and>
      (\<exists>c t2. t' = EvConnect fd (take (ep_len ep) (ep_addr ep)) c # t2 \<and> (st = Connected \<longleftrightarrow> c = None))"
proof (cases "os_socket os t (ep_family ep) (ep_socktype ep) (ep_protocol ep)")
  case (Inl e)
  let ?ev = "EvSocket (ep_family ep) (ep_socktype ep) (ep_protocol ep) (Inl e)"
  show ?thesis
    by (rule that [of ConnectFailed "-1" "''socket: '' @ os_strerror os e" "?ev # t"])
       (auto simp: start_connect_def Inl untouched_quiet)
next
  case (Inr fd)
  let ?t1 = "EvSocket (ep_family ep) (ep_socktype ep) (ep_protocol ep) (Inr fd) # t"
  have fd: "0 \<le> fd" "fd \<notin> open_fds t" using assms Inr unfolding fresh_descriptors_def by blast+
  obtain nb t2 where nb: "set_nonblocking os fd (suppress_sigpipe os fd ?t1) = (nb, t2)" by fastforce
  have q: "only_events quiet ?t1 t2"
    using only_events_trans [OF suppress_sigpipe_quiet set_nonblocking_quiet] nb by (metis snd_conv)
  let ?a = "take (ep_len ep) (ep_addr ep)"
  have q3: "only_events quiet ?t1 (EvConnect fd ?a c # t2)" for c
    by (rule only_events_Cons [OF _ q]) simp
  note kept = fresh_socket_kept [OF fd(2) q3] and dropped = fresh_socket_dropped [OF fd(2) q3 fd(1)]
    and dropped2 = fresh_socket_dropped [OF fd(2) q fd(1)]
  show ?thesis
  proof (cases "nb \<and> os_connect os t2 fd ?a \<in> {None, Some EINPROGRESS, Some EINTR}")
    case True
    then obtain st where st: "st \<noteq> ConnectFailed" "st = Connected \<longleftrightarrow> os_connect os t2 fd ?a = None" and
      eq: "start_connect os ep (-1) err t = (st, fd, err, EvConnect fd ?a (os_connect os t2 fd ?a) # t2)"
      by (auto simp: start_connect_def Inr nb fd_reset_def)
    show ?thesis by (rule that [OF eq kept(2)]) (use st kept fd in simp_all)
  next
    case False
    then obtain err' t' where eq: "start_connect os ep (-1) err t = (ConnectFailed, -1, err', t')" and
      t': "t' = fd_destroy fd t2 \<or> (\<exists>c. t' = fd_destroy fd (EvConnect fd ?a c # t2))"
      by (cases nb; cases "os_connect os t2 fd ?a") (auto simp: start_connect_def Inr nb)
    have "open_fds t' = open_fds t \<and> untouched (open_fds t) t t'" using t' dropped dropped2 by auto
    then show ?thesis by (intro that [OF eq]) simp_all
  qed
qed

lemma accept_one_last:
  assumes "finite_interrupts os"
  obtains n r where "r = os_accept os (replicate n (EvAccept l (Inl EINTR)) @ t) l"
    and "accept_one os l t = Some (case r of
          Inr fd \<Rightarrow> ((AcceptOk, fd), suppress_sigpipe os fd (EvAccept l r # replicate n (EvAccept l (Inl EINTR)) @ t))
        | Inl e \<Rightarrow> ((if e = EAGAIN then AcceptWouldBlock else if e = EMFILE \<or> e = ENFILE then OutOfFds else AcceptError, -1),
            EvAccept l r # replicate n (EvAccept l (Inl EINTR)) @ t))"
proof -
  have step: "accept_one os l t = accept_one os l (EvAccept l (Inl EINTR) # t)"
    if "os_accept os t l = Inl EINTR" for t
    using that by (subst accept_one.simps) simp
  have ex: "\<exists>n. os_accept os (replicate n (EvAccept l (Inl EINTR)) @ t) l \<noteq> Inl EINTR"
    using assms unfolding finite_interrupts_def by blast
  obtain n where n: "os_accept os (replicate n (EvAccept l (Inl EINTR)) @ t) l \<noteq> Inl EINTR"
    "accept_one os l t = accept_one os l (replicate n (EvAccept l (Inl EINTR)) @ t)"
    using retry_unroll [of "\<lambda>t. os_accept os t l" "accept_one os l", OF step ex] by blast
  show ?thesis
    by (rule that [OF refl], unfold n(2), subst accept_one.simps)
       (use n(1) in \<open>auto simp: Let_def split: sum.splits\<close>)
qed

lemma accept_one_effect:
  assumes "finite_interrupts os" and "fresh_descriptors os"
  obtains st fd t' where "accept_one os l t = Some ((st, fd), t')" and "untouched (open_fds t) t t'"
    and "st = AcceptOk \<longrightarrow> 0 \<le> fd \<and> fd \<notin> open_fds t \<and> open_fds t' = insert fd (open_fds t) \<and>
      sent_bytes fd t' = [] \<and> received_bytes fd t' = []"
    and "st \<noteq> AcceptOk \<longrightarrow> fd = -1 \<and> open_fds t' = open_fds t"
proof -
  obtain n r where r: "r = os_accept os (replicate n (EvAccept l (Inl EINTR)) @ t) l"
    and eq: "accept_one os l t = Some (case r of
          Inr fd \<Rightarrow> ((AcceptOk, fd), suppress_sigpipe os fd (EvAccept l r # replicate n (EvAccept l (Inl EINTR)) @ t))
        | Inl e \<Rightarrow> ((if e = EAGAIN then AcceptWouldBlock else if e = EMFILE \<or> e = ENFILE then OutOfFds else AcceptError, -1),
            EvAccept l r # replicate n (EvAccept l (Inl EINTR)) @ t))"
    by (rule accept_one_last [OF assms(1)])
  let ?t = "replicate n (EvAccept l (Inl EINTR)) @ t"
  have q: "\<forall>ev\<in>set (replicate n (EvAccept l (Inl EINTR))). quiet ev" by auto
  note e = quiet_list_effects [OF q]
  show ?thesis
  proof (cases r)
    case (Inl x)
    have "untouched (open_fds t) t (EvAccept l (Inl x) # ?t)" by (auto simp: untouched_def e)
    moreover obtain st where "st \<noteq> AcceptOk" "accept_one os l t = Some ((st, -1), EvAccept l (Inl x) # ?t)"
      using eq by (auto simp: Inl split: if_splits)
    ultimately show ?thesis using that by (simp add: e)
  next
    case (Inr fd)
    have fd: "0 \<le> fd" "fd \<notin> open_fds t"
      using assms(2) r e(1) [of t] unfolding Inr fresh_descriptors_def by metis+
    have "untouched (open_fds t) t (suppress_sigpipe os fd (EvAccept l r # ?t))"
      using fd by (auto simp: untouched_def e Inr suppress_sigpipe_def)
    moreover have "accept_one os l t = Some ((AcceptOk, fd), suppress_sigpipe os fd (EvAccept l r # ?t))"
      using eq by (simp add: Inr)
    ultimately show ?thesis using that fd by (simp add: Inr e suppress_sigpipe_def)
  qed
qed

lemma wait_ready_effect:
  assumes "finite_interrupts os"
  obtains b t' where "wait_ready os fd w ms t = Some (b, t')" and "only_events quiet t t'"
    and "b \<longrightarrow> (\<exists>rc > 0. hd t' = EvPoll fd w ms (Inr rc))"
proof -
  have step: "wait_ready os fd w ms t = wait_ready os fd w ms (EvPoll fd w ms (Inl EINTR) # t)"
    if "os_poll os t fd w ms = Inl EINTR" for t
    using that by (subst wait_ready.simps) simp
  have ex: "\<exists>n. os_poll os (replicate n (EvPoll fd w ms (Inl EINTR)) @ t) fd w ms \<noteq> Inl EINTR"
    using assms unfolding finite_interrupts_def by blast
  obtain n where n: "os_poll os (replicate n (EvPoll fd w ms (Inl EINTR)) @ t) fd w ms \<noteq> Inl EINTR"
    "wait_ready os fd w ms t = wait_ready os fd w ms (replicate n (EvPoll fd w ms (Inl EINTR)) @ t)"
    using retry_unroll [of "\<lambda>t. os_poll os t fd w ms" "wait_ready os fd w ms", OF step ex] by blast
  let ?t = "replicate n (EvPoll fd w ms (Inl EINTR)) @ t"
  have q: "only_events quiet t ?t" by (auto simp: only_events_def)
  obtain b where b: "wait_ready os fd w ms ?t = Some (b, EvPoll fd w ms (os_poll os ?t fd w ms) # ?t)"
      "b \<longleftrightarrow> (\<exists>rc > 0. os_poll os ?t fd w ms = Inr rc)"
    using n(1) by (subst (asm) wait_ready.simps) (auto simp: Let_def split: sum.splits if_splits)
  show ?thesis
    using b n(2) by (intro that [of b "EvPoll fd w ms (os_poll os ?t fd w ms) # ?t"])
      (auto intro!: only_events_Cons [OF _ q])
qed


section \<open>A concrete operating system\<close>

text \<open>
  A kernel that satisfies the hypotheses, for the witnesses: descriptor numbers are never reused,
  every peer sends a fixed text and then closes, every send is accepted whole, names resolve to
  one address, a pipe holds one byte, and a kqueue reports what was registered just before.
\<close>

fun max_fd :: "trace \<Rightarrow> fd" where
  "max_fd [] = 2"
| "max_fd (ev # t) = fold max (opened_by ev) (max_fd t)"

definition demo_os :: "(fd \<Rightarrow> string) \<Rightarrow> os" where
  "demo_os script =
     \<lparr>os_socket = \<lambda>t _ _ _. Inr (max_fd t + 1), os_pipe = \<lambda>t. Inr (max_fd t + 1, max_fd t + 2),
      os_accept = \<lambda>t _. Inr (max_fd t + 1), os_kqueue = \<lambda>t. Inr (max_fd t + 1),
      os_getfl = \<lambda>_ _. Inr 0, os_setfl = \<lambda>_ _ _. None, os_getfd = \<lambda>t fd. fd \<in> open_fds t,
      os_setsockopt = \<lambda>_ _ _. None, os_so_error = \<lambda>_ _. Inr 0, os_bind = \<lambda>_ _ _. None,
      os_listen = \<lambda>_ _ _. None, os_connect = \<lambda>_ _ _. Some EINPROGRESS,
      os_recv = \<lambda>t fd len. Inr (take len (drop (length (received_bytes fd t)) (script fd))),
      os_send = \<lambda>_ _ bs. Inr (length bs), os_read = \<lambda>t _ _. (case t of EvRead _ _ _ # _ \<Rightarrow> Inl EAGAIN | _ \<Rightarrow> Inr [CHR 0x01]), os_write = \<lambda>_ _ bs. Inr (length bs),
      os_poll = \<lambda>_ _ _ _. Inr 1,
      os_getaddrinfo = \<lambda>_ _ _ _. Inr [\<lparr>ai_family = 2, ai_socktype = 1, ai_protocol = 6, ai_addr = ''addr''\<rparr>],
      os_getrlimit = \<lambda>_. Inr \<lparr>rlim_cur = 256, rlim_max = 4096\<rparr>, os_setrlimit = \<lambda>_ _. None,
      os_rlim_infinity = 0x7FFFFFFFFFFFFFFF, os_o_nonblock = 4, os_clock = \<lambda>t. int (length t),
      os_kev_add = \<lambda>_ _ _ _ _. None, os_kev_delete = \<lambda>_ _ _ _. None, os_kevent = \<lambda>t _. Inr (case t of EvKevAdd _ _ _ u None # _ \<Rightarrow> [u] | _ \<Rightarrow> []),
      os_strerror = \<lambda>_. ''error'', os_strerror_code = \<lambda>_. ''error'', os_gai_strerror = \<lambda>_. ''error''\<rparr>"

lemma fold_max_ge: "y \<le> m \<or> y \<in> set xs \<Longrightarrow> (y :: int) \<le> fold max xs m"
proof (induction xs arbitrary: m)
  case (Cons x xs)
  have "y \<le> max x m \<or> y \<in> set xs" using Cons.prems by (auto simp: le_max_iff_disj)
  with Cons.IH [of "max x m"] show ?case by simp
qed simp

lemma max_fd_ge: "fd \<in> open_fds t \<Longrightarrow> fd \<le> max_fd t"
proof (induction t)
  case (Cons ev t)
  then have "fd \<le> max_fd t \<or> fd \<in> set (opened_by ev)" by auto
  then show ?case using fold_max_ge by simp
qed simp

lemma max_fd_nonneg: "2 \<le> max_fd t"
  by (induction t) (simp_all add: fold_max_ge)

lemma demo_os_hypotheses [simp]:
  "fresh_descriptors (demo_os script)" "bounded_io (demo_os script)" "finite_interrupts (demo_os script)"
proof -
  have "max_fd t + 1 \<notin> open_fds t" "max_fd t + 2 \<notin> open_fds t" for t using max_fd_ge by force+
  moreover have "0 \<le> max_fd t + 1" "0 \<le> max_fd t + 2" for t using max_fd_nonneg [of t] by simp_all
  ultimately show "fresh_descriptors (demo_os script)" by (simp add: fresh_descriptors_def demo_os_def)
  show "bounded_io (demo_os script)" by (auto simp: bounded_io_def demo_os_def)
  show "finite_interrupts (demo_os script)" by (simp add: finite_interrupts_def demo_os_def)
qed


text \<open>What its calls return.\<close>

lemma demo_read:
  "read_some (demo_os script) fd len t =
     (let bs = take len (drop (length (received_bytes fd t)) (script fd))
      in Some ((if bs = [] then IoClosed else IoOk, bs), EvRecv fd len (Inr bs) # t))"
  by (subst read_some.simps) (simp add: demo_os_def Let_def split: list.splits)

lemma demo_write:
  "write_some (demo_os script) fd bs t = Some ((IoOk, length bs), EvSend fd bs (Inr (length bs)) # t)"
  by (subst write_some.simps) (simp add: demo_os_def)

lemma demo_accept:
  "accept_one (demo_os script) l t =
     Some ((AcceptOk, max_fd t + 1), EvSetsockopt (max_fd t + 1) SO_NOSIGPIPE None # EvAccept l (Inr (max_fd t + 1)) # t)"
  by (subst accept_one.simps) (simp add: demo_os_def suppress_sigpipe_def)

lemma demo_wait: "wait_ready (demo_os script) fd b ms t = Some (True, EvPoll fd b ms (Inr 1) # t)"
  by (subst wait_ready.simps) (simp add: demo_os_def)

lemma demo_os_fields:
  "os_socket (demo_os script) t a b c = Inr (max_fd t + 1)" "os_getfl (demo_os script) t fd = Inr 0"
  "os_setfl (demo_os script) t fd fl = None" "os_setsockopt (demo_os script) t fd opt = None"
  "os_so_error (demo_os script) t fd = Inr 0" "os_connect (demo_os script) t fd addr = Some EINPROGRESS"
  "os_getaddrinfo (demo_os script) t n p passive =
     Inr [\<lparr>ai_family = 2, ai_socktype = 1, ai_protocol = 6, ai_addr = ''addr''\<rparr>]"
  "os_clock (demo_os script) t = int (length t)" "os_read (demo_os script) t fd len = (case t of EvRead _ _ _ # _ \<Rightarrow> Inl EAGAIN | _ \<Rightarrow> Inr [CHR 0x01])"
  "os_pipe (demo_os script) t = Inr (max_fd t + 1, max_fd t + 2)" "os_kqueue (demo_os script) t = Inr (max_fd t + 1)"
  "os_kev_add (demo_os script) t kq fd wr u = None" "os_kev_delete (demo_os script) t kq fd wr = None"
  "os_kevent (demo_os script) t kq = Inr (case t of EvKevAdd _ _ _ u None # _ \<Rightarrow> [u] | _ \<Rightarrow> [])"
  "os_write (demo_os script) t fd bs = Inr (length bs)"
  by (simp_all add: demo_os_def)

lemmas demo_calls = demo_read demo_write demo_accept demo_wait demo_os_fields


section \<open>Properties\<close>

text \<open>What the loop over the candidate addresses of a listener ends with.\<close>

definition listener_result :: "int \<Rightarrow> bool \<Rightarrow> trace \<Rightarrow> fd \<Rightarrow> trace \<Rightarrow> bool" where
  "listener_result backlog reuseport t fd t' \<longleftrightarrow>
     untouched (open_fds t) t t' \<and>
     only_events (\<lambda>ev. reuseport \<or> (\<forall>f r. ev \<noteq> EvSetsockopt f SO_REUSEPORT r)) t t' \<and>
     (if fd = -1 then open_fds t' = open_fds t
      else 0 \<le> fd \<and> fd \<notin> open_fds t \<and> open_fds t' = insert fd (open_fds t) \<and>
        (\<exists>addr t1. t' = EvListen fd backlog None # EvBind fd addr None # t1))"

lemma listener_result_trans:
  assumes "listener_result backlog reuseport t1 fd t2" and "untouched (open_fds t) t t1"
    and "open_fds t1 = open_fds t" and "only_events (\<lambda>ev. reuseport \<or> (\<forall>f r. ev \<noteq> EvSetsockopt f SO_REUSEPORT r)) t t1"
  shows "listener_result backlog reuseport t fd t2"
proof -
  have "untouched (open_fds t) t t2"
    using untouched_trans [OF assms(2)] assms(1,3) unfolding listener_result_def by (metis inf.idem)
  moreover have "only_events (\<lambda>ev. reuseport \<or> (\<forall>f r. ev \<noteq> EvSetsockopt f SO_REUSEPORT r)) t t2"
    using assms(1) only_events_trans [OF assms(4)] unfolding listener_result_def by blast
  ultimately show ?thesis using assms(1,3) unfolding listener_result_def by (auto split: if_splits)
qed

lemma listen_loop_result:
  assumes "fresh_descriptors os"
  shows "listen_loop os backlog reuseport ps err t = (fd, err', t') \<Longrightarrow>
    listener_result backlog reuseport t fd t' \<and> (fd = -1 \<longrightarrow> err' = err \<or> err' \<noteq> [])"
proof (induction ps arbitrary: err t)
  case Nil
  then show ?case by (simp add: listener_result_def)
next
  case (Cons p ps)
  let ?s = "os_socket os t (ai_family p) (ai_socktype p) (ai_protocol p)"
  let ?ev = "\<lambda>r. EvSocket (ai_family p) (ai_socktype p) (ai_protocol p) r"
  show ?case
  proof (cases ?s)
    case (Inl e)
    then have "listen_loop os backlog reuseport ps err (?ev (Inl e) # t) = (fd, err', t')"
      using Cons.prems by simp
    from Cons.IH [OF this] show ?thesis
      by (auto intro!: listener_result_trans [of _ _ "?ev (Inl e) # t"] untouched_quiet only_events_Cons)
  next
    case (Inr s)
    have s: "0 \<le> s" "s \<notin> open_fds t" using assms Inr unfolding fresh_descriptors_def by blast+
    define t1 where "t1 = ?ev (Inr s) # t"
    define t2 where "t2 = EvSetsockopt s SO_REUSEADDR (os_setsockopt os t1 s SO_REUSEADDR) # t1"
    define t3 where "t3 = (if reuseport then EvSetsockopt s SO_REUSEPORT (os_setsockopt os t2 s SO_REUSEPORT) # t2 else t2)"
    define t4 where "t4 = suppress_sigpipe os s t3"
    define b where "b = os_bind os t4 s (ai_addr p)"
    define t5 where "t5 = EvBind s (ai_addr p) b # t4"
    define l where "l = os_listen os t5 s backlog"
    define t6 where "t6 = (if b = None then EvListen s backlog l # t5 else t5)"
    have eq: "listen_loop os backlog reuseport (p # ps) err t =
        (if b = None \<and> l = None then (s, err, t6)
         else listen_loop os backlog reuseport ps (''bind/listen: '' @ os_strerror os (last_errno t6)) (fd_destroy s t6))"
      by (simp add: Inr t1_def [symmetric] t2_def [symmetric] t3_def [symmetric] t4_def [symmetric] b_def [symmetric]
          t5_def [symmetric] l_def [symmetric] t6_def [symmetric])
    have q: "only_events quiet t1 t6"
      by (auto simp: t6_def t5_def t4_def t3_def t2_def suppress_sigpipe_def intro!: only_events_Cons)
    have n: "only_events (\<lambda>ev. reuseport \<or> (\<forall>f r. ev \<noteq> EvSetsockopt f SO_REUSEPORT r)) t t6"
      by (auto simp: t6_def t5_def t4_def t3_def t2_def t1_def suppress_sigpipe_def intro!: only_events_Cons)
    note kept = fresh_socket_kept [OF s(2) q [unfolded t1_def]]
      and dropped = fresh_socket_dropped [OF s(2) q [unfolded t1_def] s(1)]
    show ?thesis
    proof (cases "b = None \<and> l = None")
      case True
      then have "fd = s" "t' = t6" using Cons.prems by (simp_all add: eq del: listen_loop.simps)
      moreover have "\<exists>addr t1. t6 = EvListen s backlog None # EvBind s addr None # t1"
        using True by (simp add: t6_def t5_def)
      ultimately show ?thesis using n kept s by (simp add: listener_result_def)
    next
      case False
      then have "listen_loop os backlog reuseport ps (''bind/listen: '' @ os_strerror os (last_errno t6))
          (fd_destroy s t6) = (fd, err', t')"
        using Cons.prems unfolding eq by (simp only: if_False)
      note IH = Cons.IH [OF this]
      have "only_events (\<lambda>ev. reuseport \<or> (\<forall>f r. ev \<noteq> EvSetsockopt f SO_REUSEPORT r)) t (fd_destroy s t6)"
        using only_events_Cons [OF _ n, of "EvClose s"] s(1) by (simp add: fd_destroy_def fd_reset_def)
      from listener_result_trans [OF _ dropped(2,1) this] IH show ?thesis by auto
    qed
  qed
qed

lemma listen_on_listener:
  assumes "fresh_descriptors os" and "listen_on os host port backlog [] reuseport t = (fd, err, t')"
  shows "listener_result backlog reuseport t fd t' \<and> (fd = -1 \<longrightarrow> err \<noteq> [])"
proof -
  let ?node = "if host = [] then None else Some (c_str host)"
  let ?r = "os_getaddrinfo os t ?node (to_string_int port) True"
  let ?t1 = "EvGetaddrinfo ?node (to_string_int port) True ?r # t"
  have q: "only_events (\<lambda>ev. reuseport \<or> (\<forall>f r. ev \<noteq> EvSetsockopt f SO_REUSEPORT r)) t ?t1"
    by (rule only_events_Cons) auto
  show ?thesis
  proof (cases ?r)
    case (Inl rc)
    then show ?thesis using assms(2) untouched_quiet [of "EvGetaddrinfo ?node (to_string_int port) True ?r"] q
      by (auto simp: listen_on_def Let_def listener_result_def)
  next
    case (Inr res)
    obtain l err1 t2 where l: "listen_loop os backlog reuseport res [] ?t1 = (l, err1, t2)"
      by (metis prod_cases3)
    note res = listen_loop_result [OF assms(1) l]
    have "fd = l" "t' = t2" "fd = -1 \<longrightarrow> err \<noteq> []"
      using assms(2) l by (auto simp: listen_on_def Let_def Inr fd_valid_def split: if_splits)
    with listener_result_trans [OF conjunct1 [OF res] _ _ q] show ?thesis by (simp add: untouched_quiet)
  qed
qed

text \<open>
  C40. \<^verbatim>\<open>listen_on\<close> either returns one new descriptor, bound and listening with the given backlog, which
  is the only descriptor it left open, or it returns the invalid one with an error message and
  leaks nothing. It sets \<^verbatim>\<open>SO_REUSEPORT\<close> only when asked to.
\<close>

theorem listen_on_result:
  assumes "fresh_descriptors os" and "listen_on os host port backlog [] reuseport t = (fd, err, t')"
  shows "listener_result backlog reuseport t fd t' \<and> (fd = -1 \<longrightarrow> err \<noteq> [])"
  by (rule listen_on_listener [OF assms])

theorem listen_on_result_witness:
  "\<exists>t'. listen_on (demo_os (\<lambda>_. [])) ''127.0.0.1'' 8888 512 [] False [] = (3, [], t') \<and>
     listener_result 512 False [] 3 t'"
proof -
  obtain t' where eq: "listen_on (demo_os (\<lambda>_. [])) ''127.0.0.1'' 8888 512 [] False [] = (3, [], t')"
    by (simp add: listen_on_def demo_os_def suppress_sigpipe_def fd_valid_def)
  from listen_on_result [OF _ this] eq show ?thesis by simp
qed

text \<open>
  Raising the descriptor limit never lowers it and never asks beyond the hard limit: every
  limit that \<^verbatim>\<open>fd_limit_raise\<close> hands to \<^verbatim>\<open>setrlimit\<close> is above the current soft limit, keeps the hard
  limit, and is at most the hard limit unless that is infinite.
\<close>

lemma fd_limit_raise_bounds:
  assumes "os_getrlimit os t = Inr rl"
    and "rlim_cur rl \<le> rlim_max rl \<or> rlim_max rl = os_rlim_infinity os"
    and "EvSetrlimit nl r \<in> set (snd (fd_limit_raise os desired t))" and "EvSetrlimit nl r \<notin> set t"
  shows "rlim_max nl = rlim_max rl \<and> rlim_cur rl \<le> rlim_cur nl \<and> rlim_cur nl \<le> word_of_int desired \<and>
    (rlim_max rl \<noteq> os_rlim_infinity os \<longrightarrow> rlim_cur nl \<le> rlim_max rl)"
  using assms by (auto simp: fd_limit_raise_def fd_limit_current_def Let_def split: if_splits sum.splits)

lemma fd_limit_raise_demo:
  "EvSetrlimit \<lparr>rlim_cur = 4096, rlim_max = 4096\<rparr> None \<in> set (snd (fd_limit_raise (demo_os (\<lambda>_. [])) 10240 [])) \<and>
   (256 :: 64 word) \<le> 4096"
proof -
  have "EvSetrlimit \<lparr>rlim_cur = 4096, rlim_max = 4096\<rparr> None \<in> set (snd (fd_limit_raise (demo_os (\<lambda>_. [])) 10240 []))"
    by (simp add: fd_limit_raise_def fd_limit_current_def demo_os_def Let_def)
  moreover from fd_limit_raise_bounds [OF _ _ this, of "\<lparr>rlim_cur = 256, rlim_max = 4096\<rparr>"]
  have "(256 :: 64 word) \<le> 4096" by (simp add: demo_os_def)
  ultimately show ?thesis by simp
qed

end
