(* ===== verification/Resolver.thy ===== *)
theory Resolver
  imports Prelude Socket
begin

text \<open>
  Model of \<^verbatim>\<open>src/src/resolver.hpp\<close> and \<^verbatim>\<open>src/src/resolver.cpp\<close>: the TTL cache, the blocking and the
  asynchronous arm, and the resolver threads. Jobs live in a heap and are denoted by their index;
  \<open>j_refs\<close> is the use count of the \<^verbatim>\<open>std::shared_ptr\<close>. A resolver thread is a program counter with its
  local variables, and \<open>worker_step\<close> runs it from one access to shared state to the next, so that any
  interleaving of threads and connections is a sequence of steps. The release store and acquire
  load of \<^verbatim>\<open>ready\<close> justify that interleaving view of the other fields.
\<close>

section \<open>Data\<close>

type_synonym job_id = nat

record job =
  j_endpoints :: "endpoint list"
  j_err :: string
  j_ok :: bool
  j_ready :: bool
  j_read_end :: fd
  j_write_end :: fd
  j_host :: string
  j_port :: string
  j_refs :: nat

datatype worker =
    WWait
  | WLookup job_id
  | WPublish job_id bool "endpoint list" string
  | WCachePut job_id bool
  | WReady job_id
  | WSignal job_id
  | WClose job_id
  | WRelease job_id
  | WExited

record resolver =
  r_jobs :: "job list"
  r_queue :: "job_id list"
  r_closed :: bool
  r_cache :: "(string \<times> (endpoint list \<times> int)) list"
  r_ttl_s :: int
  r_delay_ms :: int
  r_hits :: uint64
  r_lookups :: uint64
  r_workers :: "worker list"

datatype resolve_status = ResolveHit | ResolvePending | ResolveFailed

definition new_resolver :: "size_t \<Rightarrow> int \<Rightarrow> int \<Rightarrow> resolver" where
  "new_resolver threads ttl delay =
     \<lparr>r_jobs = [], r_queue = [], r_closed = False, r_cache = [], r_ttl_s = ttl, r_delay_ms = delay,
      r_hits = 0, r_lookups = 0, r_workers = replicate threads WWait\<rparr>"

definition new_job :: "string \<Rightarrow> string \<Rightarrow> fd \<Rightarrow> fd \<Rightarrow> nat \<Rightarrow> job" where
  "new_job host port re we refs =
     \<lparr>j_endpoints = [], j_err = [], j_ok = False, j_ready = False, j_read_end = re, j_write_end = we,
      j_host = host, j_port = port, j_refs = refs\<rparr>"


section \<open>Lookups and their cache\<close>

definition dns_key :: "string \<Rightarrow> string \<Rightarrow> string" where
  "dns_key host port = host @ '':'' @ port"

definition do_lookup ::
  "os \<Rightarrow> string \<Rightarrow> string \<Rightarrow> endpoint list \<Rightarrow> string \<Rightarrow> resolver \<Rightarrow> trace \<Rightarrow>
   bool \<times> endpoint list \<times> string \<times> resolver \<times> trace" where
  "do_lookup os host port out err r t =
     (let t1 = (if r_delay_ms r > 0 then EvSleep (r_delay_ms r) # t else t);
          r1 = r\<lparr>r_lookups := r_lookups r + 1\<rparr>;
          (ok, out1, err1, t2) = resolve os host port out err t1
      in (ok, out1, err1, r1, t2))"

definition cache_get ::
  "os \<Rightarrow> string \<Rightarrow> endpoint list \<Rightarrow> resolver \<Rightarrow> trace \<Rightarrow> bool \<times> endpoint list \<times> resolver \<times> trace" where
  "cache_get os key out r t =
     (case map_of (r_cache r) key of
        None \<Rightarrow> (False, out, r, t)
      | Some (eps, expires) \<Rightarrow>
          let now = os_clock os t; t1 = EvClock now # t in
          if now \<ge> expires then (False, out, r\<lparr>r_cache := AList.delete key (r_cache r)\<rparr>, t1)
          else (True, eps, r, t1))"

text \<open>Times are nanoseconds of the steady clock.\<close>

definition cache_put :: "os \<Rightarrow> string \<Rightarrow> endpoint list \<Rightarrow> resolver \<Rightarrow> trace \<Rightarrow> resolver \<times> trace" where
  "cache_put os key eps r t =
     (if r_ttl_s r \<le> 0 then (r, t)
      else let now = os_clock os t in
        (r\<lparr>r_cache := AList.update key (eps, now + r_ttl_s r * 10 ^ 9) (r_cache r)\<rparr>, EvClock now # t))"

definition resolve_blocking ::
  "os \<Rightarrow> string \<Rightarrow> string \<Rightarrow> endpoint list \<Rightarrow> string \<Rightarrow> resolver \<Rightarrow> trace \<Rightarrow>
   bool \<times> endpoint list \<times> string \<times> resolver \<times> trace" where
  "resolve_blocking os host port out err r t =
     (let (hit, out1, r1, t1) = cache_get os (dns_key host port) out r t in
      if hit then (True, out1, err, r1\<lparr>r_hits := r_hits r1 + 1\<rparr>, t1)
      else
        let (ok, out2, err2, r2, t2) = do_lookup os host port out1 err r1 t1 in
        if \<not> ok then (False, out2, err2, r2, t2)
        else let (r3, t3) = cache_put os (dns_key host port) out2 r2 t2 in (True, out2, err2, r3, t3))"


section \<open>Jobs\<close>

definition update_job :: "job_id \<Rightarrow> (job \<Rightarrow> job) \<Rightarrow> resolver \<Rightarrow> resolver" where
  "update_job i f r = r\<lparr>r_jobs := (r_jobs r)[i := f (r_jobs r ! i)]\<rparr>"

text \<open>
  Dropping a \<^verbatim>\<open>shared_ptr\<close>: the last one destroys the job, whose members go in reverse order of
  declaration, the write end of the pipe before the read end.
\<close>

definition release_job :: "job_id \<Rightarrow> resolver \<Rightarrow> trace \<Rightarrow> resolver \<times> trace" where
  "release_job i r t =
     (let j = r_jobs r ! i in
      if j_refs j = 1
      then (update_job i (\<lambda>j. j\<lparr>j_refs := 0, j_read_end := -1, j_write_end := -1\<rparr>) r,
            fd_destroy (j_read_end j) (fd_destroy (j_write_end j) t))
      else (update_job i (\<lambda>j. j\<lparr>j_refs := j_refs j - 1\<rparr>) r, t))"

definition release_opt :: "job_id option \<Rightarrow> resolver \<Rightarrow> trace \<Rightarrow> resolver \<times> trace" where
  "release_opt jo r t = (case jo of None \<Rightarrow> (r, t) | Some i \<Rightarrow> release_job i r t)"

definition start ::
  "os \<Rightarrow> string \<Rightarrow> string \<Rightarrow> endpoint list \<Rightarrow> job_id option \<Rightarrow> string \<Rightarrow> resolver \<Rightarrow> trace \<Rightarrow>
   resolve_status \<times> endpoint list \<times> job_id option \<times> string \<times> resolver \<times> trace" where
  "start os host port out job err r t =
     (let (hit, out1, r1, t1) = cache_get os (dns_key host port) out r t in
      if hit then (ResolveHit, out1, job, err, r1\<lparr>r_hits := r_hits r1 + 1\<rparr>, t1)
      else
        let j = length (r_jobs r1);
            (ok, re, we, t2) = make_pipe os (-1) (-1) t1;
            r2 = r1\<lparr>r_jobs := r_jobs r1 @ [new_job host port re we 1]\<rparr>
        in if \<not> ok then
             let (r3, t3) = release_job j r2 t2 in
             (ResolveFailed, out1, job, ''resolver: cannot create wakeup pipe'', r3, t3)
           else if r_closed r2 then
             let (r3, t3) = release_job j r2 t2 in
             (ResolveFailed, out1, job, ''resolver: shutting down'', r3, t3)
           else
             let r3 = update_job j (\<lambda>j. j\<lparr>j_refs := j_refs j + 1\<rparr>) (r2\<lparr>r_queue := r_queue r2 @ [j]\<rparr>);
                 (r4, t3) = release_opt job r3 t2
             in (ResolvePending, out1, Some j, err, r4, t3))"


section \<open>Resolver threads\<close>

definition set_worker :: "nat \<Rightarrow> worker \<Rightarrow> resolver \<Rightarrow> resolver" where
  "set_worker k w r = r\<lparr>r_workers := (r_workers r)[k := w]\<rparr>"

text \<open>One step of thread \<open>k\<close>; \<open>None\<close> when it waits on the condition variable or has returned.\<close>

definition worker_step :: "os \<Rightarrow> nat \<Rightarrow> resolver \<Rightarrow> trace \<Rightarrow> (resolver \<times> trace) option" where
  "worker_step os k r t =
     (if k \<ge> length (r_workers r) then None
      else case r_workers r ! k of
        WWait \<Rightarrow>
          (case r_queue r of
             [] \<Rightarrow> if r_closed r then Some (set_worker k WExited r, t) else None
           | i # q \<Rightarrow> Some (set_worker k (WLookup i) (r\<lparr>r_queue := q\<rparr>), t))
      | WLookup i \<Rightarrow>
          let j = r_jobs r ! i;
              (ok, eps, err, r1, t1) = do_lookup os (j_host j) (j_port j) [] [] r t
          in Some (set_worker k (WPublish i ok eps err) r1, t1)
      | WPublish i ok eps err \<Rightarrow>
          Some (set_worker k (WCachePut i ok)
                 (update_job i (\<lambda>j. j\<lparr>j_endpoints := eps, j_err := err, j_ok := ok\<rparr>) r), t)
      | WCachePut i ok \<Rightarrow>
          let j = r_jobs r ! i;
              (r1, t1) = (if ok then cache_put os (dns_key (j_host j) (j_port j)) (j_endpoints j) r t else (r, t))
          in Some (set_worker k (WReady i) r1, t1)
      | WReady i \<Rightarrow> Some (set_worker k (WSignal i) (update_job i (\<lambda>j. j\<lparr>j_ready := True\<rparr>) r), t)
      | WSignal i \<Rightarrow>
          let we = j_write_end (r_jobs r ! i) in
          Some (set_worker k (WClose i) r, EvWrite we [CHR 0x01] (os_write os t we [CHR 0x01]) # t)
      | WClose i \<Rightarrow>
          Some (set_worker k (WRelease i) (update_job i (\<lambda>j. j\<lparr>j_write_end := -1\<rparr>) r),
                fd_destroy (j_write_end (r_jobs r ! i)) t)
      | WRelease i \<Rightarrow> let (r1, t1) = release_job i r t in Some (set_worker k WWait r1, t1)
      | WExited \<Rightarrow> None)"

text \<open>\<^verbatim>\<open>shutdown\<close> up to the joins: the flag is set, the threads then run to their return.\<close>

definition close_resolver :: "resolver \<Rightarrow> resolver" where
  "close_resolver r = r\<lparr>r_closed := True\<rparr>"

definition joined :: "resolver \<Rightarrow> bool" where
  "joined r \<longleftrightarrow> list_all (\<lambda>w. w = WExited) (r_workers r)"


text \<open>The job a thread works on.\<close>

fun worker_job :: "worker \<Rightarrow> job_id option" where
  "worker_job (WLookup i) = Some i"
| "worker_job (WPublish i _ _ _) = Some i"
| "worker_job (WCachePut i _) = Some i"
| "worker_job (WReady i) = Some i"
| "worker_job (WSignal i) = Some i"
| "worker_job (WClose i) = Some i"
| "worker_job (WRelease i) = Some i"
| "worker_job _ = None"

end
