(* ===== verification/Resolver_Safety.thy ===== *)
theory Resolver_Safety
  imports Resolver
begin

text \<open>
  Correctness of the resolver: who owns the pipe descriptors and the jobs, what a ready job and a
  cached answer carry, and that threads answer the jobs they take and return after a shutdown.
\<close>

section \<open>Ownership of the pipe descriptors\<close>

text \<open>
  The open descriptors are those of the rest of the process, \<open>F\<close>, and the pipe ends of the jobs, and
  no descriptor has two owners.
\<close>

definition jfds :: "job \<Rightarrow> fd set" where
  "jfds j = {j_read_end j, j_write_end j} \<inter> {0..}"

definition jobs_own :: "fd set \<Rightarrow> resolver \<Rightarrow> trace \<Rightarrow> bool" where
  "jobs_own F r t \<longleftrightarrow>
     (\<forall>j\<in>set (r_jobs r). (j_read_end j \<noteq> j_write_end j \<or> j_read_end j < 0) \<and> F \<inter> jfds j = {}) \<and>
     (\<forall>i < length (r_jobs r). \<forall>k < length (r_jobs r). i \<noteq> k \<longrightarrow> jfds (r_jobs r ! i) \<inter> jfds (r_jobs r ! k) = {}) \<and>
     open_fds t = F \<union> \<Union> (jfds ` set (r_jobs r))"

text \<open>The fields a step may change without touching descriptors.\<close>

lemma jobs_own_cong:
  assumes "jobs_own F r t" and "map (\<lambda>j. (j_read_end j, j_write_end j)) (r_jobs r') = map (\<lambda>j. (j_read_end j, j_write_end j)) (r_jobs r)"
    and "open_fds t' = open_fds t"
  shows "jobs_own F r' t'"
proof -
  have len: "length (r_jobs r') = length (r_jobs r)" using assms(2) by (rule map_eq_imp_length_eq)
  have ends: "j_read_end (r_jobs r' ! i) = j_read_end (r_jobs r ! i)"
    "j_write_end (r_jobs r' ! i) = j_write_end (r_jobs r ! i)" if "i < length (r_jobs r)" for i
    using that arg_cong [OF assms(2), of "\<lambda>xs. xs ! i"] len by simp_all
  then have f: "jfds (r_jobs r' ! i) = jfds (r_jobs r ! i)" if "i < length (r_jobs r)" for i
    using that by (simp add: jfds_def)
  have "\<Union> (jfds ` set (r_jobs r')) = \<Union> (jfds ` set (r_jobs r))"
    using f len by (auto simp: set_conv_nth)
  with assms(1,3) f ends len show ?thesis unfolding jobs_own_def all_set_conv_all_nth by simp
qed

lemma jobs_own_open:
  assumes "jobs_own F r t" and "open_fds t' = insert fd (open_fds t)" and "fd \<notin> open_fds t"
  shows "jobs_own (insert fd F) r t'"
  using assms by (auto simp: jobs_own_def)

lemma jobs_own_close:
  assumes "jobs_own F r t" and "fd \<in> F"
  shows "jobs_own (F - {fd}) r (EvClose fd # t)"
  using assms by (auto simp: jobs_own_def)

lemma jobs_own_trace: "jobs_own F r t \<Longrightarrow> open_fds t' = open_fds t \<Longrightarrow> jobs_own F r t'"
  by (simp add: jobs_own_def)

lemma jobs_own_disjoint:
  assumes "jobs_own F r t" and "i < length (r_jobs r)"
  shows "F \<inter> jfds (r_jobs r ! i) = {}"
  using assms nth_mem [OF assms(2)] unfolding jobs_own_def by blast

lemma jobs_own_append:
  assumes "jobs_own F r t" and "jfds j \<inter> open_fds t = {}" and "j_read_end j \<noteq> j_write_end j \<or> j_read_end j < 0"
    and "open_fds t' = open_fds t \<union> jfds j"
  shows "jobs_own F (r\<lparr>r_jobs := r_jobs r @ [j]\<rparr>) t'"
proof -
  have o: "open_fds t = F \<union> \<Union> (jfds ` set (r_jobs r))" using assms(1) by (simp add: jobs_own_def)
  have new: "jfds (r_jobs r ! i) \<inter> jfds j = {}" if "i < length (r_jobs r)" for i
    using assms(2) o nth_mem [OF that] by blast
  have "jfds ((r_jobs r @ [j]) ! i) \<inter> jfds ((r_jobs r @ [j]) ! k) = {}"
    if ik: "i < Suc (length (r_jobs r))" "k < Suc (length (r_jobs r))" "i \<noteq> k" for i k
  proof -
    consider "i < length (r_jobs r)" "k < length (r_jobs r)" | "i = length (r_jobs r)" "k < length (r_jobs r)"
      | "k = length (r_jobs r)" "i < length (r_jobs r)"
      using ik by (metis less_SucE)
    then show ?thesis
      using assms(1) \<open>i \<noteq> k\<close> new [of i] new [of k] by cases (auto simp: jobs_own_def nth_append)
  qed
  moreover have "F \<inter> jfds j = {}" using assms(2) o by blast
  ultimately show ?thesis using assms(1,3,4) o by (simp add: jobs_own_def) blast
qed

text \<open>Shrinking the descriptors of one job while closing what it gives up.\<close>

lemma jobs_own_shrink:
  assumes own: "jobs_own F r t" and i: "i < length (r_jobs r)"
    and sub: "jfds j' \<subseteq> jfds (r_jobs r ! i)" and ne: "j_read_end j' \<noteq> j_write_end j' \<or> j_read_end j' < 0"
    and t': "open_fds t' = open_fds t - (jfds (r_jobs r ! i) - jfds j')"
  shows "jobs_own F (r\<lparr>r_jobs := (r_jobs r)[i := j']\<rparr>) t'"
proof -
  let ?js = "r_jobs r" and ?js' = "(r_jobs r)[i := j']"
  have sub': "jfds (?js' ! k) \<subseteq> jfds (?js ! k)" if "k < length ?js" for k
    using sub that by (cases "k = i") auto
  have dis: "jfds (?js ! k) \<inter> jfds (?js ! l) = {}" if "k < length ?js" "l < length ?js" "k \<noteq> l" for k l
    using own that unfolding jobs_own_def by blast
  have "jfds (?js' ! k) \<inter> jfds (?js' ! l) = {}" if "k < length ?js" "l < length ?js" "k \<noteq> l" for k l
    using dis [OF that] sub' that by blast
  moreover have "(j_read_end j \<noteq> j_write_end j \<or> j_read_end j < 0) \<and> F \<inter> jfds j = {}" if "j \<in> set ?js'" for j
  proof -
    have "F \<inter> jfds j' = {}" using jobs_own_disjoint [OF own i] sub by blast
    moreover have "j = j' \<or> j \<in> set ?js" using that set_update_subset_insert [of ?js i j'] by blast
    ultimately show ?thesis using own ne by (auto simp: jobs_own_def)
  qed
  moreover have "open_fds t' = F \<union> \<Union> (jfds ` set ?js')"
  proof -
    have "open_fds t = F \<union> (\<Union>k<length ?js. jfds (?js ! k))"
      using own by (auto simp: jobs_own_def set_conv_nth)
    moreover have "(\<Union>k<length ?js. jfds (?js' ! k)) = (\<Union>k<length ?js. jfds (?js ! k)) - (jfds (?js ! i) - jfds j')"
    proof (intro set_eqI iffI)
      fix x assume "x \<in> (\<Union>k<length ?js. jfds (?js' ! k))"
      then obtain k where k: "k < length ?js" "x \<in> jfds (?js' ! k)" by blast
      then show "x \<in> (\<Union>k<length ?js. jfds (?js ! k)) - (jfds (?js ! i) - jfds j')"
        using sub' [of k] dis [of k i] i by (cases "k = i") auto
    next
      fix x assume "x \<in> (\<Union>k<length ?js. jfds (?js ! k)) - (jfds (?js ! i) - jfds j')"
      then obtain k where k: "k < length ?js" "x \<in> jfds (?js ! k)" "x \<notin> jfds (?js ! i) - jfds j'" by blast
      then have "x \<in> jfds (?js' ! k)" using i by (cases "k = i") auto
      with k(1) show "x \<in> (\<Union>k<length ?js. jfds (?js' ! k))" by blast
    qed
    moreover have "\<Union> (jfds ` set ?js') = (\<Union>k<length ?js. jfds (?js' ! k))" by (auto simp: set_conv_nth)
    moreover have "F - (jfds (?js ! i) - jfds j') = F" using jobs_own_disjoint [OF own i] by blast
    ultimately show ?thesis by (simp add: t' Un_Diff)
  qed
  ultimately show ?thesis by (simp add: jobs_own_def)
qed

text \<open>The calls of the resolver and what they do to descriptors.\<close>

lemma fd_destroy_effect:
  "open_fds (fd_destroy fd t) = open_fds t - ({fd} \<inter> {0..})" "untouched (- ({fd} \<inter> {0..})) t (fd_destroy fd t)"
proof -
  show "open_fds (fd_destroy fd t) = open_fds t - ({fd} \<inter> {0..})"
    by (auto simp: fd_destroy_def fd_reset_def)
  show "untouched (- ({fd} \<inter> {0..})) t (fd_destroy fd t)"
  proof (cases "0 \<le> fd")
    case True
    then show ?thesis using untouched_close [of fd t] by (simp add: fd_destroy_def fd_reset_def)
  qed (simp add: fd_destroy_def fd_reset_def)
qed

lemma make_pipe_effect:
  assumes "fresh_descriptors os"
  obtains ok re we t' where "make_pipe os (-1) (-1) t = (ok, re, we, t')"
    and "({re, we} \<inter> {0..}) \<inter> open_fds t = {}" and "re \<noteq> we \<or> re < 0"
    and "open_fds t' = open_fds t \<union> ({re, we} \<inter> {0..})" and "untouched (open_fds t) t t'"
    and "ok \<Longrightarrow> 0 \<le> re \<and> 0 \<le> we"
proof (cases "os_pipe os t")
  case (Inl e)
  show ?thesis
    by (rule that [of False "-1" "-1" "EvPipe (Inl e) # t"]) (auto simp: make_pipe_def Inl untouched_quiet)
next
  case (Inr p)
  obtain a b where p: "p = (a, b)" by (cases p)
  have f: "0 \<le> a" "0 \<le> b" "a \<noteq> b" "a \<notin> open_fds t" "b \<notin> open_fds t"
    using assms Inr unfolding p fresh_descriptors_def by blast+
  let ?t1 = "EvPipe (Inr (a, b)) # t"
  obtain ok t' where nb: "set_nonblocking os a ?t1 = (ok, t')" by fastforce
  have q: "only_events quiet ?t1 t'" using set_nonblocking_quiet [of ?t1 os a] nb by simp
  have eq: "make_pipe os (-1) (-1) t = (ok, a, b, t')" by (simp add: make_pipe_def Inr p fd_reset_def nb)
  have "untouched (- {a, b}) t ?t1" using untouched_open [of "EvPipe (Inr (a, b))" t] by simp
  from untouched_trans [OF this only_events_quiet(2) [OF q, of UNIV]]
  have u: "untouched (open_fds t) t t'" by (rule untouched_mono) (use f in auto)
  show ?thesis
    by (rule that [OF eq _ _ _ u]) (use f only_events_quiet(1) [OF q] in auto)
qed

lemma release_job_own:
  assumes "jobs_own F r t" and "i < length (r_jobs r)"
  shows "jobs_own F (fst (release_job i r t)) (snd (release_job i r t))" and "untouched F t (snd (release_job i r t))"
proof -
  let ?j = "r_jobs r ! i" and ?dead = "(r_jobs r ! i)\<lparr>j_refs := 0, j_read_end := -1, j_write_end := -1\<rparr>"
  let ?t = "fd_destroy (j_read_end ?j) (fd_destroy (j_write_end ?j) t)"
  have "jfds ?dead = {}" by (auto simp: jfds_def)
  then have o: "open_fds ?t = open_fds t - (jfds ?j - jfds ?dead)" by (auto simp: fd_destroy_effect jfds_def)
  have own: "jobs_own F (r\<lparr>r_jobs := (r_jobs r)[i := ?dead]\<rparr>) ?t"
    by (rule jobs_own_shrink [OF assms _ _ o]) (auto simp: jfds_def)
  have "untouched (- ({j_write_end ?j} \<inter> {0..}) \<inter> - ({j_read_end ?j} \<inter> {0..})) t ?t"
    by (rule untouched_trans [OF fd_destroy_effect(2) fd_destroy_effect(2)])
  then have u: "untouched F t ?t"
    by (rule untouched_mono) (use jobs_own_disjoint [OF assms] in \<open>auto simp: jfds_def\<close>)
  have "map f ((r_jobs r)[i := ?j\<lparr>j_refs := n\<rparr>]) = map f (r_jobs r)"
    if "f = (\<lambda>j. (j_read_end j, j_write_end j))" for f and n
    using assms(2) that by (auto simp: list_eq_iff_nth_eq nth_list_update)
  then have same: "jobs_own F (update_job i (\<lambda>j. j\<lparr>j_refs := j_refs j - 1\<rparr>) r) t"
    by (intro jobs_own_cong [OF assms(1)]) (simp_all add: update_job_def)
  show "jobs_own F (fst (release_job i r t)) (snd (release_job i r t))"
    using own same by (simp add: release_job_def Let_def update_job_def)
  show "untouched F t (snd (release_job i r t))" using u by (simp add: release_job_def Let_def)
qed

lemma cache_get_effect:
  assumes "cache_get os key out r t = (hit, out', r', t')"
  shows "only_events quiet t t'" and "r' = r\<lparr>r_cache := r_cache r'\<rparr>" and "\<not> hit \<Longrightarrow> out' = out"
  using assms
  by (auto simp: cache_get_def Let_def split: option.splits prod.splits if_splits intro!: only_events_Cons)

lemma cache_put_effect:
  assumes "cache_put os key eps r t = (r', t')"
  shows "only_events quiet t t'" and "r' = r\<lparr>r_cache := r_cache r'\<rparr>"
  using assms by (auto simp: cache_put_def Let_def split: if_splits intro!: only_events_Cons)

lemma resolve_effect:
  assumes "resolve os host port out err t = (ok, out', err', t')"
  shows "only_events quiet t t'"
  using assms by (auto simp: resolve_def Let_def split: sum.splits if_splits intro!: only_events_Cons)

lemma do_lookup_effect:
  assumes "do_lookup os host port out err r t = (ok, out', err', r', t')"
  shows "only_events quiet t t'" and "r' = r\<lparr>r_lookups := r_lookups r + 1\<rparr>"
proof -
  let ?t1 = "if r_delay_ms r > 0 then EvSleep (r_delay_ms r) # t else t"
  have "only_events quiet t ?t1" by (auto intro: only_events_Cons)
  moreover have "only_events quiet ?t1 t'" and r': "r' = r\<lparr>r_lookups := r_lookups r + 1\<rparr>"
    using assms resolve_effect by (auto simp: do_lookup_def Let_def split: prod.splits)
  ultimately show "only_events quiet t t'" using only_events_trans by blast
  show "r' = r\<lparr>r_lookups := r_lookups r + 1\<rparr>" by (rule r')
qed

lemma resolve_blocking_effect:
  assumes "resolve_blocking os host port out err r t = (ok, out', err', r', t')"
  shows "only_events quiet t t'" and "r' = r\<lparr>r_cache := r_cache r', r_hits := r_hits r', r_lookups := r_lookups r'\<rparr>"
proof -
  obtain hit out1 r1 t1 where g: "cache_get os (dns_key host port) out r t = (hit, out1, r1, t1)"
    by (metis prod_cases4)
  obtain ok2 out2 err2 r2 t2 where l: "do_lookup os host port out1 err r1 t1 = (ok2, out2, err2, r2, t2)"
    by (metis prod_cases5)
  obtain r3 t3 where p: "cache_put os (dns_key host port) out2 r2 t2 = (r3, t3)" by fastforce
  note G = cache_get_effect(1,2) [OF g] and L = do_lookup_effect [OF l] and P = cache_put_effect [OF p]
  note q = only_events_trans [OF G(1) L(1)]
  show "only_events quiet t t'"
    using assms G(1) q only_events_trans [OF q P(1)]
    by (auto simp: resolve_blocking_def g l p split: if_splits)
  show "r' = r\<lparr>r_cache := r_cache r', r_hits := r_hits r', r_lookups := r_lookups r'\<rparr>"
  proof -
    obtain c1 c3 where c: "r1 = r\<lparr>r_cache := c1\<rparr>" "r3 = r2\<lparr>r_cache := c3\<rparr>" using G(2) P(2) by blast
    have "r' = r1\<lparr>r_hits := r_hits r1 + 1\<rparr> \<or> r' = r2 \<or> r' = r3"
      using assms by (auto simp: resolve_blocking_def g l p split: if_splits)
    then show ?thesis by (elim disjE) (simp_all add: c L(2))
  qed
qed

lemma jobs_own_fields [simp]:
  "jobs_own F (r\<lparr>r_queue := q\<rparr>) t = jobs_own F r t" "jobs_own F (r\<lparr>r_cache := c\<rparr>) t = jobs_own F r t"
  "jobs_own F (r\<lparr>r_hits := h\<rparr>) t = jobs_own F r t" "jobs_own F (r\<lparr>r_lookups := h\<rparr>) t = jobs_own F r t"
  "jobs_own F (r\<lparr>r_workers := ws\<rparr>) t = jobs_own F r t" "jobs_own F (r\<lparr>r_closed := b\<rparr>) t = jobs_own F r t"
  by (simp_all add: jobs_own_def)

lemma jobs_own_quiet: "jobs_own F r t \<Longrightarrow> only_events quiet t t' \<Longrightarrow> jobs_own F r t'"
  by (simp add: jobs_own_def only_events_quiet)

lemma update_job_ends:
  assumes "i < length (r_jobs r)" and "\<And>j. j_read_end (f j) = j_read_end j" and "\<And>j. j_write_end (f j) = j_write_end j"
  shows "map (\<lambda>j. (j_read_end j, j_write_end j)) (r_jobs (update_job i f r)) =
         map (\<lambda>j. (j_read_end j, j_write_end j)) (r_jobs r)"
  using assms by (auto simp: update_job_def list_eq_iff_nth_eq nth_list_update)

lemma jobs_own_update:
  assumes "jobs_own F r t" and "i < length (r_jobs r)" and "\<And>j. j_read_end (f j) = j_read_end j"
    and "\<And>j. j_write_end (f j) = j_write_end j"
  shows "jobs_own F (update_job i f r) t"
  by (rule jobs_own_cong [OF assms(1) update_job_ends [OF assms(2,3,4)] refl])

lemma release_opt_own:
  assumes "jobs_own F r t" and "\<And>i. jo = Some i \<Longrightarrow> i < length (r_jobs r)" and "release_opt jo r t = (r', t')"
  shows "jobs_own F r' t' \<and> untouched F t t'"
proof (cases jo)
  case None
  then show ?thesis using assms by (simp add: release_opt_def)
next
  case (Some i)
  then show ?thesis
    using release_job_own [OF assms(1), of i] assms(2,3) by (simp add: release_opt_def)
qed

lemma start_own:
  assumes "fresh_descriptors os" and own: "jobs_own F r t" and "\<And>i. jo = Some i \<Longrightarrow> i < length (r_jobs r)"
    and "start os host port out jo err r t = (st, out', jo', err', r', t')"
  shows "jobs_own F r' t' \<and> untouched F t t'"
proof -
  obtain hit out1 r1 t1 where g: "cache_get os (dns_key host port) out r t = (hit, out1, r1, t1)"
    by (metis prod_cases4)
  note G = cache_get_effect [OF g]
  have own1: "jobs_own F r1 t1"
    using jobs_own_quiet [OF own G(1)] by (metis G(2) jobs_own_fields(2))
  have jobs1: "r_jobs r1 = r_jobs r" by (subst G(2)) simp
  obtain ok re we t2 where p: "make_pipe os (-1) (-1) t1 = (ok, re, we, t2)"
    and e: "({re, we} \<inter> {0..}) \<inter> open_fds t1 = {}" "re \<noteq> we \<or> re < 0"
      "open_fds t2 = open_fds t1 \<union> ({re, we} \<inter> {0..})" "untouched (open_fds t1) t1 t2"
    by (rule make_pipe_effect [OF assms(1)])
  define j where "j = new_job host port re we 1"
  define r2 where "r2 = r1\<lparr>r_jobs := r_jobs r1 @ [j]\<rparr>"
  let ?n = "length (r_jobs r1)"
  have fds: "jfds j = {re, we} \<inter> {0..}" by (simp add: j_def new_job_def jfds_def)
  have own2: "jobs_own F r2 t2"
    unfolding r2_def by (rule jobs_own_append [OF own1]) (use e in \<open>simp_all add: fds\<close>, simp add: j_def new_job_def)
  have n: "?n < length (r_jobs r2)" by (simp add: r2_def)
  have F: "F \<subseteq> open_fds t1" using own1 by (auto simp: jobs_own_def)
  have u2: "untouched F t t2"
    using untouched_trans [OF only_events_quiet(2) [OF G(1), of UNIV] untouched_mono [OF e(4) F]] by simp
  obtain ra ta where a: "release_job ?n r2 t2 = (ra, ta)" by fastforce
  note A = release_job_own [OF own2 n, unfolded a fst_conv snd_conv]
  define r3 where "r3 = update_job ?n (\<lambda>j. j\<lparr>j_refs := j_refs j + 1\<rparr>) (r2\<lparr>r_queue := r_queue r2 @ [?n]\<rparr>)"
  have own3: "jobs_own F r3 t2" unfolding r3_def by (rule jobs_own_update) (use own2 n in simp_all)
  obtain rb tb where b: "release_opt jo r3 t2 = (rb, tb)" by fastforce
  have "jobs_own F rb tb \<and> untouched F t2 tb"
    by (rule release_opt_own [OF own3 _ b]) (use assms(3) jobs1 in \<open>fastforce simp: r3_def r2_def update_job_def\<close>)
  then have B: "jobs_own F rb tb \<and> untouched F t tb" using untouched_trans [OF u2] by fastforce
  have A': "jobs_own F ra ta \<and> untouched F t ta" using A untouched_trans [OF u2] by fastforce
  have "(r', t') \<in> {(r1\<lparr>r_hits := r_hits r1 + 1\<rparr>, t1), (ra, ta), (rb, tb)}"
    using assms(4) a b by (auto simp: start_def g p Let_def j_def r2_def r3_def split: if_splits)
  then show ?thesis using A' B own1 only_events_quiet(2) [OF G(1)] by auto
qed

lemma worker_step_own:
  assumes own: "jobs_own F r t" and "\<And>w i. w \<in> set (r_workers r) \<Longrightarrow> worker_job w = Some i \<Longrightarrow> i < length (r_jobs r)"
    and "worker_step os k r t = Some (r', t')"
  shows "jobs_own F r' t' \<and> untouched F t t'"
proof -
  have k: "k < length (r_workers r)" using assms(3) by (auto simp: worker_step_def split: if_splits)
  have i: "i < length (r_jobs r)" if "worker_job (r_workers r ! k) = Some i" for i
    using assms(2) nth_mem [OF k] that by blast
  show ?thesis
  proof (cases "r_workers r ! k")
    case WWait
    then show ?thesis using assms(3) k own
      by (auto simp: worker_step_def set_worker_def split: list.splits if_splits)
  next
    case (WLookup i)
    obtain ok eps err r1 t1 where l: "do_lookup os (j_host (r_jobs r ! i)) (j_port (r_jobs r ! i)) [] [] r t = (ok, eps, err, r1, t1)"
      by (metis prod_cases5)
    note L = do_lookup_effect [OF l]
    show ?thesis using assms(3) k jobs_own_quiet [OF own L(1)] only_events_quiet(2) [OF L(1)]
      by (auto simp: worker_step_def WLookup l set_worker_def L(2))
  next
    case (WPublish i ok eps err)
    then show ?thesis using assms(3) k jobs_own_update [OF own i] by (auto simp: worker_step_def set_worker_def)
  next
    case (WCachePut i ok)
    obtain r1 t1 where p: "cache_put os (dns_key (j_host (r_jobs r ! i)) (j_port (r_jobs r ! i))) (j_endpoints (r_jobs r ! i)) r t = (r1, t1)"
      by fastforce
    note P = cache_put_effect [OF p]
    have "jobs_own F r1 t1" by (subst P(2)) (simp add: jobs_own_quiet [OF own P(1)])
    then show ?thesis using assms(3) k own only_events_quiet(2) [OF P(1)]
      by (cases ok) (auto simp: worker_step_def WCachePut p set_worker_def)
  next
    case (WReady i)
    then show ?thesis using assms(3) k jobs_own_update [OF own i] by (auto simp: worker_step_def set_worker_def)
  next
    case (WSignal i)
    then show ?thesis using assms(3) k own
      by (auto simp: worker_step_def set_worker_def Let_def untouched_quiet elim!: jobs_own_trace)
  next
    case (WClose i)
    then have i: "i < length (r_jobs r)" using i by simp
    let ?j = "r_jobs r ! i" and ?d = "(r_jobs r ! i)\<lparr>j_write_end := -1\<rparr>"
    let ?t = "fd_destroy (j_write_end ?j) t"
    have ne: "j_read_end ?j \<noteq> j_write_end ?j \<or> j_read_end ?j < 0" using own nth_mem [OF i] unfolding jobs_own_def by blast
    have o: "open_fds ?t = open_fds t - (jfds ?j - jfds ?d)" using ne by (auto simp: fd_destroy_effect jfds_def)
    have "jobs_own F (r\<lparr>r_jobs := (r_jobs r)[i := ?d]\<rparr>) ?t"
      by (rule jobs_own_shrink [OF own i _ _ o]) (auto simp: jfds_def)
    moreover have "untouched F t ?t"
      by (rule untouched_mono [OF fd_destroy_effect(2)]) (use jobs_own_disjoint [OF own i] in \<open>auto simp: jfds_def\<close>)
    ultimately show ?thesis using assms(3) k by (auto simp: worker_step_def WClose set_worker_def update_job_def)
  next
    case (WRelease i)
    obtain r1 t1 where a: "release_job i r t = (r1, t1)" by fastforce
    have "i < length (r_jobs r)" using i WRelease by simp
    from release_job_own [OF own this] show ?thesis
      using assms(3) k by (auto simp: worker_step_def WRelease a set_worker_def)
  next
    case WExited
    then show ?thesis using assms(3) k by (simp add: worker_step_def)
  qed
qed


section \<open>Use counts and publication\<close>

text \<open>
  \<open>E i\<close> is the number of connections that hold job \<open>i\<close>. A job is in the queue or in the hands of at
  most one thread, its use count is the number of its owners, and a job nobody owns has no
  descriptors left.
\<close>

definition holders :: "resolver \<Rightarrow> job_id \<Rightarrow> nat" where
  "holders r i = length (filter (\<lambda>w. worker_job w = Some i) (r_workers r))"

definition claims :: "resolver \<Rightarrow> job_id \<Rightarrow> nat" where
  "claims r i = count_list (r_queue r) i + holders r i"

definition refs_ok :: "(job_id \<Rightarrow> nat) \<Rightarrow> resolver \<Rightarrow> bool" where
  "refs_ok E r \<longleftrightarrow>
     (\<forall>i. 0 < E i + claims r i \<longrightarrow> i < length (r_jobs r)) \<and>
     (\<forall>i < length (r_jobs r). claims r i \<le> 1 \<and> j_refs (r_jobs r ! i) = E i + claims r i \<and>
        (j_refs (r_jobs r ! i) = 0 \<longrightarrow> jfds (r_jobs r ! i) = {}))"

text \<open>The answer of the name service, as the list of usable candidates.\<close>

fun lookup_result :: "int + addrinfo list \<Rightarrow> bool \<times> endpoint list" where
  "lookup_result (Inl _) = (False, [])"
| "lookup_result (Inr res) =
     (let eps = map endpoint_of (filter (\<lambda>p. length (ai_addr p) \<le> 128) res) in (eps \<noteq> [], eps))"

definition looked_up :: "trace \<Rightarrow> string \<Rightarrow> string \<Rightarrow> bool \<Rightarrow> endpoint list \<Rightarrow> bool" where
  "looked_up t host port ok eps \<longleftrightarrow>
     (\<exists>res. EvGetaddrinfo (Some (c_str host)) (c_str port) False res \<in> set t \<and> (ok, eps) = lookup_result res)"

fun phase_ok :: "job list \<Rightarrow> trace \<Rightarrow> worker \<Rightarrow> bool" where
  "phase_ok js t (WLookup i) = (\<not> j_ready (js ! i))"
| "phase_ok js t (WPublish i ok eps err) =
     (\<not> j_ready (js ! i) \<and> looked_up t (j_host (js ! i)) (j_port (js ! i)) ok eps)"
| "phase_ok js t (WCachePut i ok) =
     (\<not> j_ready (js ! i) \<and> ok = j_ok (js ! i) \<and>
      looked_up t (j_host (js ! i)) (j_port (js ! i)) (j_ok (js ! i)) (j_endpoints (js ! i)))"
| "phase_ok js t (WReady i) =
     (\<not> j_ready (js ! i) \<and> looked_up t (j_host (js ! i)) (j_port (js ! i)) (j_ok (js ! i)) (j_endpoints (js ! i)))"
| "phase_ok js t (WSignal i) = j_ready (js ! i)"
| "phase_ok js t (WClose i) = j_ready (js ! i)"
| "phase_ok js t (WRelease i) = j_ready (js ! i)"
| "phase_ok js t _ = True"

definition published :: "(job_id \<Rightarrow> nat) \<Rightarrow> resolver \<Rightarrow> trace \<Rightarrow> bool" where
  "published E r t \<longleftrightarrow>
     (\<forall>i\<in>set (r_queue r). \<not> j_ready (r_jobs r ! i)) \<and>
     (\<forall>w\<in>set (r_workers r). phase_ok (r_jobs r) t w) \<and>
     (\<forall>i. 0 < E i \<and> j_ready (r_jobs r ! i) \<longrightarrow>
        looked_up t (j_host (r_jobs r ! i)) (j_port (r_jobs r ! i)) (j_ok (r_jobs r ! i)) (j_endpoints (r_jobs r ! i)))"

text \<open>A cached answer is one that the name service gave, and it expires a TTL after it was stored.\<close>

definition cache_sound :: "resolver \<Rightarrow> trace \<Rightarrow> bool" where
  "cache_sound r t \<longleftrightarrow>
     (\<forall>(key, eps, expires)\<in>set (r_cache r).
        (\<exists>host port. key = dns_key host port \<and> CHR '':'' \<notin> set port \<and> looked_up t host port True eps) \<and>
        (\<exists>now. EvClock now \<in> set t \<and> expires = now + r_ttl_s r * 10 ^ 9))"

definition ports_ok :: "resolver \<Rightarrow> bool" where
  "ports_ok r \<longleftrightarrow> (\<forall>j\<in>set (r_jobs r). CHR '':'' \<notin> set (j_port j))"

definition resolver_inv :: "(job_id \<Rightarrow> nat) \<Rightarrow> resolver \<Rightarrow> trace \<Rightarrow> bool" where
  "resolver_inv E r t \<longleftrightarrow> (\<forall>i. E i \<le> 1) \<and> refs_ok E r \<and> published E r t \<and> cache_sound r t \<and> ports_ok r"

lemma resolver_inv_new: "resolver_inv (\<lambda>_. 0) (new_resolver n ttl delay) t"
  by (auto simp: resolver_inv_def refs_ok_def published_def cache_sound_def new_resolver_def claims_def holders_def ports_ok_def)

lemma jobs_own_new: "jobs_own (open_fds t) (new_resolver n ttl delay) t"
  by (simp add: jobs_own_def new_resolver_def)

lemma looked_up_mono: "looked_up t host port ok eps \<Longrightarrow> set t \<subseteq> set t' \<Longrightarrow> looked_up t' host port ok eps"
  by (auto simp: looked_up_def)

lemma phase_ok_mono: "phase_ok js t w \<Longrightarrow> set t \<subseteq> set t' \<Longrightarrow> phase_ok js t' w"
  by (cases w) (auto intro: looked_up_mono)

lemma published_mono: "published E r t \<Longrightarrow> set t \<subseteq> set t' \<Longrightarrow> published E r t'"
  unfolding published_def by (meson looked_up_mono phase_ok_mono)

lemma cache_sound_mono:
  assumes "cache_sound r t" and "set t \<subseteq> set t'"
  shows "cache_sound r t'"
  unfolding cache_sound_def
proof (clarify)
  fix key eps expires assume "(key, eps, expires) \<in> set (r_cache r)"
  with assms(1) have "(\<exists>host port. key = dns_key host port \<and> CHR '':'' \<notin> set port \<and> looked_up t host port True eps) \<and>
      (\<exists>now. EvClock now \<in> set t \<and> expires = now + r_ttl_s r * 10 ^ 9)"
    by (fastforce simp: cache_sound_def)
  with assms(2) show "(\<exists>host port. key = dns_key host port \<and> CHR '':'' \<notin> set port \<and> looked_up t' host port True eps) \<and>
      (\<exists>now. EvClock now \<in> set t' \<and> expires = now + r_ttl_s r * 10 ^ 9)"
    by (blast intro: looked_up_mono)
qed

lemma only_events_set: "only_events P t t' \<Longrightarrow> set t \<subseteq> set t'"
  by (auto simp: only_events_def)

lemma length_filter_update:
  "k < length xs \<Longrightarrow>
   length (filter P (xs[k := x])) + (if P (xs ! k) then 1 else 0) = length (filter P xs) + (if P x then 1 else 0)"
proof (induction xs arbitrary: k)
  case (Cons y ys)
  then show ?case by (cases k) auto
qed simp

lemma holders_set_worker:
  assumes "k < length (r_workers r)"
  shows "holders (set_worker k w r) i + (if worker_job (r_workers r ! k) = Some i then 1 else 0) =
         holders r i + (if worker_job w = Some i then 1 else 0)"
  unfolding holders_def set_worker_def
  using length_filter_update [OF assms, of "\<lambda>w. worker_job w = Some i" w] by simp

lemma refs_exclusive:
  assumes "refs_ok E r" and k: "k < length (r_workers r)" "worker_job (r_workers r ! k) = Some i"
  shows "i < length (r_jobs r)" and "i \<notin> set (r_queue r)" and "holders r i = 1" and "claims r i = 1"
    and "l < length (r_workers r) \<Longrightarrow> worker_job (r_workers r ! l) = Some i \<Longrightarrow> l = k"
proof -
  have h: "holders (set_worker k WWait r) i + 1 = holders r i"
    using holders_set_worker [OF k(1), of WWait i] k(2) by simp
  then have "0 < claims r i" by (simp add: claims_def)
  then show len: "i < length (r_jobs r)" using assms(1) by (auto simp: refs_ok_def)
  have "claims r i \<le> 1" using assms(1) len by (simp add: refs_ok_def)
  with h show h1: "holders r i = 1" and "claims r i = 1" by (simp_all add: claims_def)
  with \<open>claims r i \<le> 1\<close> show "i \<notin> set (r_queue r)" by (simp add: claims_def count_list_0_iff)
  show "l = k" if "l < length (r_workers r)" "worker_job (r_workers r ! l) = Some i"
  proof (rule ccontr)
    assume "l \<noteq> k"
    let ?ws = "(r_workers r)[k := WWait]"
    have "?ws ! l \<in> set ?ws" by (rule nth_mem) (simp add: that)
    moreover have "?ws ! l = r_workers r ! l" using \<open>l \<noteq> k\<close> by simp
    ultimately have "r_workers r ! l \<in> set (filter (\<lambda>w. worker_job w = Some i) ?ws)" using that(2) by simp
    then have "0 < holders (set_worker k WWait r) i"
      using length_pos_if_in_set by (fastforce simp: holders_def set_worker_def simp del: length_greater_0_conv)
    with h h1 show False by simp
  qed
qed

text \<open>How the steps change the counts.\<close>

lemma refs_ok_same:
  assumes "refs_ok E r" and "r_jobs r' = r_jobs r" and "\<And>i. claims r' i = claims r i"
  shows "refs_ok E r'"
  using assms by (simp add: refs_ok_def)

lemma refs_ok_update:
  assumes "refs_ok E r" and "r_jobs r' = (r_jobs r)[i := j']" and "\<And>i. claims r' i = claims r i"
    and "j_refs j' = j_refs (r_jobs r ! i)" and "jfds j' \<subseteq> jfds (r_jobs r ! i)"
  shows "refs_ok E r'"
proof -
  have "j_refs (r_jobs r' ! k) = j_refs (r_jobs r ! k)" "jfds (r_jobs r' ! k) \<subseteq> jfds (r_jobs r ! k)"
    if "k < length (r_jobs r)" for k
    using assms(2,4,5) that by (cases "k = i"; simp)+
  with assms(1-3) show ?thesis by (fastforce simp: refs_ok_def)
qed

lemma refs_ok_drop:
  assumes ok: "refs_ok E r" and i: "0 < E i + claims r i"
    and jobs: "r_jobs r' = r_jobs (fst (release_job i r t))"
    and cnt: "\<And>k. E' k + claims r' k + (if k = i then 1 else 0) = E k + claims r k" "\<And>k. claims r' k \<le> claims r k"
  shows "refs_ok E' r'"
proof -
  have i_len: "i < length (r_jobs r)" using conjunct1 [OF ok [unfolded refs_ok_def], rule_format, OF i] .
  have len: "length (r_jobs r') = length (r_jobs r)" by (simp add: jobs release_job_def update_job_def Let_def)
  have refs: "j_refs (r_jobs r ! k) = E k + claims r k" if "k < length (r_jobs r)" for k
    using ok that by (simp add: refs_ok_def)
  have other: "r_jobs r' ! k = r_jobs r ! k" if "k \<noteq> i" for k
    using that by (simp add: jobs release_job_def update_job_def Let_def)
  have drop: "j_refs (r_jobs r' ! i) + 1 = j_refs (r_jobs r ! i)"
    "j_refs (r_jobs r' ! i) = 0 \<Longrightarrow> jfds (r_jobs r' ! i) = {}"
    using i i_len refs [OF i_len] by (auto simp: jobs release_job_def update_job_def Let_def jfds_def)
  have "claims r' k \<le> 1 \<and> j_refs (r_jobs r' ! k) = E' k + claims r' k \<and>
        (j_refs (r_jobs r' ! k) = 0 \<longrightarrow> jfds (r_jobs r' ! k) = {})" if "k < length (r_jobs r)" for k
  proof (cases "k = i")
    case True
    have "claims r i \<le> 1" using ok i_len by (simp add: refs_ok_def)
    then have "claims r' i \<le> 1" "j_refs (r_jobs r' ! i) = E' i + claims r' i"
      using refs [OF i_len] cnt(1) [of i] cnt(2) [of i] drop(1) by simp_all
    with drop(2) True show ?thesis by simp
  next
    case False
    have "claims r k \<le> 1" "j_refs (r_jobs r ! k) = 0 \<longrightarrow> jfds (r_jobs r ! k) = {}"
      using ok that by (simp_all add: refs_ok_def)
    moreover have "E' k + claims r' k = E k + claims r k" using cnt(1) [of k] False by simp
    moreover have "claims r' k \<le> claims r k" by (rule cnt(2))
    ultimately show ?thesis using other [OF False] refs [OF that] by simp
  qed
  moreover have "k < length (r_jobs r)" if "0 < E' k + claims r' k" for k
  proof -
    have "0 < E k + claims r k" using that cnt(1) [of k] by linarith
    then show ?thesis by (rule conjunct1 [OF ok [unfolded refs_ok_def], rule_format])
  qed
  ultimately show ?thesis unfolding refs_ok_def len by blast
qed

lemma claims_set_worker:
  assumes "k < length (r_workers r)"
  shows "claims (set_worker k w r) i + (if worker_job (r_workers r ! k) = Some i then 1 else 0) =
         claims r i + (if worker_job w = Some i then 1 else 0)"
  using holders_set_worker [OF assms, of w i] by (simp add: claims_def set_worker_def)

lemma claims_update_job [simp]: "claims (update_job i f r) k = claims r k"
  by (simp add: claims_def holders_def update_job_def)

lemma claims_release_job [simp]: "claims (fst (release_job i r t)) k = claims r k"
  by (simp add: release_job_def Let_def)

lemma release_job_fields [simp]:
  "r_workers (fst (release_job i r t)) = r_workers r" "r_queue (fst (release_job i r t)) = r_queue r"
  "r_cache (fst (release_job i r t)) = r_cache r" "r_ttl_s (fst (release_job i r t)) = r_ttl_s r"
  "length (r_jobs (fst (release_job i r t))) = length (r_jobs r)" "r_closed (fst (release_job i r t)) = r_closed r"
  by (simp_all add: release_job_def Let_def update_job_def)

text \<open>The steps of a thread, one by one.\<close>

lemma resolve_looked_up:
  assumes "resolve os host port [] err t = (ok, eps, err', t')"
  shows "looked_up t' host port ok eps"
proof -
  let ?r = "os_getaddrinfo os t (Some (c_str host)) (c_str port) False"
  have "EvGetaddrinfo (Some (c_str host)) (c_str port) False ?r \<in> set t'" "(ok, eps) = lookup_result ?r"
    using assms by (auto simp: resolve_def Let_def split: sum.splits if_splits)
  then show ?thesis unfolding looked_up_def by blast
qed

lemma do_lookup_looked_up:
  assumes "do_lookup os host port [] err r t = (ok, eps, err', r', t')"
  shows "looked_up t' host port ok eps"
  using assms resolve_looked_up by (fastforce simp: do_lookup_def Let_def split: prod.splits)

lemma worker_step_cases:
  assumes "worker_step os k r t = Some (r', t')"
  obtains (exit) "r_workers r ! k = WWait" "r_closed r" "r_queue r = []" "r' = set_worker k WExited r" "t' = t"
  | (dequeue) i q where "r_workers r ! k = WWait" "r_queue r = i # q"
      "r' = set_worker k (WLookup i) (r\<lparr>r_queue := q\<rparr>)" "t' = t"
  | (lookup) i ok eps err where "r_workers r ! k = WLookup i"
      "r' = set_worker k (WPublish i ok eps err) (r\<lparr>r_lookups := r_lookups r + 1\<rparr>)"
      "looked_up t' (j_host (r_jobs r ! i)) (j_port (r_jobs r ! i)) ok eps" "only_events quiet t t'"
  | (publish) i ok eps err where "r_workers r ! k = WPublish i ok eps err" "t' = t"
      "r' = set_worker k (WCachePut i ok) (update_job i (\<lambda>j. j\<lparr>j_endpoints := eps, j_err := err, j_ok := ok\<rparr>) r)"
  | (store) i ok r1 where "r_workers r ! k = WCachePut i ok" "r' = set_worker k (WReady i) r1"
      "(r1, t') = (if ok then cache_put os (dns_key (j_host (r_jobs r ! i)) (j_port (r_jobs r ! i))) (j_endpoints (r_jobs r ! i)) r t else (r, t))"
      "r1 = r\<lparr>r_cache := r_cache r1\<rparr>" "only_events quiet t t'"
  | (ready) i where "r_workers r ! k = WReady i" "t' = t"
      "r' = set_worker k (WSignal i) (update_job i (\<lambda>j. j\<lparr>j_ready := True\<rparr>) r)"
  | (signal) i res where "r_workers r ! k = WSignal i" "r' = set_worker k (WClose i) r"
      "t' = EvWrite (j_write_end (r_jobs r ! i)) [CHR 0x01] res # t"
  | (shut) i where "r_workers r ! k = WClose i" "t' = fd_destroy (j_write_end (r_jobs r ! i)) t"
      "r' = set_worker k (WRelease i) (update_job i (\<lambda>j. j\<lparr>j_write_end := -1\<rparr>) r)"
  | (release) i where "r_workers r ! k = WRelease i" "r' = set_worker k WWait (fst (release_job i r t))"
      "t' = snd (release_job i r t)"
proof -
  have k: "k < length (r_workers r)" using assms by (auto simp: worker_step_def split: if_splits)
  show ?thesis
  proof (cases "r_workers r ! k")
    case WWait
    then show ?thesis using assms k exit dequeue by (auto simp: worker_step_def split: list.splits if_splits)
  next
    case (WLookup i)
    obtain ok eps err r1 t1 where l: "do_lookup os (j_host (r_jobs r ! i)) (j_port (r_jobs r ! i)) [] [] r t = (ok, eps, err, r1, t1)"
      by (metis prod_cases5)
    have "r' = set_worker k (WPublish i ok eps err) (r\<lparr>r_lookups := r_lookups r + 1\<rparr>)" "t' = t1"
      using assms k by (simp_all add: worker_step_def WLookup l do_lookup_effect(2) [OF l])
    with lookup [OF WLookup] do_lookup_looked_up [OF l] do_lookup_effect(1) [OF l] show ?thesis by blast
  next
    case (WPublish i ok eps err)
    then show ?thesis using assms k publish by (simp add: worker_step_def)
  next
    case (WCachePut i ok)
    obtain r1 t1 where p: "(r1, t1) = (if ok then cache_put os (dns_key (j_host (r_jobs r ! i)) (j_port (r_jobs r ! i))) (j_endpoints (r_jobs r ! i)) r t else (r, t))"
      by (metis surj_pair)
    have "r' = set_worker k (WReady i) r1" "t' = t1"
      using assms k p [symmetric] by (simp_all add: worker_step_def WCachePut Let_def)
    moreover have "only_events quiet t t1" "r1 = r\<lparr>r_cache := r_cache r1\<rparr>"
      using p cache_put_effect by (cases ok; simp; metis)+
    ultimately show ?thesis using store [OF WCachePut, of r1] p by simp
  next
    case (WReady i)
    then show ?thesis using assms k ready by (simp add: worker_step_def)
  next
    case (WSignal i)
    then show ?thesis using assms k signal by (auto simp: worker_step_def Let_def)
  next
    case (WClose i)
    then show ?thesis using assms k shut by (simp add: worker_step_def)
  next
    case (WRelease i)
    then show ?thesis using assms k release by (auto simp: worker_step_def split: prod.splits)
  next
    case WExited
    then show ?thesis using assms k by (simp add: worker_step_def)
  qed
qed

lemma worker_step_index: "worker_step os k r t = Some (r', t') \<Longrightarrow> k < length (r_workers r)"
  by (auto simp: worker_step_def split: if_splits)

lemma refs_ok_set_worker:
  assumes "refs_ok E r" and "k < length (r_workers r)" and "worker_job w = worker_job (r_workers r ! k)"
  shows "refs_ok E (set_worker k w r)"
  using claims_set_worker [OF assms(2), of w] assms(3)
  by (intro refs_ok_same [OF assms(1)]) (simp_all add: set_worker_def)

lemma refs_ok_update_job:
  assumes "refs_ok E r" and "\<And>j. j_refs (f j) = j_refs j" and "\<And>j. jfds (f j) \<subseteq> jfds j"
  shows "refs_ok E (update_job i f r)"
  by (rule refs_ok_update [OF assms(1), of _ i "f (r_jobs r ! i)"]) (simp_all add: assms(2,3), simp add: update_job_def)

lemma refs_ok_fields [simp]:
  "refs_ok E (r\<lparr>r_cache := c\<rparr>) = refs_ok E r" "refs_ok E (r\<lparr>r_lookups := n\<rparr>) = refs_ok E r"
  "refs_ok E (r\<lparr>r_hits := n\<rparr>) = refs_ok E r" "refs_ok E (r\<lparr>r_closed := b\<rparr>) = refs_ok E r"
  by (simp_all add: refs_ok_def claims_def holders_def)

lemma update_job_fields [simp]:
  "r_workers (update_job i f r) = r_workers r" "r_queue (update_job i f r) = r_queue r"
  "r_cache (update_job i f r) = r_cache r" "r_ttl_s (update_job i f r) = r_ttl_s r"
  "length (r_jobs (update_job i f r)) = length (r_jobs r)"
  by (simp_all add: update_job_def)

lemma set_worker_fields [simp]:
  "r_jobs (set_worker k w r) = r_jobs r" "r_queue (set_worker k w r) = r_queue r"
  "r_cache (set_worker k w r) = r_cache r" "r_ttl_s (set_worker k w r) = r_ttl_s r"
  "r_workers (set_worker k w r) = (r_workers r)[k := w]"
  by (simp_all add: set_worker_def)

lemma refs_ok_worker_step:
  assumes ok: "refs_ok E r" and step: "worker_step os k r t = Some (r', t')"
  shows "refs_ok E r'"
proof -
  note k = worker_step_index [OF step]
  note sw = refs_ok_set_worker
  from step show ?thesis
  proof (cases rule: worker_step_cases)
    case (dequeue i q)
    have "claims r' n = claims r n" for n
      using claims_set_worker [of k "r\<lparr>r_queue := q\<rparr>" "WLookup i" n] k dequeue(1,2)
      by (auto simp: dequeue(3) claims_def holders_def)
    then show ?thesis by (intro refs_ok_same [OF ok]) (simp_all add: dequeue(3))
  next
    case (store i okk r1)
    have "refs_ok E r1" by (subst store(4)) (simp add: ok)
    moreover have "r_workers r1 = r_workers r" by (subst store(4)) simp
    ultimately show ?thesis using k store(1) by (auto simp: store(2) intro!: sw)
  next
    case (release i)
    have c: "claims r' n + (if n = i then 1 else 0) = claims r n" for n
      using claims_set_worker [of k "fst (release_job i r t)" WWait n] k by (auto simp: release)
    show ?thesis
    proof (rule refs_ok_drop [OF ok, of i r' t])
      show "0 < E i + claims r i" using c [of i] by simp
      show "r_jobs r' = r_jobs (fst (release_job i r t))" by (simp add: release(2))
      show "E n + claims r' n + (if n = i then 1 else 0) = E n + claims r n" for n using c [of n] by simp
      show "claims r' n \<le> claims r n" for n using c [of n] by simp
    qed
  next
    case exit
    then show ?thesis using sw [OF ok k, of WExited] by simp
  next
    case (lookup i okk eps err)
    then show ?thesis using sw [of E "r\<lparr>r_lookups := r_lookups r + 1\<rparr>" k] ok k by simp
  next
    case (publish i okk eps err)
    then show ?thesis
      using sw [OF refs_ok_update_job [OF ok, of "\<lambda>j. j\<lparr>j_endpoints := eps, j_err := err, j_ok := okk\<rparr>" i]] k
      by (simp add: jfds_def)
  next
    case (ready i)
    then show ?thesis
      using sw [OF refs_ok_update_job [OF ok, of "\<lambda>j. j\<lparr>j_ready := True\<rparr>" i]] k by (simp add: jfds_def)
  next
    case (signal i res)
    then show ?thesis using sw [OF ok k, of "WClose i"] by simp
  next
    case (shut i)
    have "jfds (j\<lparr>j_write_end := -1\<rparr>) \<subseteq> jfds j" for j :: job by (auto simp: jfds_def)
    then show ?thesis
      using sw [OF refs_ok_update_job [OF ok, of "\<lambda>j. j\<lparr>j_write_end := -1\<rparr>" i]] k shut by simp
  qed
qed

lemma phase_ok_other: "worker_job w \<noteq> Some i \<Longrightarrow> phase_ok (js[i := j]) t w = phase_ok js t w"
  by (cases w) auto

lemma published_set_worker:
  assumes "published E r t" and "phase_ok (r_jobs r) t w"
  shows "published E (set_worker k w r) t"
  using assms set_update_subset_insert [of "r_workers r" k w] by (auto simp: published_def)

lemma published_update:
  assumes pub: "published E r t" and q: "i \<notin> set (r_queue r)" and i: "i < length (r_jobs r)"
    and others: "\<And>l. l < length (r_workers r) \<Longrightarrow> l \<noteq> k \<Longrightarrow> worker_job (r_workers r ! l) \<noteq> Some i"
    and w: "phase_ok ((r_jobs r)[i := j']) t w"
    and j': "0 < E i \<Longrightarrow> j_ready j' \<Longrightarrow> looked_up t (j_host j') (j_port j') (j_ok j') (j_endpoints j')"
  shows "published E (set_worker k w (r\<lparr>r_jobs := (r_jobs r)[i := j']\<rparr>)) t"
proof -
  have "phase_ok ((r_jobs r)[i := j']) t v" if v: "v \<in> set ((r_workers r)[k := w])" for v
  proof -
    obtain l where l: "l < length (r_workers r)" "v = (r_workers r)[k := w] ! l"
      using v by (auto simp: in_set_conv_nth)
    show ?thesis
    proof (cases "l = k")
      case True
      then show ?thesis using l w by simp
    next
      case False
      then have "v = r_workers r ! l" using l by simp
      moreover have "phase_ok (r_jobs r) t (r_workers r ! l)"
        using pub nth_mem [OF l(1)] by (auto simp: published_def)
      ultimately show ?thesis using phase_ok_other [OF others [OF l(1) False]] by simp
    qed
  qed
  moreover have "\<not> j_ready ((r_jobs r)[i := j'] ! n)" if "n \<in> set (r_queue r)" for n
    using pub q that by (cases "n = i") (auto simp: published_def)
  ultimately show ?thesis
    using pub i j' by (auto simp: published_def nth_list_update)
qed

lemma published_fields [simp]:
  "published E (r\<lparr>r_cache := c\<rparr>) t = published E r t" "published E (r\<lparr>r_lookups := n\<rparr>) t = published E r t"
  "published E (r\<lparr>r_hits := n\<rparr>) t = published E r t" "published E (r\<lparr>r_closed := b\<rparr>) t = published E r t"
  by (simp_all add: published_def)

lemma worker_step_extends: "worker_step os k r t = Some (r', t') \<Longrightarrow> set t \<subseteq> set t'"
  by (erule worker_step_cases)
     (auto dest: only_events_set simp: fd_destroy_def fd_reset_def release_job_def Let_def)

lemma published_worker_step:
  assumes ok: "refs_ok E r" and pub: "published E r t" and step: "worker_step os k r t = Some (r', t')"
  shows "published E r' t'"
proof -
  note k = worker_step_index [OF step]
  have ph: "phase_ok (r_jobs r) t (r_workers r ! k)" using pub nth_mem [OF k] by (auto simp: published_def)
  note mono = published_mono [OF _ worker_step_extends [OF step]]
  have upd: "published E (set_worker k w (r\<lparr>r_jobs := (r_jobs r)[i := j']\<rparr>)) t"
    if "worker_job (r_workers r ! k) = Some i" "phase_ok ((r_jobs r)[i := j']) t w"
      "0 < E i \<Longrightarrow> j_ready j' \<Longrightarrow> looked_up t (j_host j') (j_port j') (j_ok j') (j_endpoints j')" for w i j'
    using refs_exclusive [OF ok k that(1)] that by (intro published_update [OF pub]) auto
  have held: "looked_up t (j_host (r_jobs r ! i)) (j_port (r_jobs r ! i)) (j_ok (r_jobs r ! i)) (j_endpoints (r_jobs r ! i))"
    if "0 < E i" "j_ready (r_jobs r ! i)" for i
    using pub that by (auto simp: published_def)
  have len: "i < length (r_jobs r)" if "worker_job (r_workers r ! k) = Some i" for i
    by (rule refs_exclusive(1) [OF ok k that])
  from step show ?thesis
  proof (cases rule: worker_step_cases)
    case exit
    then show ?thesis using published_set_worker [OF pub] by simp
  next
    case (dequeue i q)
    then show ?thesis
      using pub published_set_worker [of E "r\<lparr>r_queue := q\<rparr>" t "WLookup i"] by (simp add: published_def)
  next
    case (lookup i okk eps err)
    have "published E (r\<lparr>r_lookups := r_lookups r + 1\<rparr>) t'" using mono [OF pub] by simp
    then show ?thesis unfolding lookup(2) using lookup(1,3) ph by (intro published_set_worker) simp_all
  next
    case (publish i okk eps err)
    then show ?thesis using ph len upd [of i] by (simp add: update_job_def)
  next
    case (store i okk r1)
    have "published E r1 t'" "r_jobs r1 = r_jobs r" by (subst store(4), simp add: mono [OF pub])+
    then show ?thesis unfolding store(2) using ph store(1)
      by (intro published_set_worker) (auto intro: looked_up_mono [OF _ worker_step_extends [OF step]])
  next
    case (ready i)
    then show ?thesis using ph len upd [of i] by (simp add: update_job_def)
  next
    case (signal i res)
    then show ?thesis using ph published_set_worker [OF mono [OF pub]] by simp
  next
    case (shut i)
    have "published E r' t" using ph len upd [of i] held [of i] shut by (simp add: update_job_def)
    then show ?thesis by (rule mono)
  next
    case (release i)
    have "published E r' t"
      using ph upd [of i _ WWait] held [of i] release by (simp add: release_job_def update_job_def Let_def)
    then show ?thesis by (rule mono)
  qed
qed

lemma cache_sound_update:
  assumes "cache_sound r t" and "looked_up t' host port True eps" and "cache_put os (dns_key host port) eps r t' = (r', t'')"
    and "set t \<subseteq> set t'" and "CHR '':'' \<notin> set port"
  shows "cache_sound r' t''"
proof (cases "r_ttl_s r \<le> 0")
  case True
  then show ?thesis using assms cache_sound_mono by (auto simp: cache_put_def)
next
  case False
  let ?now = "os_clock os t'"
  have r': "r' = r\<lparr>r_cache := AList.update (dns_key host port) (eps, ?now + r_ttl_s r * 10 ^ 9) (r_cache r)\<rparr>"
    and t'': "t'' = EvClock ?now # t'"
    using assms(3) False by (simp_all add: cache_put_def Let_def)
  have old: "cache_sound r t''" using assms(1,4) by (rule cache_sound_mono [OF _ subset_trans]) (auto simp: t'')
  have new: "looked_up t'' host port True eps" using assms(2) by (rule looked_up_mono) (auto simp: t'')
  have up: "set (AList.update k v xs) \<subseteq> insert (k, v) (set xs)"
    for k :: string and v :: "endpoint list \<times> int" and xs by (induction xs) auto
  have c: "r_cache r' = AList.update (dns_key host port) (eps, ?now + r_ttl_s r * 10 ^ 9) (r_cache r)"
    and ttl: "r_ttl_s r' = r_ttl_s r" by (simp_all add: r')
  show ?thesis
    unfolding cache_sound_def ttl
  proof (rule ballI)
    fix x assume "x \<in> set (r_cache r')"
    then consider "x = (dns_key host port, eps, ?now + r_ttl_s r * 10 ^ 9)" | "x \<in> set (r_cache r)"
      unfolding c using up by blast
    then show "case x of (key, eps, expires) \<Rightarrow>
        (\<exists>host port. key = dns_key host port \<and> CHR '':'' \<notin> set port \<and> looked_up t'' host port True eps) \<and>
        (\<exists>now. EvClock now \<in> set t'' \<and> expires = now + r_ttl_s r * 10 ^ 9)"
    proof cases
      case 1
      then show ?thesis using new assms(5) by (auto simp: t'')
    next
      case 2
      then show ?thesis using old unfolding cache_sound_def by blast
    qed
  qed
qed

lemma cache_sound_fields [simp]:
  "cache_sound (r\<lparr>r_jobs := js\<rparr>) t = cache_sound r t" "cache_sound (r\<lparr>r_queue := q\<rparr>) t = cache_sound r t"
  "cache_sound (r\<lparr>r_workers := ws\<rparr>) t = cache_sound r t" "cache_sound (r\<lparr>r_lookups := n\<rparr>) t = cache_sound r t"
  "cache_sound (r\<lparr>r_hits := n\<rparr>) t = cache_sound r t" "cache_sound (r\<lparr>r_closed := b\<rparr>) t = cache_sound r t"
  "cache_sound (update_job i f r) t = cache_sound r t" "cache_sound (set_worker k w r) t = cache_sound r t"
  "cache_sound (fst (release_job i r t1)) t = cache_sound r t"
  by (simp_all add: cache_sound_def set_worker_def)

lemma cache_sound_worker_step:
  assumes snd: "cache_sound r t" and pub: "published E r t" and ports: "ports_ok r" and ok: "refs_ok E r"
    and step: "worker_step os k r t = Some (r', t')"
  shows "cache_sound r' t'"
proof -
  have ph: "phase_ok (r_jobs r) t (r_workers r ! k)"
    using pub nth_mem [OF worker_step_index [OF step]] by (auto simp: published_def)
  note mono = cache_sound_mono [OF snd worker_step_extends [OF step]]
  from step show ?thesis
  proof (cases rule: worker_step_cases)
    case (store i okk r1)
    have "cache_sound r1 t'"
    proof (cases okk)
      case True
      then have "looked_up t (j_host (r_jobs r ! i)) (j_port (r_jobs r ! i)) True (j_endpoints (r_jobs r ! i))"
        using ph store(1) by auto
      moreover have "i < length (r_jobs r)"
        using refs_exclusive(1) [OF ok worker_step_index [OF step], of i] store(1) by simp
      then have "CHR '':'' \<notin> set (j_port (r_jobs r ! i))" using ports by (simp add: ports_ok_def)
      ultimately show ?thesis using cache_sound_update [OF snd _ _ subset_refl] store(3) True by simp
    next
      case False
      then show ?thesis using store(3) snd by simp
    qed
    then show ?thesis by (simp add: store(2))
  qed (use mono in simp_all)
qed

lemma map_update_same [simp]: "(map g xs)[i := g (xs ! i)] = map g xs"
  by (metis list_update_id map_update)

lemma ports_ok_map: "ports_ok r \<longleftrightarrow> (\<forall>p\<in>set (map j_port (r_jobs r)). CHR '':'' \<notin> set p)"
  by (simp add: ports_ok_def)

lemma worker_step_ports:
  assumes "worker_step os k r t = Some (r', t')"
  shows "map j_port (r_jobs r') = map j_port (r_jobs r)"
  using assms
proof (cases rule: worker_step_cases)
  case (store i okk r1)
  have "r_jobs r1 = r_jobs r" by (subst store(4)) simp
  then show ?thesis by (simp add: store(2))
qed (simp_all add: update_job_def map_update release_job_def Let_def)

lemma ports_ok_worker_step: "ports_ok r \<Longrightarrow> worker_step os k r t = Some (r', t') \<Longrightarrow> ports_ok r'"
  unfolding ports_ok_map by (simp only: worker_step_ports)

lemma resolver_inv_worker_step:
  assumes "resolver_inv E r t" and "worker_step os k r t = Some (r', t')"
  shows "resolver_inv E r' t'"
  using assms refs_ok_worker_step published_worker_step cache_sound_worker_step ports_ok_worker_step
  by (auto simp: resolver_inv_def)

text \<open>What the calls of a connection do to the invariant.\<close>

lemma dns_key_inj:
  assumes "dns_key h1 p1 = dns_key h2 p2" and "CHR '':'' \<notin> set p1" and "CHR '':'' \<notin> set p2"
  shows "h1 = h2 \<and> p1 = p2"
proof -
  have "rev p1 @ CHR '':'' # rev h1 = rev p2 @ CHR '':'' # rev h2"
    using arg_cong [OF assms(1), of rev] by (simp add: dns_key_def)
  moreover have "a = b \<and> u = v" if "a @ x # u = b @ x # v" "x \<notin> set a" "x \<notin> set b" for a b u v :: string and x
    using that by (induction a arbitrary: b) (case_tac b; auto)+
  ultimately show ?thesis using assms(2,3) by (metis rev_rev_ident set_rev)
qed

lemma cache_get_sound:
  assumes "cache_sound r t" and "CHR '':'' \<notin> set port"
    and "cache_get os (dns_key host port) out r t = (hit, out', r', t')"
  shows "cache_sound r' t'"
    and "hit \<Longrightarrow> looked_up t' host port True out' \<and>
      (\<exists>stored now. EvClock stored \<in> set t \<and> t' = EvClock now # t \<and> now < stored + r_ttl_s r * 10 ^ 9)"
proof -
  have e: "set t \<subseteq> set t'" "r' = r\<lparr>r_cache := r_cache r'\<rparr>"
    using cache_get_effect(1,2) [OF assms(3)] only_events_set by blast+
  have sub: "set (r_cache r') \<subseteq> set (r_cache r)"
    using assms(3) by (auto simp: cache_get_def Let_def AList.delete_eq split: option.splits prod.splits if_splits)
  have "r_ttl_s r' = r_ttl_s r" by (subst e(2)) simp
  with cache_sound_mono [OF assms(1) e(1)] sub show "cache_sound r' t'" unfolding cache_sound_def by auto
  assume hit
  with assms(3) obtain expires where m: "map_of (r_cache r) (dns_key host port) = Some (out', expires)"
    and t': "t' = EvClock (os_clock os t) # t" "os_clock os t < expires"
    by (auto simp: cache_get_def Let_def split: option.splits prod.splits if_splits)
  have "(dns_key host port, out', expires) \<in> set (r_cache r)" using m by (rule map_of_SomeD)
  with assms(1) obtain h p stored where hp: "dns_key host port = dns_key h p" "CHR '':'' \<notin> set p"
      "looked_up t h p True out'" and st: "EvClock stored \<in> set t" "expires = stored + r_ttl_s r * 10 ^ 9"
    unfolding cache_sound_def by blast
  have "looked_up t' host port True out'"
    using dns_key_inj [OF hp(1) assms(2) hp(2)] looked_up_mono [OF hp(3) e(1)] by simp
  with st t' show "looked_up t' host port True out' \<and>
      (\<exists>stored now. EvClock stored \<in> set t \<and> t' = EvClock now # t \<and> now < stored + r_ttl_s r * 10 ^ 9)" by blast
qed

lemma resolver_inv_mono: "resolver_inv E r t \<Longrightarrow> set t \<subseteq> set t' \<Longrightarrow> resolver_inv E r t'"
  using published_mono cache_sound_mono by (auto simp: resolver_inv_def)

lemma resolve_ok_looked_up:
  assumes "resolve os host port out err t = (True, eps, err', t')"
  shows "looked_up t' host port True eps"
proof -
  let ?r = "os_getaddrinfo os t (Some (c_str host)) (c_str port) False"
  have "EvGetaddrinfo (Some (c_str host)) (c_str port) False ?r \<in> set t'" "(True, eps) = lookup_result ?r"
    using assms by (auto simp: resolve_def Let_def split: sum.splits if_splits)
  then show ?thesis unfolding looked_up_def by blast
qed

lemma resolve_blocking_inv:
  assumes "resolver_inv E r t" and "CHR '':'' \<notin> set port"
    and eq: "resolve_blocking os host port out err r t = (ok, out', err', r', t')"
  shows "resolver_inv E r' t'" and "ok \<Longrightarrow> looked_up t' host port True out'"
proof -
  obtain hit out1 r1 t1 where g: "cache_get os (dns_key host port) out r t = (hit, out1, r1, t1)"
    by (metis prod_cases4)
  obtain ok2 out2 err2 r2 t2 where l: "do_lookup os host port out1 err r1 t1 = (ok2, out2, err2, r2, t2)"
    by (metis prod_cases5)
  obtain r3 t3 where p: "cache_put os (dns_key host port) out2 r2 t2 = (r3, t3)" by fastforce
  note G = cache_get_effect(1,2) [OF g] and L = do_lookup_effect [OF l] and P = cache_put_effect [OF p]
  have "cache_sound r t" using assms(1) by (simp add: resolver_inv_def)
  note S = cache_get_sound [OF this assms(2) g]
  have s2: "cache_sound r2 t2" using cache_sound_mono [OF S(1) only_events_set [OF L(1)]] by (simp add: L(2))
  have up: "ok2 \<Longrightarrow> looked_up t2 host port True out2"
    using l resolve_ok_looked_up by (auto simp: do_lookup_def Let_def split: prod.splits)
  have up3: "ok2 \<Longrightarrow> looked_up t3 host port True out2"
    using up looked_up_mono only_events_set [OF P(1)] by blast
  have s3: "ok2 \<Longrightarrow> cache_sound r3 t3" using cache_sound_update [OF s2 up p subset_refl assms(2)] by blast
  have out: "(ok, out', r', t') = (if hit then (True, out1, r1\<lparr>r_hits := r_hits r1 + 1\<rparr>, t1)
      else if ok2 then (True, out2, r3, t3) else (False, out2, r2, t2))"
    using eq by (auto simp: resolve_blocking_def g l p split: if_splits)
  then have c: "cache_sound r' t'" and "ok \<longrightarrow> looked_up t' host port True out'"
    using S s2 s3 up3 by (auto split: if_splits)
  then show "ok \<Longrightarrow> looked_up t' host port True out'" by blast
  note B = resolve_blocking_effect [OF eq]
  have "refs_ok E r'" "published E r' t'" "ports_ok r'"
    using assms(1) published_mono [OF _ only_events_set [OF B(1)]]
    by (subst B(2), simp add: resolver_inv_def ports_ok_def)+
  with c assms(1) show "resolver_inv E r' t'" by (simp add: resolver_inv_def)
qed

lemma published_detach:
  assumes pub: "published E r t" and ok: "refs_ok E r" and i: "i < length (r_jobs r)"
    and jobs: "r_jobs r' = (r_jobs r)[i := j']" "r_queue r' = r_queue r" "r_workers r' = r_workers r"
    and j': "j_ready j' = j_ready (r_jobs r ! i)" "j_host j' = j_host (r_jobs r ! i)" "j_port j' = j_port (r_jobs r ! i)"
      "\<not> j_ready j' \<Longrightarrow> j_ok j' = j_ok (r_jobs r ! i) \<and> j_endpoints j' = j_endpoints (r_jobs r ! i)"
  shows "published (E(i := 0)) r' t"
proof -
  have "phase_ok (r_jobs r') t w" if "w \<in> set (r_workers r)" for w
  proof (cases "worker_job w = Some i")
    case True
    have "phase_ok (r_jobs r) t w" using pub that by (simp add: published_def)
    then show ?thesis using True i j' jobs(1) by (cases w) auto
  next
    case False
    then show ?thesis using pub that jobs(1) by (simp add: published_def phase_ok_other)
  qed
  moreover have "\<not> j_ready (r_jobs r' ! n)" if "n \<in> set (r_queue r)" for n
    using pub that j'(1) jobs(1) i by (cases "n = i") (auto simp: published_def)
  ultimately show ?thesis using pub jobs by (simp add: published_def)
qed

text \<open>A connection drops its job, possibly after moving the result out of it.\<close>

lemma resolver_inv_release:
  assumes inv: "resolver_inv E r t" and E: "E i = 1"
    and f: "\<And>j. j_ready (f j) = j_ready j" "\<And>j. j_host (f j) = j_host j" "\<And>j. j_port (f j) = j_port j"
      "\<And>j. j_refs (f j) = j_refs j" "\<And>j. jfds (f j) = jfds j" "\<And>j. j_read_end (f j) = j_read_end j" "\<And>j. j_write_end (f j) = j_write_end j"
      "\<not> j_ready (r_jobs r ! i) \<Longrightarrow> f = id"
  shows "resolver_inv (E(i := 0)) (fst (release_job i (update_job i f r) t)) (snd (release_job i (update_job i f r) t))"
proof -
  let ?r = "update_job i f r"
  let ?r' = "fst (release_job i ?r t)" and ?t' = "snd (release_job i ?r t)"
  have ok: "refs_ok E r" and pub: "published E r t" and cs: "cache_sound r t" and po: "ports_ok r"
    using inv by (simp_all add: resolver_inv_def)
  have "0 < E i + claims r i" using E by simp
  from conjunct1 [OF ok [unfolded refs_ok_def], rule_format, OF this] have i: "i < length (r_jobs r)" .
  have sub: "set t \<subseteq> set ?t'" by (auto simp: release_job_def Let_def fd_destroy_def fd_reset_def)
  have "refs_ok E ?r" by (rule refs_ok_update_job [OF ok]) (simp_all add: f)
  then have "refs_ok (E(i := 0)) ?r'" by (rule refs_ok_drop [of E ?r i _ t]) (use E in simp_all)
  moreover have "published (E(i := 0)) ?r' t"
  proof -
    have eq: "r_jobs ?r' = (r_jobs r)[i := r_jobs ?r' ! i]"
      using i by (cases "j_refs (r_jobs ?r ! i) = 1") (simp_all add: release_job_def Let_def update_job_def)
    have id: "\<not> j_ready (r_jobs r ! i) \<Longrightarrow> f (r_jobs r ! i) = r_jobs r ! i" using f(8) by simp
    have "j_ready (r_jobs ?r' ! i) = j_ready (r_jobs r ! i) \<and> j_host (r_jobs ?r' ! i) = j_host (r_jobs r ! i) \<and>
      j_port (r_jobs ?r' ! i) = j_port (r_jobs r ! i) \<and>
      (\<not> j_ready (r_jobs r ! i) \<longrightarrow> j_ok (r_jobs ?r' ! i) = j_ok (r_jobs r ! i) \<and>
         j_endpoints (r_jobs ?r' ! i) = j_endpoints (r_jobs r ! i))"
      using i f(1-3) id
      by (cases "j_refs (r_jobs ?r ! i) = 1") (simp_all add: release_job_def Let_def update_job_def)
    then show ?thesis by (intro published_detach [OF pub ok i eq]) simp_all
  qed
  moreover have "map j_port (r_jobs ?r') = map j_port (r_jobs r)"
    using i f(3) by (simp add: release_job_def Let_def update_job_def map_update)
  then have "ports_ok ?r'" using po unfolding ports_ok_map by simp
  moreover have "cache_sound ?r' ?t'" using cache_sound_mono [OF cs sub] by simp
  ultimately show ?thesis using inv published_mono [OF _ sub] by (simp add: resolver_inv_def)
qed

text \<open>A new job: first held by the caller alone, then also by the queue.\<close>

lemma refs_ok_ids: "refs_ok E r \<Longrightarrow> length (r_jobs r) \<le> i \<Longrightarrow> E i = 0 \<and> claims r i = 0"
  unfolding refs_ok_def by (metis add_is_0 leD not_gr_zero)

lemma claims_ids:
  assumes "refs_ok E r"
  shows "i \<in> set (r_queue r) \<Longrightarrow> i < length (r_jobs r)"
    and "w \<in> set (r_workers r) \<Longrightarrow> worker_job w = Some i \<Longrightarrow> i < length (r_jobs r)"
proof -
  show "i < length (r_jobs r)" if "i \<in> set (r_queue r)"
  proof (rule ccontr)
    assume "\<not> i < length (r_jobs r)"
    then have "count_list (r_queue r) i = 0" using refs_ok_ids [OF assms, of i] by (simp add: claims_def)
    with that show False by (simp add: count_list_0_iff)
  qed
  show "i < length (r_jobs r)" if "w \<in> set (r_workers r)" "worker_job w = Some i"
  proof (rule ccontr)
    assume "\<not> i < length (r_jobs r)"
    then have "holders r i = 0" using refs_ok_ids [OF assms, of i] by (simp add: claims_def)
    with that show False by (auto simp: holders_def filter_empty_conv)
  qed
qed

lemma resolver_inv_append:
  assumes inv: "resolver_inv E r t" and "CHR '':'' \<notin> set port"
  defines "n \<equiv> length (r_jobs r)"
  shows "resolver_inv (E(n := 1)) (r\<lparr>r_jobs := r_jobs r @ [new_job host port re we 1]\<rparr>) t" (is "resolver_inv ?E ?r t")
proof -
  have ok: "refs_ok E r" and pub: "published E r t" using inv by (simp_all add: resolver_inv_def)
  have c: "claims ?r i = claims r i" for i by (simp add: claims_def holders_def)
  note out = refs_ok_ids [OF ok]
  have "refs_ok ?E ?r"
    unfolding refs_ok_def c
  proof (intro conjI allI impI)
    fix k assume "0 < ?E k + claims r k"
    then show "k < length (r_jobs ?r)"
      using conjunct1 [OF ok [unfolded refs_ok_def], rule_format, of k] by (cases "k = n") (simp_all add: n_def)
  next
    fix k assume k: "k < length (r_jobs ?r)"
    show "claims r k \<le> 1" and "j_refs (r_jobs ?r ! k) = ?E k + claims r k"
      and "j_refs (r_jobs ?r ! k) = 0 \<Longrightarrow> jfds (r_jobs ?r ! k) = {}"
      using ok k out [of n]
      by (cases "k = n"; auto simp: n_def refs_ok_def nth_append new_job_def less_Suc_eq)+
  qed
  moreover have "published ?E ?r t"
  proof -
    have "phase_ok (r_jobs r @ [j]) t w = phase_ok (r_jobs r) t w" if "w \<in> set (r_workers r)" for w j
      using claims_ids(2) [OF ok that] by (cases w) (simp_all add: nth_append)
    moreover have "(r_jobs r @ [j]) ! i = r_jobs r ! i" if "i \<in> set (r_queue r)" for i j
      using claims_ids(1) [OF ok that] by (simp add: nth_append)
    moreover have "(r_jobs r @ [j]) ! i = r_jobs r ! i" if "0 < E i" for i j
      using out [of i] that by (cases "i < n") (simp_all add: n_def nth_append)
    ultimately show ?thesis using pub unfolding published_def by (auto simp: n_def new_job_def)
  qed
  ultimately show ?thesis using inv assms(2) by (auto simp: resolver_inv_def ports_ok_def new_job_def)
qed

lemma resolver_inv_enqueue:
  assumes inv: "resolver_inv E r t" and "E i = 1" and "claims r i = 0" and "\<not> j_ready (r_jobs r ! i)"
  shows "resolver_inv E (update_job i (\<lambda>j. j\<lparr>j_refs := j_refs j + 1\<rparr>) (r\<lparr>r_queue := r_queue r @ [i]\<rparr>)) t"
    (is "resolver_inv E ?r t")
proof -
  have ok: "refs_ok E r" and pub: "published E r t" using inv by (simp_all add: resolver_inv_def)
  have "0 < E i + claims r i" using assms(2) by simp
  from conjunct1 [OF ok [unfolded refs_ok_def], rule_format, OF this] have i: "i < length (r_jobs r)" .
  define r' where "r' = ?r"
  have len: "length (r_jobs r') = length (r_jobs r)" and q: "r_queue r' = r_queue r @ [i]"
    and ws: "r_workers r' = r_workers r" and other: "r_cache r' = r_cache r" "r_ttl_s r' = r_ttl_s r"
    by (simp_all add: r'_def update_job_def)
  have c: "claims r' k = claims r k + (if k = i then 1 else 0)" for k
    by (simp add: claims_def holders_def q ws)
  have f: "j_ready (r_jobs r' ! k) = j_ready (r_jobs r ! k)" "j_host (r_jobs r' ! k) = j_host (r_jobs r ! k)"
    "j_port (r_jobs r' ! k) = j_port (r_jobs r ! k)" "j_ok (r_jobs r' ! k) = j_ok (r_jobs r ! k)"
    "j_endpoints (r_jobs r' ! k) = j_endpoints (r_jobs r ! k)" "jfds (r_jobs r' ! k) = jfds (r_jobs r ! k)"
    "j_refs (r_jobs r' ! k) = j_refs (r_jobs r ! k) + (if k = i then 1 else 0)" for k
    using i by (cases "k = i"; simp add: r'_def update_job_def jfds_def)+
  have "refs_ok E r'"
    unfolding refs_ok_def c f len
  proof (intro conjI allI impI)
    fix k assume "0 < E k + (claims r k + (if k = i then 1 else 0))"
    then show "k < length (r_jobs r)"
      using i conjunct1 [OF ok [unfolded refs_ok_def], rule_format, of k] by (cases "k = i") simp_all
  next
    fix k assume k: "k < length (r_jobs r)"
    have "claims r k \<le> 1 \<and> j_refs (r_jobs r ! k) = E k + claims r k \<and> (j_refs (r_jobs r ! k) = 0 \<longrightarrow> jfds (r_jobs r ! k) = {})"
      using ok k unfolding refs_ok_def by blast
    then show "claims r k + (if k = i then 1 else 0) \<le> 1"
      and "j_refs (r_jobs r ! k) + (if k = i then 1 else 0) = E k + (claims r k + (if k = i then 1 else 0))"
      and "j_refs (r_jobs r ! k) + (if k = i then 1 else 0) = 0 \<Longrightarrow> jfds (r_jobs r ! k) = {}"
      using assms(3) by (cases "k = i"; simp)+
  qed
  moreover have "phase_ok (r_jobs r') t w = phase_ok (r_jobs r) t w" for w by (cases w) (simp_all add: f)
  then have "published E r' t" using pub assms(4) by (simp add: published_def f q ws)
  moreover have "map j_port (r_jobs r') = map j_port (r_jobs r)" by (simp add: r'_def update_job_def map_update)
  then have "ports_ok r'" using inv unfolding ports_ok_map resolver_inv_def by simp
  moreover have "cache_sound r' t" using inv by (simp add: resolver_inv_def cache_sound_def other)
  ultimately show ?thesis using inv unfolding r'_def [symmetric] by (simp add: resolver_inv_def)
qed

lemma update_job_id [simp]: "update_job i id r = r"
  by (simp add: update_job_def)

lemma make_pipe_extends: "make_pipe os re we t = (ok, re', we', t') \<Longrightarrow> set t \<subseteq> set t'"
  by (auto simp: make_pipe_def set_nonblocking_def fd_reset_def Let_def split: sum.splits prod.splits if_splits)

lemma make_pipe_ok: "fresh_descriptors os \<Longrightarrow> make_pipe os (-1) (-1) t = (True, re, we, t') \<Longrightarrow> 0 \<le> re"
  by (rule make_pipe_effect [of os t]) auto

lemma start_inv:
  assumes inv: "resolver_inv E r t" and port: "CHR '':'' \<notin> set port"
    and eq: "start os host port out None err r t = (st, out', jo', err', r', t')"
  shows "st = ResolveHit \<Longrightarrow> jo' = None \<and> resolver_inv E r' t' \<and> looked_up t' host port True out'"
    and "st = ResolveFailed \<Longrightarrow> jo' = None \<and> resolver_inv E r' t'"
    and "st = ResolvePending \<Longrightarrow> \<exists>i. jo' = Some i \<and> E i = 0 \<and> resolver_inv (E(i := 1)) r' t' \<and>
      j_host (r_jobs r' ! i) = host \<and> j_port (r_jobs r' ! i) = port \<and>
      (fresh_descriptors os \<longrightarrow> 0 \<le> j_read_end (r_jobs r' ! i))"
proof -
  obtain hit out1 r1 t1 where g: "cache_get os (dns_key host port) out r t = (hit, out1, r1, t1)"
    by (metis prod_cases4)
  note G = cache_get_effect [OF g]
  have "cache_sound r t" using inv by (simp add: resolver_inv_def)
  note S = cache_get_sound [OF this port g]
  have sub1: "set t \<subseteq> set t1" by (rule only_events_set [OF G(1)])
  have "refs_ok E r1" "published E r1 t1" "ports_ok r1"
    using inv published_mono [OF _ sub1] by (subst G(2), simp add: resolver_inv_def ports_ok_def)+
  then have inv1: "resolver_inv E r1 t1" using S(1) inv by (simp add: resolver_inv_def)
  obtain ok re we t2 where p: "make_pipe os (-1) (-1) t1 = (ok, re, we, t2)" by (metis prod_cases4)
  let ?n = "length (r_jobs r1)"
  define r2 where "r2 = r1\<lparr>r_jobs := r_jobs r1 @ [new_job host port re we 1]\<rparr>"
  have inv2: "resolver_inv (E(?n := 1)) r2 t2"
    unfolding r2_def by (rule resolver_inv_mono [OF resolver_inv_append [OF inv1 port] make_pipe_extends [OF p]])
  have job: "r_jobs r2 ! ?n = new_job host port re we 1" by (simp add: r2_def)
  have E: "E ?n = 0" "claims r1 ?n = 0" using refs_ok_ids \<open>refs_ok E r1\<close> by blast+
  have undo: "resolver_inv E (fst (release_job ?n r2 t2)) (snd (release_job ?n r2 t2))"
    using resolver_inv_release [OF inv2, of ?n id] E(1) by (simp add: fun_upd_idem)
  define r3 where "r3 = update_job ?n (\<lambda>j. j\<lparr>j_refs := j_refs j + 1\<rparr>) (r2\<lparr>r_queue := r_queue r2 @ [?n]\<rparr>)"
  have "claims r2 ?n = 0" using E(2) by (simp add: r2_def claims_def holders_def)
  then have inv3: "resolver_inv (E(?n := 1)) r3 t2"
    unfolding r3_def by (intro resolver_inv_enqueue [OF inv2]) (simp_all add: job, simp add: new_job_def)
  have job3: "r_jobs r3 ! ?n = new_job host port re we 2" by (simp add: r3_def r2_def update_job_def new_job_def)
  have cases: "(st, out', jo', r', t') = (if hit then (ResolveHit, out1, None, r1\<lparr>r_hits := r_hits r1 + 1\<rparr>, t1)
      else if \<not> ok \<or> r_closed r2 then (ResolveFailed, out1, None, fst (release_job ?n r2 t2), snd (release_job ?n r2 t2))
      else (ResolvePending, out1, Some ?n, r3, t2))"
    using eq unfolding start_def g Let_def prod.case p r2_def [symmetric] r3_def [symmetric] release_opt_def
    by (auto split: if_splits prod.splits)
  show "st = ResolveHit \<Longrightarrow> jo' = None \<and> resolver_inv E r' t' \<and> looked_up t' host port True out'"
    using cases S(2) inv1 by (auto simp: resolver_inv_def ports_ok_def split: if_splits)
  show "st = ResolveFailed \<Longrightarrow> jo' = None \<and> resolver_inv E r' t'"
    using cases undo by (cases "release_job ?n r2 t2") (auto split: if_splits)
  show "st = ResolvePending \<Longrightarrow> \<exists>i. jo' = Some i \<and> E i = 0 \<and> resolver_inv (E(i := 1)) r' t' \<and>
      j_host (r_jobs r' ! i) = host \<and> j_port (r_jobs r' ! i) = port \<and>
      (fresh_descriptors os \<longrightarrow> 0 \<le> j_read_end (r_jobs r' ! i))"
    using cases inv3 E(1) job3 make_pipe_ok p by (fastforce simp: new_job_def split: if_splits)
qed


section \<open>Properties\<close>

text \<open>
  Every state of a process that uses the resolver: threads step, connections start lookups, collect
  or abandon results, and the rest of the process opens, closes and uses descriptors of its own.
\<close>

inductive resolver_run :: "os \<Rightarrow> fd set \<Rightarrow> (job_id \<Rightarrow> nat) \<Rightarrow> resolver \<Rightarrow> trace \<Rightarrow> bool" for os where
  run_new: "resolver_run os (open_fds t) (\<lambda>_. 0) (new_resolver n ttl delay) t"
| run_worker: "resolver_run os F E r t \<Longrightarrow> worker_step os k r t = Some (r', t') \<Longrightarrow> resolver_run os F E r' t'"
| run_start: "resolver_run os F E r t \<Longrightarrow> CHR '':'' \<notin> set port \<Longrightarrow>
    start os host port out None err r t = (st, out', jo, err', r', t') \<Longrightarrow>
    resolver_run os F (case jo of None \<Rightarrow> E | Some i \<Rightarrow> E(i := 1)) r' t'"
| run_blocking: "resolver_run os F E r t \<Longrightarrow> CHR '':'' \<notin> set port \<Longrightarrow>
    resolve_blocking os host port out err r t = (ok, out', err', r', t') \<Longrightarrow> resolver_run os F E r' t'"
| run_collect: "resolver_run os F E r t \<Longrightarrow> E i = 1 \<Longrightarrow> j_ready (r_jobs r ! i) \<Longrightarrow>
    release_job i (update_job i (\<lambda>j. j\<lparr>j_endpoints := []\<rparr>) r) t = (r', t') \<Longrightarrow> resolver_run os F (E(i := 0)) r' t'"
| run_abandon: "resolver_run os F E r t \<Longrightarrow> E i = 1 \<Longrightarrow> release_job i r t = (r', t') \<Longrightarrow>
    resolver_run os F (E(i := 0)) r' t'"
| run_shutdown: "resolver_run os F E r t \<Longrightarrow> resolver_run os F E (close_resolver r) t"
| run_open: "resolver_run os F E r t \<Longrightarrow> os_socket os t a b c = Inr fd \<Longrightarrow>
    resolver_run os (insert fd F) E r (EvSocket a b c (Inr fd) # t)"
| run_close: "resolver_run os F E r t \<Longrightarrow> fd \<in> F \<Longrightarrow> resolver_run os (F - {fd}) E r (EvClose fd # t)"
| run_other: "resolver_run os F E r t \<Longrightarrow> opened_by ev = [] \<Longrightarrow> closed_by ev = None \<Longrightarrow> resolver_run os F E r (ev # t)"

lemma resolver_inv_ids: "resolver_inv E r t \<Longrightarrow> E i = 1 \<Longrightarrow> i < length (r_jobs r)"
  unfolding resolver_inv_def refs_ok_def by (metis add_gr_0 zero_less_one)

lemma resolver_run_inv:
  assumes "fresh_descriptors os"
  shows "resolver_run os F E r t \<Longrightarrow> jobs_own F r t \<and> resolver_inv E r t"
proof (induction rule: resolver_run.induct)
  case (run_new t n ttl delay)
  show ?case by (simp add: jobs_own_new resolver_inv_new)
next
  case (run_worker F E r t k r' t')
  then have "refs_ok E r" by (simp add: resolver_inv_def)
  with run_worker show ?case
    using worker_step_own [of F r t os k r' t'] claims_ids(2) resolver_inv_worker_step by blast
next
  case (run_start F E r t port host out err st out' jo err' r' t')
  then have own: "jobs_own F r' t'" using start_own [OF assms] by blast
  note S = start_inv [OF conjunct2 [OF run_start.IH] run_start.hyps(2,3)]
  show ?case using own S by (cases st) auto
next
  case (run_blocking F E r t port host out err ok out' err' r' t')
  note B = resolve_blocking_effect [OF run_blocking.hyps(3)]
  have "jobs_own F r' t'" by (subst B(2)) (simp add: jobs_own_quiet [OF conjunct1 [OF run_blocking.IH] B(1)])
  then show ?case using resolve_blocking_inv(1) run_blocking by blast
next
  case (run_collect F E r t i r' t')
  let ?f = "\<lambda>j :: job. j\<lparr>j_endpoints := []\<rparr>"
  have i: "i < length (r_jobs r)" using run_collect resolver_inv_ids by blast
  have own: "jobs_own F (update_job i ?f r) t" by (rule jobs_own_update) (use run_collect i in auto)
  have "resolver_inv (E(i := 0)) (fst (release_job i (update_job i ?f r) t)) (snd (release_job i (update_job i ?f r) t))"
    by (rule resolver_inv_release) (use run_collect in \<open>auto simp: jfds_def\<close>)
  then show ?case using release_job_own(1) [OF own, of i] i run_collect.hyps(4) by (simp add: fun_upd_def)
next
  case (run_abandon F E r t i r' t')
  have i: "i < length (r_jobs r)" using run_abandon resolver_inv_ids by blast
  have "resolver_inv (E(i := 0)) (fst (release_job i r t)) (snd (release_job i r t))"
    using resolver_inv_release [of E r t i id] run_abandon by simp
  then show ?case using release_job_own(1) [OF conjunct1 [OF run_abandon.IH] i] run_abandon.hyps(3)
    by (simp add: fun_upd_def)
next
  case (run_shutdown F E r t)
  then show ?case by (simp add: close_resolver_def resolver_inv_def ports_ok_def)
next
  case (run_open F E r t a b c fd)
  have "fd \<notin> open_fds t" using assms run_open.hyps(2) unfolding fresh_descriptors_def by blast
  then show ?case
    using run_open.IH jobs_own_open resolver_inv_mono [of E r t "EvSocket a b c (Inr fd) # t"] by auto
next
  case (run_close F E r t fd)
  then show ?case using jobs_own_close resolver_inv_mono [of E r t "EvClose fd # t"] by auto
next
  case (run_other F E r t ev)
  then have "open_fds (ev # t) = open_fds t" by simp
  with run_other show ?case
    using jobs_own_trace [of F r t "ev # t"] resolver_inv_mono [of E r t "ev # t"] by auto
qed

text \<open>A thread that runs on its own.\<close>

fun worker_steps :: "os \<Rightarrow> nat \<Rightarrow> nat \<Rightarrow> resolver \<Rightarrow> trace \<Rightarrow> (resolver \<times> trace) option" where
  "worker_steps os k 0 r t = Some (r, t)"
| "worker_steps os k (Suc n) r t = do { (r1, t1) \<leftarrow> worker_step os k r t; worker_steps os k n r1 t1 }"

lemma worker_steps_run:
  assumes "resolver_run os F E r t" and "worker_steps os k n r t = Some (r', t')"
  shows "resolver_run os F E r' t'"
  using assms
proof (induction n arbitrary: r t)
  case (Suc n)
  then obtain r1 t1 where "worker_step os k r t = Some (r1, t1)" "worker_steps os k n r1 t1 = Some (r', t')"
    by (auto simp: bind_eq_Some_conv)
  with Suc show ?case using run_worker by blast
qed simp

lemma worker_steps_add:
  "worker_steps os k (m + n) r t = do { (r1, t1) \<leftarrow> worker_steps os k m r t; worker_steps os k n r1 t1 }"
proof (induction m arbitrary: r t)
  case (Suc m)
  then show ?case by (cases "worker_step os k r t") auto
qed simp


text \<open>From one wait to the next: a thread that finds a job runs through all its stages.\<close>

lemma worker_takes_job:
  assumes k: "k < length (r_workers r)" "r_workers r ! k = WWait" and q: "r_queue r = i # q" and i: "i < length (r_jobs r)"
  obtains r' t' res where "worker_steps os k 6 r t = Some (r', EvWrite (j_write_end (r_jobs r ! i)) [CHR 0x01] res # t')"
    and "j_ready (r_jobs r' ! i)" and "r_workers r' = (r_workers r)[k := WClose i]" and "r_queue r' = q"
    and "r_closed r' = r_closed r" and "length (r_jobs r') = length (r_jobs r)"
proof -
  let ?j = "r_jobs r ! i"
  obtain ok eps err r2 t2 where l: "do_lookup os (j_host ?j) (j_port ?j) [] [] (set_worker k (WLookup i) (r\<lparr>r_queue := q\<rparr>)) t = (ok, eps, err, r2, t2)"
    by (metis prod_cases5)
  define r3 where "r3 = set_worker k (WCachePut i ok) (update_job i (\<lambda>j. j\<lparr>j_endpoints := eps, j_err := err, j_ok := ok\<rparr>) (set_worker k (WPublish i ok eps err) r2))"
  obtain r4 t4 where c: "(if ok then cache_put os (dns_key (j_host ?j) (j_port ?j)) eps r3 t2 else (r3, t2)) = (r4, t4)"
    by (metis surj_pair)
  have r2: "r2 = set_worker k (WLookup i) (r\<lparr>r_queue := q, r_lookups := r_lookups r + 1\<rparr>)"
    using do_lookup_effect(2) [OF l] by (simp add: set_worker_def)
  have r4: "r4 = r3\<lparr>r_cache := r_cache r4\<rparr>"
  proof (cases ok)
    case True
    with c have "cache_put os (dns_key (j_host ?j) (j_port ?j)) eps r3 t2 = (r4, t4)" by simp
    then show ?thesis by (rule cache_put_effect(2))
  next
    case False
    with c show ?thesis by auto
  qed
  have job3: "r_jobs r3 ! i = ?j\<lparr>j_endpoints := eps, j_err := err, j_ok := ok\<rparr>" using i by (simp add: r3_def r2 update_job_def)
  have w3: "r_workers r3 = (r_workers r)[k := WCachePut i ok]" "length (r_jobs r3) = length (r_jobs r)"
    "r_queue r3 = q" "r_closed r3 = r_closed r" by (simp_all add: r3_def r2) (simp_all add: set_worker_def update_job_def)
  have s1: "worker_step os k r t = Some (set_worker k (WLookup i) (r\<lparr>r_queue := q\<rparr>), t)"
    using k q by (simp add: worker_step_def)
  have s2: "worker_step os k (set_worker k (WLookup i) (r\<lparr>r_queue := q\<rparr>)) t = Some (set_worker k (WPublish i ok eps err) r2, t2)"
    using k l by (simp add: worker_step_def)
  have s3: "worker_step os k (set_worker k (WPublish i ok eps err) r2) t2 = Some (r3, t2)"
    using k by (simp add: worker_step_def r2 r3_def)
  have s4: "worker_step os k r3 t2 = Some (set_worker k (WReady i) r4, t4)"
  proof -
    have "worker_step os k r3 t2 = (case (if ok then cache_put os (dns_key (j_host ?j) (j_port ?j)) eps r3 t2 else (r3, t2)) of
        (r1, t1) \<Rightarrow> Some (set_worker k (WReady i) r1, t1))"
      using k by (simp add: worker_step_def w3 job3 Let_def)
    then show ?thesis unfolding c by simp
  qed
  have w4: "r_workers r4 = r_workers r3" "r_jobs r4 = r_jobs r3" "r_queue r4 = q" "r_closed r4 = r_closed r"
    by (subst r4, simp add: w3)+
  define r5 where "r5 = set_worker k (WSignal i) (update_job i (\<lambda>j. j\<lparr>j_ready := True\<rparr>) (set_worker k (WReady i) r4))"
  have s5: "worker_step os k (set_worker k (WReady i) r4) t4 = Some (r5, t4)"
    using k by (simp add: worker_step_def w4 w3 r5_def)
  have we: "j_write_end (r_jobs r5 ! i) = j_write_end ?j" using i job3 by (simp add: r5_def update_job_def w4 w3)
  have s6: "worker_step os k r5 t4 = Some (set_worker k (WClose i) r5,
      EvWrite (j_write_end ?j) [CHR 0x01] (os_write os t4 (j_write_end ?j) [CHR 0x01]) # t4)"
    using k we by (simp add: worker_step_def w4 w3 r5_def Let_def)
  have "worker_steps os k 6 r t = Some (set_worker k (WClose i) r5,
      EvWrite (j_write_end ?j) [CHR 0x01] (os_write os t4 (j_write_end ?j) [CHR 0x01]) # t4)"
    by (simp add: numeral_eq_Suc s1 s2 s3 s4 s5 s6)
  then show ?thesis
    by (rule that) (use i k in \<open>simp_all add: r5_def w4 w3 update_job_def\<close>, simp_all add: set_worker_def w4)
qed

lemma worker_finishes_job:
  assumes k: "k < length (r_workers r)" "r_workers r ! k = WWait" and q: "r_queue r = i # q" and i: "i < length (r_jobs r)"
  obtains r' t' where "worker_steps os k 8 r t = Some (r', t')" and "r_workers r' = r_workers r" and "r_queue r' = q"
    and "r_closed r' = r_closed r" and "length (r_jobs r') = length (r_jobs r)"
proof -
  obtain r1 t1 res where s: "worker_steps os k 6 r t = Some (r1, EvWrite (j_write_end (r_jobs r ! i)) [CHR 0x01] res # t1)"
    "j_ready (r_jobs r1 ! i)" "r_workers r1 = (r_workers r)[k := WClose i]" "r_queue r1 = q" "r_closed r1 = r_closed r"
    "length (r_jobs r1) = length (r_jobs r)"
    by (rule worker_takes_job [OF assms])
  let ?t1 = "EvWrite (j_write_end (r_jobs r ! i)) [CHR 0x01] res # t1"
  let ?t2 = "fd_destroy (j_write_end (r_jobs r1 ! i)) ?t1"
  define r2 where "r2 = set_worker k (WRelease i) (update_job i (\<lambda>j. j\<lparr>j_write_end := -1\<rparr>) r1)"
  obtain r3 t3 where rel: "release_job i r2 ?t2 = (r3, t3)" by fastforce
  have "worker_step os k r1 ?t1 = Some (r2, ?t2)" using k s(3) by (simp add: worker_step_def r2_def)
  moreover have "worker_step os k r2 ?t2 = Some (set_worker k WWait r3, t3)"
    using k s(3) rel by (simp add: worker_step_def r2_def)
  ultimately have "worker_steps os k 2 r1 ?t1 = Some (set_worker k WWait r3, t3)" by (simp add: numeral_eq_Suc)
  then have steps: "worker_steps os k 8 r t = Some (set_worker k WWait r3, t3)"
    using worker_steps_add [of os k 6 2 r t] s(1) by simp
  have r3: "r3 = fst (release_job i r2 ?t2)" by (simp add: rel)
  have "r_workers r3 = (r_workers r)[k := WRelease i]" "r_queue r3 = q" "length (r_jobs r3) = length (r_jobs r)"
    "r_closed r3 = r_closed r"
    unfolding r3 release_job_fields r2_def by (simp_all add: s(3-6)) (simp add: set_worker_def update_job_def s(5))
  then show ?thesis
    using k(2) list_update_id [of "r_workers r" k]
    by (intro that [OF steps]) (simp_all, simp add: set_worker_def)
qed

text \<open>A run for the witnesses: one thread, one lookup started.\<close>

abbreviation one_job :: "job_id \<Rightarrow> nat" where
  "one_job \<equiv> (\<lambda>_. 0)(0 := 1)"

lemma demo_started:
  obtains r t where "resolver_run (demo_os (\<lambda>_. [])) {} one_job r t" and "r_queue r = [0]" and "r_workers r = [WWait]"
    and "length (r_jobs r) = 1"
proof -
  let ?os = "demo_os (\<lambda>_. [])"
  have new: "resolver_run ?os {} (\<lambda>_. 0) (new_resolver 1 60 0) []" using run_new [of ?os "[]"] by simp
  obtain r t where s: "start ?os ''h'' ''80'' [] None [] (new_resolver 1 60 0) [] = (ResolvePending, [], Some 0, [], r, t)"
      "r_queue r = [0]" "r_workers r = [WWait]" "length (r_jobs r) = 1"
    by (simp add: start_def cache_get_def new_resolver_def make_pipe_def demo_os_def fd_reset_def set_nonblocking_def
        release_opt_def update_job_def)
  have "resolver_run ?os {} (case Some 0 of None \<Rightarrow> \<lambda>_. 0 | Some i \<Rightarrow> (\<lambda>_. 0)(i := 1)) r t"
    by (rule run_start [OF new _ s(1)]) simp
  with s(2-4) that show ?thesis by simp
qed

text \<open>
  C19. Publication: in every interleaving of resolver threads and connections, a job that a connection
  finds \<^verbatim>\<open>ready\<close> carries exactly what the name service answered for that job's host and port.
\<close>

theorem ready_job_is_answered:
  assumes "fresh_descriptors os" and "resolver_run os F E r t" and "0 < E i" and "j_ready (r_jobs r ! i)"
  shows "looked_up t (j_host (r_jobs r ! i)) (j_port (r_jobs r ! i)) (j_ok (r_jobs r ! i)) (j_endpoints (r_jobs r ! i))"
  using resolver_run_inv [OF assms(1,2)] assms(3,4) by (simp add: resolver_inv_def published_def)

theorem ready_job_is_answered_witness:
  "\<exists>r t. resolver_run (demo_os (\<lambda>_. [])) {} one_job r t \<and> j_ready (r_jobs r ! 0) \<and>
     looked_up t (j_host (r_jobs r ! 0)) (j_port (r_jobs r ! 0)) (j_ok (r_jobs r ! 0)) (j_endpoints (r_jobs r ! 0))"
proof -
  obtain r t where d: "resolver_run (demo_os (\<lambda>_. [])) {} one_job r t" "r_queue r = [0]" "r_workers r = [WWait]"
    "length (r_jobs r) = 1" by (rule demo_started)
  obtain r1 t1 where step: "worker_steps (demo_os (\<lambda>_. [])) 0 6 r t = Some (r1, t1)" and ready: "j_ready (r_jobs r1 ! 0)"
    by (rule worker_takes_job [of 0 r 0 "[]" "demo_os (\<lambda>_. [])" t]) (use d in auto)
  have run: "resolver_run (demo_os (\<lambda>_. [])) {} one_job r1 t1" by (rule worker_steps_run [OF d(1) step])
  have "looked_up t1 (j_host (r_jobs r1 ! 0)) (j_port (r_jobs r1 ! 0)) (j_ok (r_jobs r1 ! 0)) (j_endpoints (r_jobs r1 ! 0))"
    by (rule ready_job_is_answered [OF _ run _ ready]) simp_all
  with run ready show ?thesis by blast
qed

text \<open>
  C20. No pipe is leaked: once no connection holds a job, the queue is empty and every thread is waiting
  or has returned, the only open descriptors are those of the rest of the process.
\<close>

theorem resolver_leaks_no_pipe:
  assumes "fresh_descriptors os" and "resolver_run os F E r t"
    and "E = (\<lambda>_. 0)" and "r_queue r = []" and "set (r_workers r) \<subseteq> {WWait, WExited}"
  shows "open_fds t = F"
proof -
  have inv: "jobs_own F r t" "refs_ok E r" using resolver_run_inv [OF assms(1,2)] by (auto simp: resolver_inv_def)
  have "holders r i = 0" for i using assms(5) by (auto simp: holders_def filter_empty_conv)
  then have "claims r i = 0" for i using assms(4) by (simp add: claims_def)
  then have "jfds (r_jobs r ! i) = {}" if "i < length (r_jobs r)" for i
    using inv(2) that assms(3) by (simp add: refs_ok_def)
  then have "\<Union> (jfds ` set (r_jobs r)) = {}" by (auto simp: set_conv_nth)
  with inv(1) show ?thesis unfolding jobs_own_def by blast
qed

theorem resolver_leaks_no_pipe_witness:
  "\<exists>r t. resolver_run (demo_os (\<lambda>_. [])) {} (\<lambda>_. 0) r t \<and> length (r_jobs r) = 1 \<and> open_fds t = {}"
proof -
  obtain r t where d: "resolver_run (demo_os (\<lambda>_. [])) {} one_job r t" "r_queue r = [0]" "r_workers r = [WWait]"
    "length (r_jobs r) = 1" by (rule demo_started)
  obtain r1 t1 where s: "worker_steps (demo_os (\<lambda>_. [])) 0 8 r t = Some (r1, t1)" "r_workers r1 = [WWait]" "r_queue r1 = []"
    "length (r_jobs r1) = 1"
    by (rule worker_finishes_job [of 0 r 0 "[]" "demo_os (\<lambda>_. [])" t]) (use d in auto)
  obtain r2 t2 where rel: "release_job 0 r1 t1 = (r2, t2)" by fastforce
  have "resolver_run (demo_os (\<lambda>_. [])) {} (one_job(0 := 0)) r2 t2"
    by (rule run_abandon [OF worker_steps_run [OF d(1) s(1)] _ rel]) simp
  moreover have "(one_job(0 := 0)) = (\<lambda>_. 0)" by auto
  ultimately have run: "resolver_run (demo_os (\<lambda>_. [])) {} (\<lambda>_. 0) r2 t2" by simp
  have "r_queue r2 = []" "r_workers r2 = [WWait]" "length (r_jobs r2) = 1"
    using release_job_fields [of 0 r1 t1] s by (simp_all add: rel)
  with resolver_leaks_no_pipe [OF _ run refl] run show ?thesis by auto
qed

text \<open>
  C32. Liveness of a lookup: a waiting thread that takes the next job of the queue has the job's result
  published and its wakeup byte written to the job's pipe after six steps of its own.
\<close>

theorem lookup_is_signalled:
  assumes "fresh_descriptors os" and "resolver_run os F E r t"
    and "k < length (r_workers r)" and "r_workers r ! k = WWait" and "r_queue r = i # q"
  shows "\<exists>r' t' res. worker_steps os k 6 r t = Some (r', EvWrite (j_write_end (r_jobs r ! i)) [CHR 0x01] res # t') \<and>
    j_ready (r_jobs r' ! i)"
proof -
  have "refs_ok E r" using resolver_run_inv [OF assms(1,2)] by (simp add: resolver_inv_def)
  then have "i < length (r_jobs r)" using claims_ids(1) assms(5) by fastforce
  then show ?thesis by (rule worker_takes_job [OF assms(3-5)]) blast
qed

theorem lookup_is_signalled_witness:
  "\<exists>r t r' t' we res. resolver_run (demo_os (\<lambda>_. [])) {} one_job r t \<and> r_queue r = [0] \<and>
     worker_steps (demo_os (\<lambda>_. [])) 0 6 r t = Some (r', EvWrite we [CHR 0x01] res # t') \<and> j_ready (r_jobs r' ! 0)"
proof -
  obtain r t where d: "resolver_run (demo_os (\<lambda>_. [])) {} one_job r t" "r_queue r = [0]" "r_workers r = [WWait]"
    "length (r_jobs r) = 1" by (rule demo_started)
  have "\<exists>r' t' res. worker_steps (demo_os (\<lambda>_. [])) 0 6 r t = Some (r', EvWrite (j_write_end (r_jobs r ! 0)) [CHR 0x01] res # t') \<and>
      j_ready (r_jobs r' ! 0)"
    by (rule lookup_is_signalled [OF _ d(1), of 0 0 "[]"]) (simp_all add: d)
  with d(1,2) show ?thesis by blast
qed

lemma worker_drains:
  assumes "k < length (r_workers r)" and "r_workers r ! k = WWait" and "r_closed r"
    and "\<forall>i\<in>set (r_queue r). i < length (r_jobs r)"
  shows "\<exists>r' t'. worker_steps os k (8 * length (r_queue r) + 1) r t = Some (r', t') \<and>
    r_workers r' = (r_workers r)[k := WExited] \<and> r_queue r' = []"
  using assms
proof (induction "r_queue r" arbitrary: r t)
  case Nil
  then show ?case by (simp add: worker_step_def)
next
  case (Cons i q)
  have i: "i < length (r_jobs r)" using Cons.prems(4) Cons.hyps(2) by (metis list.set_intros(1))
  obtain r1 t1 where s: "worker_steps os k 8 r t = Some (r1, t1)" "r_workers r1 = r_workers r" "r_queue r1 = q"
    "r_closed r1 = r_closed r" "length (r_jobs r1) = length (r_jobs r)"
    by (rule worker_finishes_job [OF Cons.prems(1,2) Cons.hyps(2) [symmetric] i])
  have "8 * length (r_queue r) + 1 = 8 + (8 * length (r_queue r1) + 1)" 
    by (simp add: Cons.hyps(2) [symmetric] s(3))
  then have "worker_steps os k (8 * length (r_queue r) + 1) r t = worker_steps os k (8 * length (r_queue r1) + 1) r1 t1"
    using s(1) by (simp only: worker_steps_add) simp
  with Cons.hyps(1) [of r1 t1] Cons.hyps(2) Cons.prems s show ?case by (metis list.set_intros(2))
qed

text \<open>
  C33. Shutdown ends: after \<^verbatim>\<open>shutdown\<close> has set the flag, a waiting thread serves the jobs still queued
  and returns, within eight steps for each of them and one more, so that its join succeeds.
\<close>

theorem shutdown_drains_queue:
  assumes "fresh_descriptors os" and "resolver_run os F E r t"
    and "k < length (r_workers r)" and "r_workers r ! k = WWait"
  shows "\<exists>r' t'. worker_steps os k (8 * length (r_queue r) + 1) (close_resolver r) t = Some (r', t') \<and>
    r_workers r' ! k = WExited \<and> r_queue r' = []"
proof -
  have "refs_ok E r" using resolver_run_inv [OF assms(1,2)] by (simp add: resolver_inv_def)
  then have "\<forall>i\<in>set (r_queue r). i < length (r_jobs r)" using claims_ids(1) by blast
  then show ?thesis
    using worker_drains [of k "close_resolver r" os t] assms(3,4) by (auto simp: close_resolver_def)
qed

theorem shutdown_drains_queue_witness:
  "\<exists>r t r' t'. resolver_run (demo_os (\<lambda>_. [])) {} one_job r t \<and> r_queue r = [0] \<and>
     worker_steps (demo_os (\<lambda>_. [])) 0 9 (close_resolver r) t = Some (r', t') \<and> r_workers r' ! 0 = WExited \<and> r_queue r' = []"
proof -
  obtain r t where d: "resolver_run (demo_os (\<lambda>_. [])) {} one_job r t" "r_queue r = [0]" "r_workers r = [WWait]"
    "length (r_jobs r) = 1" by (rule demo_started)
  from shutdown_drains_queue [OF _ d(1), of 0] d show ?thesis by (auto simp del: worker_steps.simps)
qed

text \<open>
  The runs once more, with a record of what was put into the DNS cache and when: key, candidates and
  clock reading of every store, the latest first. A thread stores in the step after it published a
  successful lookup, a blocking resolution after its own lookup; nothing else stores.
\<close>

definition worker_stores :: "os \<Rightarrow> nat \<Rightarrow> resolver \<Rightarrow> trace \<Rightarrow> (string \<times> endpoint list \<times> int) list" where
  "worker_stores os k r t =
     (case r_workers r ! k of
        WCachePut i True \<Rightarrow>
          let j = r_jobs r ! i in
          if 0 < r_ttl_s r then [(dns_key (j_host j) (j_port j), j_endpoints j, os_clock os t)] else []
      | _ \<Rightarrow> [])"

definition blocking_stores ::
  "os \<Rightarrow> string \<Rightarrow> string \<Rightarrow> endpoint list \<Rightarrow> string \<Rightarrow> resolver \<Rightarrow> trace \<Rightarrow> (string \<times> endpoint list \<times> int) list" where
  "blocking_stores os host port out err r t =
     (let (hit, out1, r1, t1) = cache_get os (dns_key host port) out r t;
          (ok, out2, err2, r2, t2) = do_lookup os host port out1 err r1 t1
      in if \<not> hit \<and> ok \<and> 0 < r_ttl_s r then [(dns_key host port, out2, os_clock os t2)] else [])"

inductive resolver_log ::
  "os \<Rightarrow> (string \<times> endpoint list \<times> int) list \<Rightarrow> fd set \<Rightarrow> (job_id \<Rightarrow> nat) \<Rightarrow> resolver \<Rightarrow> trace \<Rightarrow> bool" for os where
  log_new: "resolver_log os [] (open_fds t) (\<lambda>_. 0) (new_resolver n ttl delay) t"
| log_worker: "resolver_log os L F E r t \<Longrightarrow> worker_step os k r t = Some (r', t') \<Longrightarrow>
    resolver_log os (worker_stores os k r t @ L) F E r' t'"
| log_start: "resolver_log os L F E r t \<Longrightarrow> CHR '':'' \<notin> set port \<Longrightarrow>
    start os host port out None err r t = (st, out', jo, err', r', t') \<Longrightarrow>
    resolver_log os L F (case jo of None \<Rightarrow> E | Some i \<Rightarrow> E(i := 1)) r' t'"
| log_blocking: "resolver_log os L F E r t \<Longrightarrow> CHR '':'' \<notin> set port \<Longrightarrow>
    resolve_blocking os host port out err r t = (ok, out', err', r', t') \<Longrightarrow>
    resolver_log os (blocking_stores os host port out err r t @ L) F E r' t'"
| log_collect: "resolver_log os L F E r t \<Longrightarrow> E i = 1 \<Longrightarrow> j_ready (r_jobs r ! i) \<Longrightarrow>
    release_job i (update_job i (\<lambda>j. j\<lparr>j_endpoints := []\<rparr>) r) t = (r', t') \<Longrightarrow> resolver_log os L F (E(i := 0)) r' t'"
| log_abandon: "resolver_log os L F E r t \<Longrightarrow> E i = 1 \<Longrightarrow> release_job i r t = (r', t') \<Longrightarrow>
    resolver_log os L F (E(i := 0)) r' t'"
| log_shutdown: "resolver_log os L F E r t \<Longrightarrow> resolver_log os L F E (close_resolver r) t"
| log_open: "resolver_log os L F E r t \<Longrightarrow> os_socket os t a b c = Inr fd \<Longrightarrow>
    resolver_log os L (insert fd F) E r (EvSocket a b c (Inr fd) # t)"
| log_close: "resolver_log os L F E r t \<Longrightarrow> fd \<in> F \<Longrightarrow> resolver_log os L (F - {fd}) E r (EvClose fd # t)"
| log_other: "resolver_log os L F E r t \<Longrightarrow> opened_by ev = [] \<Longrightarrow> closed_by ev = None \<Longrightarrow> resolver_log os L F E r (ev # t)"

text \<open>Every run has such a record, and a recorded run is a run.\<close>

lemma resolver_log_run: "resolver_log os L F E r t \<Longrightarrow> resolver_run os F E r t"
  by (induction rule: resolver_log.induct) (blast intro: resolver_run.intros)+

lemma resolver_run_log: "resolver_run os F E r t \<Longrightarrow> \<exists>L. resolver_log os L F E r t"
  by (induction rule: resolver_run.induct) (blast intro: resolver_log.intros)+

text \<open>Every entry of the cache is the latest store under its key, and expires a TTL after that store.\<close>

definition logged :: "(string \<times> endpoint list \<times> int) list \<Rightarrow> resolver \<Rightarrow> bool" where
  "logged L r \<longleftrightarrow>
     (\<forall>key eps expires. map_of (r_cache r) key = Some (eps, expires) \<longrightarrow>
        (\<exists>stored. map_of L key = Some (eps, stored) \<and> expires = stored + r_ttl_s r * 10 ^ 9))"

lemma logged_fields: "logged L r \<Longrightarrow> r_cache r' = r_cache r \<Longrightarrow> r_ttl_s r' = r_ttl_s r \<Longrightarrow> logged L r'"
  by (simp add: logged_def)

lemma logged_get:
  assumes "logged L r" and "cache_get os key out r t = (hit, out', r', t')"
  shows "logged L r'" and "r_ttl_s r' = r_ttl_s r"
  using assms by (auto simp: logged_def cache_get_def Let_def AList.delete_conv' split: option.splits if_splits)

lemma logged_put:
  assumes "logged L r" and "cache_put os key eps r t = (r', t')"
  shows "logged ((if 0 < r_ttl_s r then [(key, eps, os_clock os t)] else []) @ L) r'"
  using assms by (auto simp: logged_def cache_put_def Let_def AList.update_conv' split: if_splits)

lemma logged_worker:
  assumes "logged L r" and "worker_step os k r t = Some (r', t')"
  shows "logged (worker_stores os k r t @ L) r'"
  using assms(2)
proof (cases rule: worker_step_cases)
  case (store i ok r1)
  have "logged (worker_stores os k r t @ L) r1"
    using store(1) store(3) [symmetric] assms(1) logged_put [OF assms(1)] by (cases ok) (auto simp: worker_stores_def Let_def)
  then show ?thesis by (rule logged_fields) (simp_all add: store(2) set_worker_def)
qed (use assms(1) in \<open>auto simp: worker_stores_def set_worker_def update_job_def release_job_def Let_def elim: logged_fields\<close>)

lemma logged_blocking:
  assumes "logged L r" and "resolve_blocking os host port out err r t = (ok, out', err', r', t')"
  shows "logged (blocking_stores os host port out err r t @ L) r'"
proof -
  obtain hit out1 r1 t1 where g: "cache_get os (dns_key host port) out r t = (hit, out1, r1, t1)"
    by (metis prod_cases4)
  obtain ok2 out2 err2 r2 t2 where l: "do_lookup os host port out1 err r1 t1 = (ok2, out2, err2, r2, t2)"
    by (metis prod_cases5)
  obtain r3 t3 where p: "cache_put os (dns_key host port) out2 r2 t2 = (r3, t3)" by fastforce
  note G = logged_get [OF assms(1) g]
  have L: "logged L r2" "r_ttl_s r2 = r_ttl_s r"
    using logged_fields [OF G(1), of r2] G(2) by (simp_all add: do_lookup_effect(2) [OF l])
  show ?thesis
    using assms(2) logged_put [OF L(1) p] L G(1) logged_fields [OF G(1), of r']
    by (auto simp: resolve_blocking_def blocking_stores_def g l p split: if_splits)
qed

lemma logged_start:
  assumes "logged L r" and "start os host port out None err r t = (st, out', jo, err', r', t')"
  shows "logged L r'"
proof -
  obtain hit out1 r1 t1 where g: "cache_get os (dns_key host port) out r t = (hit, out1, r1, t1)"
    by (metis prod_cases4)
  obtain ok re we t2 where p: "make_pipe os (-1) (-1) t1 = (ok, re, we, t2)" by (metis prod_cases4)
  note G = logged_get [OF assms(1) g]
  have "r_cache r' = r_cache r1 \<and> r_ttl_s r' = r_ttl_s r1"
    using assms(2)
    by (auto simp: start_def g p Let_def release_job_def update_job_def release_opt_def split: if_splits)
  then show ?thesis using logged_fields [OF G(1)] by blast
qed

lemma resolver_log_logged: "resolver_log os L F E r t \<Longrightarrow> logged L r"
proof (induction rule: resolver_log.induct)
  case (log_new t n ttl delay)
  show ?case by (simp add: logged_def new_resolver_def)
qed (auto simp: release_job_def update_job_def close_resolver_def Let_def split: if_splits
       intro: logged_worker logged_start logged_blocking elim: logged_fields)

text \<open>
  C34. The DNS cache honours its TTL: a hit answers with the candidates that were stored last under this
  host and port, less than the TTL has passed on the steady clock since that store, however often the
  entry was used meanwhile, and the candidates are an answer of the name service for this very host and
  port.
\<close>

theorem dns_cache_honours_ttl:
  assumes "fresh_descriptors os" and "resolver_log os L F E r t" and "CHR '':'' \<notin> set port"
    and "cache_get os (dns_key host port) out r t = (True, eps, r', t')"
  shows "looked_up t host port True eps \<and>
    (\<exists>stored. map_of L (dns_key host port) = Some (eps, stored) \<and> os_clock os t < stored + r_ttl_s r * 10 ^ 9)"
proof -
  have "cache_sound r t" using resolver_run_inv [OF assms(1) resolver_log_run [OF assms(2)]] by (simp add: resolver_inv_def)
  from cache_get_sound(2) [OF this assms(3,4)] obtain now where
    "looked_up t' host port True eps" "t' = EvClock now # t" by blast
  then have "looked_up t host port True eps" by (auto simp: looked_up_def)
  moreover obtain expires where "map_of (r_cache r) (dns_key host port) = Some (eps, expires)" "os_clock os t < expires"
    using assms(4) by (auto simp: cache_get_def Let_def split: option.splits if_splits)
  ultimately show ?thesis using resolver_log_logged [OF assms(2)] unfolding logged_def by blast
qed

theorem dns_cache_honours_ttl_witness:
  "\<exists>L r t r' t' eps stored. resolver_log (demo_os (\<lambda>_. [])) L {} (\<lambda>_. 0) r t \<and>
     cache_get (demo_os (\<lambda>_. [])) (dns_key ''h'' ''80'') [] r t = (True, eps, r', t') \<and>
     map_of L (dns_key ''h'' ''80'') = Some (eps, stored)"
proof -
  let ?os = "demo_os (\<lambda>_. [])"
  have new: "resolver_log ?os [] {} (\<lambda>_. 0) (new_resolver 1 60 0) []" using log_new [of ?os "[]"] by simp
  obtain out r t where b: "resolve_blocking ?os ''h'' ''80'' [] [] (new_resolver 1 60 0) [] = (True, out, [], r, t)"
    and g: "\<exists>eps r' t'. cache_get ?os (dns_key ''h'' ''80'') [] r t = (True, eps, r', t')"
    by (simp add: resolve_blocking_def cache_get_def cache_put_def do_lookup_def resolve_def new_resolver_def demo_os_def
        endpoint_of_def)
  obtain L where log: "resolver_log ?os L {} (\<lambda>_. 0) r t" using log_blocking [OF new _ b] by auto
  obtain eps r' t' where g': "cache_get ?os (dns_key ''h'' ''80'') [] r t = (True, eps, r', t')" using g by blast
  obtain stored where "map_of L (dns_key ''h'' ''80'') = Some (eps, stored)"
    using dns_cache_honours_ttl [OF _ log _ g'] by auto
  with log g' show ?thesis by blast
qed

end
