(* ===== verification/Connection.thy ===== *)
theory Connection
  imports Http Config Cache Socket Resolver
begin

text \<open>
  Model of \<^verbatim>\<open>src/src/connection.hpp\<close> and \<^verbatim>\<open>src/src/connection.cpp\<close>: the state machine that all three
  backends drive. What a connection shares with the rest of the process (the history of system
  calls, the resolver, the response cache behind its pointer) is the record \<open>world\<close>, which every
  operation takes and returns. An operation that may leave the function by an exception, that
  dereferences a null pointer, or whose system call may be retried for ever is option-valued.
  Log messages are left out.
\<close>

section \<open>Data\<close>

datatype want = ReadClient | WriteClient | ReadUpstream | WriteUpstream | ReadResolver | WantNone

datatype conn_state =
  ReadingRequest | Resolving | Connecting | SendingUpstream | Relaying | Failing | Done

record world =
  w_trace :: trace
  w_res :: resolver
  w_cache :: "lru option"

record connection =
  c_client :: fd
  c_upstream :: fd
  c_id :: uint64
  c_state :: conn_state
  c_want :: want
  c_epoch :: uint64
  c_req :: request
  c_parsed :: bool
  c_job :: "job_id option"
  c_endpoints :: "endpoint list"
  c_endpoint_idx :: size_t
  c_in_client :: string
  c_out_upstream :: string
  c_out_upstream_off :: size_t
  c_out_client :: string
  c_out_client_off :: size_t
  c_upstream_eof :: bool
  c_cache_key :: string
  c_cache_accum :: string
  c_cache_too_big :: bool

definition init_connection :: "fd \<Rightarrow> uint64 \<Rightarrow> connection" where
  "init_connection client cid =
     \<lparr>c_client = client, c_upstream = -1, c_id = cid, c_state = ReadingRequest, c_want = ReadClient, c_epoch = 0,
      c_req = init_request, c_parsed = False, c_job = None, c_endpoints = [], c_endpoint_idx = 0,
      c_in_client = [], c_out_upstream = [], c_out_upstream_off = 0, c_out_client = [], c_out_client_off = 0,
      c_upstream_eof = False, c_cache_key = [], c_cache_accum = [], c_cache_too_big = False\<rparr>"

definition new_connection :: "os \<Rightarrow> fd \<Rightarrow> uint64 \<Rightarrow> world \<Rightarrow> connection \<times> world" where
  "new_connection os client cid w =
     (init_connection client cid, w\<lparr>w_trace := snd (set_nonblocking os client (w_trace w))\<rparr>)"

definition want_fd :: "connection \<Rightarrow> world \<Rightarrow> fd" where
  "want_fd c w =
     (case c_want c of
        ReadClient \<Rightarrow> c_client c
      | WriteClient \<Rightarrow> c_client c
      | ReadUpstream \<Rightarrow> c_upstream c
      | WriteUpstream \<Rightarrow> c_upstream c
      | ReadResolver \<Rightarrow> (case c_job c of Some i \<Rightarrow> j_read_end (r_jobs (w_res w) ! i) | None \<Rightarrow> -1)
      | WantNone \<Rightarrow> -1)"

definition want_write :: "connection \<Rightarrow> bool" where
  "want_write c \<longleftrightarrow> c_want c = WriteClient \<or> c_want c = WriteUpstream"

definition conn_done :: "connection \<Rightarrow> bool" where
  "conn_done c \<longleftrightarrow> c_state c = Done"

definition set_want :: "want \<Rightarrow> connection \<Rightarrow> connection" where
  "set_want v c = c\<lparr>c_want := v, c_epoch := c_epoch c + 1\<rparr>"


section \<open>Ending an exchange\<close>

definition fail_with :: "string \<Rightarrow> connection \<Rightarrow> world \<Rightarrow> connection \<times> world" where
  "fail_with response c w =
     (set_want WriteClient
        (c\<lparr>c_upstream := -1, c_out_client := response, c_out_client_off := 0, c_state := Failing\<rparr>),
      w\<lparr>w_trace := fd_destroy (c_upstream c) (w_trace w)\<rparr>)"

definition drop_job :: "job_id option \<Rightarrow> world \<Rightarrow> world" where
  "drop_job jo w =
     (let (r, t) = release_opt jo (w_res w) (w_trace w) in w\<lparr>w_res := r, w_trace := t\<rparr>)"

definition finish :: "connection \<Rightarrow> world \<Rightarrow> connection \<times> world" where
  "finish c w =
     (let w1 = drop_job (c_job c) w in
      ((set_want WantNone (c\<lparr>c_state := Done\<rparr>))\<lparr>c_job := None, c_upstream := -1, c_client := -1\<rparr>,
       w1\<lparr>w_trace := fd_destroy (c_client c) (fd_destroy (c_upstream c) (w_trace w1))\<rparr>))"

text \<open>The destructor: the members that own something go in reverse order of declaration.\<close>

definition destroy_connection :: "connection \<Rightarrow> world \<Rightarrow> world" where
  "destroy_connection c w =
     (let w1 = drop_job (c_job c) w in
      w1\<lparr>w_trace := fd_destroy (c_client c) (fd_destroy (c_upstream c) (w_trace w1))\<rparr>)"


section \<open>Connecting\<close>

function begin_connect :: "os \<Rightarrow> string \<Rightarrow> connection \<Rightarrow> world \<Rightarrow> connection \<times> world" where
  "begin_connect os err c w =
     (if c_endpoint_idx c < length (c_endpoints c) then
        let (st, fd, err1, t1) = start_connect os (c_endpoints c ! c_endpoint_idx c) (-1) err (w_trace w);
            c1 = c\<lparr>c_endpoint_idx := c_endpoint_idx c + 1\<rparr>;
            w1 = w\<lparr>w_trace := t1\<rparr>
        in if st = ConnectFailed then begin_connect os err1 c1 (w1\<lparr>w_trace := fd_destroy fd t1\<rparr>)
           else
             let (up, t2) = fd_reset (c_upstream c1) fd t1;
                 c2 = c1\<lparr>c_upstream := up\<rparr>;
                 w2 = w\<lparr>w_trace := t2\<rparr>
             in if st = Connected then (set_want WriteUpstream (c2\<lparr>c_state := SendingUpstream\<rparr>), w2)
                else (set_want WriteUpstream (c2\<lparr>c_state := Connecting\<rparr>), w2)
      else fail_with (error_response 502 ''Bad Gateway'') c w)"
  by pat_completeness auto
termination
  by (relation "measure (\<lambda>(os, err, c, w). length (c_endpoints c) - c_endpoint_idx c)") auto

declare begin_connect.simps [simp del]

definition finish_connect :: "os \<Rightarrow> connection \<Rightarrow> world \<Rightarrow> connection \<times> world" where
  "finish_connect os c w =
     (let (ok, err, t1) = connect_succeeded os (c_upstream c) [] (w_trace w);
          w1 = w\<lparr>w_trace := t1\<rparr>
      in if \<not> ok then
           begin_connect os [] (c\<lparr>c_upstream := -1\<rparr>) (w1\<lparr>w_trace := fd_destroy (c_upstream c) t1\<rparr>)
         else (set_want WriteUpstream (c\<lparr>c_state := SendingUpstream\<rparr>), w1))"


section \<open>Resolving\<close>

definition begin_resolve :: "os \<Rightarrow> config \<Rightarrow> connection \<Rightarrow> world \<Rightarrow> connection \<times> world" where
  "begin_resolve os cfg c w =
     (let req = c_req c in
      if \<not> async_resolve cfg then
        let (ok, eps, err, r, t) =
              resolve_blocking os (rq_host req) (rq_port req) (c_endpoints c) [] (w_res w) (w_trace w);
            c1 = c\<lparr>c_endpoints := eps\<rparr>;
            w1 = w\<lparr>w_res := r, w_trace := t\<rparr>
        in if \<not> ok then fail_with (error_response 502 ''Bad Gateway'') c1 w1
           else begin_connect os [] (c1\<lparr>c_endpoint_idx := 0\<rparr>) w1
      else
        let (st, eps, job, err, r, t) =
              start os (rq_host req) (rq_port req) (c_endpoints c) (c_job c) [] (w_res w) (w_trace w);
            c1 = c\<lparr>c_endpoints := eps, c_job := job\<rparr>;
            w1 = w\<lparr>w_res := r, w_trace := t\<rparr>
        in case st of
             ResolveHit \<Rightarrow> begin_connect os [] (c1\<lparr>c_endpoint_idx := 0\<rparr>) w1
           | ResolvePending \<Rightarrow> (set_want ReadResolver (c1\<lparr>c_state := Resolving\<rparr>), w1)
           | ResolveFailed \<Rightarrow> fail_with (error_response 502 ''Bad Gateway'') c1 w1)"

definition finish_resolve :: "os \<Rightarrow> connection \<Rightarrow> world \<Rightarrow> (connection \<times> world) option" where
  "finish_resolve os c w =
     (case c_job c of
        None \<Rightarrow> None
      | Some i \<Rightarrow>
          let j = r_jobs (w_res w) ! i;
              drained = os_read os (w_trace w) (j_read_end j) 8;
              w1 = w\<lparr>w_trace := EvRead (j_read_end j) 8 drained # w_trace w\<rparr>
          in if \<not> j_ready j then Some (c, w1)
             else
               let ok = j_ok j;
                   c1 = (if ok then c\<lparr>c_endpoints := j_endpoints j\<rparr> else c);
                   w2 = (if ok then w1\<lparr>w_res := update_job i (\<lambda>j. j\<lparr>j_endpoints := []\<rparr>) (w_res w1)\<rparr> else w1);
                   c2 = c1\<lparr>c_job := None\<rparr>;
                   w3 = drop_job (Some i) w2
               in if \<not> ok then Some (fail_with (error_response 502 ''Bad Gateway'') c2 w3)
                  else Some (begin_connect os [] (c2\<lparr>c_endpoint_idx := 0\<rparr>) w3))"


section \<open>The cache policy\<close>

definition cacheable_request :: "config \<Rightarrow> request \<Rightarrow> bool" where
  "cacheable_request cfg req \<longleftrightarrow>
     cache_enabled cfg \<and> \<not> (rq_method req \<noteq> ''GET'' \<and> rq_method req \<noteq> ''HEAD'') \<and>
     header_value req ''Authorization'' = [] \<and> header_value req ''Cookie'' = []"

text \<open>\<^verbatim>\<open>std::string::compare(pos, n, s) == 0\<close>, which throws beyond the end.\<close>

definition compare_at :: "string \<Rightarrow> size_t \<Rightarrow> size_t \<Rightarrow> string \<Rightarrow> bool option" where
  "compare_at s pos n lit = (if pos > length s then None else Some (take n (drop pos s) = lit))"

definition store_in_cache :: "connection \<Rightarrow> world \<Rightarrow> world option" where
  "store_in_cache c w =
     (case w_cache w of
        None \<Rightarrow> Some w
      | Some cache \<Rightarrow>
          if c_cache_key c = [] \<or> c_cache_too_big c then Some w
          else if \<not> c_upstream_eof c then Some w
          else do {
            v11 \<leftarrow> compare_at (c_cache_accum c) 0 9 ''HTTP/1.1 '';
            v10 \<leftarrow> compare_at (c_cache_accum c) 0 9 ''HTTP/1.0 '';
            if \<not> v11 \<and> \<not> v10 then Some w
            else do {
              ok \<leftarrow> compare_at (c_cache_accum c) 9 3 ''200'';
              if \<not> ok then Some w
              else if find_str (crlf @ ''Set-Cookie:'') (c_cache_accum c) \<noteq> None \<or>
                      find_str (crlf @ ''set-cookie:'') (c_cache_accum c) \<noteq> None then Some w
              else do {
                cache1 \<leftarrow> lru_put (c_cache_key c) (c_cache_accum c) cache;
                Some (w\<lparr>w_cache := Some cache1\<rparr>)
              }
            }
          })"


section \<open>Reading and writing\<close>

definition io_chunk :: "config \<Rightarrow> size_t" where
  "io_chunk cfg = (if io_chunk_bytes cfg < 65536 then io_chunk_bytes cfg else 65536)"

text \<open>The part of \<^verbatim>\<open>do_read_client\<close> that runs once the whole body has arrived.\<close>

definition request_complete :: "os \<Rightarrow> config \<Rightarrow> connection \<Rightarrow> world \<Rightarrow> (connection \<times> world) option" where
  "request_complete os cfg c w = do {
     body \<leftarrow> substr (c_in_client c) (rq_header_bytes (c_req c)) (rq_content_length (c_req c));
     let c1 = c\<lparr>c_out_upstream := build_upstream_request (c_req c) body, c_out_upstream_off := 0\<rparr>;
     (case w_cache w of
        None \<Rightarrow> Some (begin_resolve os cfg c1 w)
      | Some cache \<Rightarrow>
          if \<not> cacheable_request cfg (c_req c1) then Some (begin_resolve os cfg c1 w)
          else
            let key = cache_key (rq_method (c_req c1)) (rq_host (c_req c1)) (rq_port (c_req c1)) (rq_path (c_req c1));
                c2 = c1\<lparr>c_cache_key := key\<rparr>
            in do {
              (hit, cached, cache1) \<leftarrow> lru_get key [] cache;
              let w1 = w\<lparr>w_cache := Some cache1\<rparr>;
              if hit then Some (fail_with cached c2 w1) else Some (begin_resolve os cfg c2 w1)
            })
   }"

definition do_read_client :: "os \<Rightarrow> config \<Rightarrow> connection \<Rightarrow> world \<Rightarrow> (connection \<times> world) option" where
  "do_read_client os cfg c w = do {
     ((st, bs), t1) \<leftarrow> read_some os (c_client c) (io_chunk cfg) (w_trace w);
     let w1 = w\<lparr>w_trace := t1\<rparr>;
     (case st of
        IoWouldBlock \<Rightarrow> Some (c, w1)
      | IoError \<Rightarrow> Some (finish c w1)
      | IoClosed \<Rightarrow> Some (finish c w1)
      | IoOk \<Rightarrow>
          let c1 = c\<lparr>c_in_client := c_in_client c @ bs\<rparr>;
              rest = (\<lambda>c. if length (c_in_client c) < (rq_header_bytes (c_req c) + rq_content_length (c_req c)) mod 2 ^ 64
                          then Some (c, w1) else request_complete os cfg c w1)
          in if c_parsed c1 then rest c1
             else do {
               (pr, req) \<leftarrow> parse_request (c_in_client c1) (c_req c1);
               let c2 = c1\<lparr>c_req := req\<rparr>;
               (case pr of
                  Incomplete \<Rightarrow>
                    if length (c_in_client c2) > max_header_bytes cfg
                    then Some (fail_with (error_response 400 ''Bad Request'') c2 w1) else Some (c2, w1)
                | BadRequest \<Rightarrow> Some (fail_with (error_response 400 ''Bad Request'') c2 w1)
                | NotImplemented \<Rightarrow> Some (fail_with (error_response 501 ''Not Implemented'') c2 w1)
                | Ok \<Rightarrow>
                    if rq_content_length (c_req c2) > max_body_bytes cfg
                    then Some (fail_with (error_response 413 ''Payload Too Large'') c2 w1)
                    else rest (c2\<lparr>c_parsed := True\<rparr>))
             })
   }"

definition do_write_upstream :: "os \<Rightarrow> connection \<Rightarrow> world \<Rightarrow> (connection \<times> world) option" where
  "do_write_upstream os c w = do {
     ((st, n), t1) \<leftarrow> write_some os (c_upstream c) (drop (c_out_upstream_off c) (c_out_upstream c)) (w_trace w);
     let w1 = w\<lparr>w_trace := t1\<rparr>;
     if st = IoWouldBlock then Some (c, w1)
     else if st \<noteq> IoOk then Some (fail_with (error_response 502 ''Bad Gateway'') c w1)
     else
       let c1 = c\<lparr>c_out_upstream_off := c_out_upstream_off c + n\<rparr> in
       if c_out_upstream_off c1 < length (c_out_upstream c1) then Some (c1, w1)
       else Some (set_want ReadUpstream
                    (c1\<lparr>c_out_upstream := [], c_out_upstream_off := 0, c_state := Relaying\<rparr>), w1)
   }"

definition accumulate :: "config \<Rightarrow> string \<Rightarrow> connection \<Rightarrow> connection" where
  "accumulate cfg bs c =
     (if c_cache_key c \<noteq> [] \<and> \<not> c_cache_too_big c then
        if length (c_cache_accum c) + length bs > cache_max_entry_bytes cfg
        then c\<lparr>c_cache_too_big := True, c_cache_accum := []\<rparr>
        else c\<lparr>c_cache_accum := c_cache_accum c @ bs\<rparr>
      else c)"

definition do_read_upstream :: "os \<Rightarrow> config \<Rightarrow> connection \<Rightarrow> world \<Rightarrow> (connection \<times> world) option" where
  "do_read_upstream os cfg c w = do {
     ((st, bs), t1) \<leftarrow> read_some os (c_upstream c) (io_chunk cfg) (w_trace w);
     let w1 = w\<lparr>w_trace := t1\<rparr>;
     (case st of
        IoWouldBlock \<Rightarrow> Some (c, w1)
      | IoError \<Rightarrow> Some (finish c w1)
      | IoClosed \<Rightarrow>
          let c1 = c\<lparr>c_upstream_eof := True, c_upstream := -1\<rparr>;
              w2 = w1\<lparr>w_trace := fd_destroy (c_upstream c) t1\<rparr>
          in do {
            w3 \<leftarrow> store_in_cache c1 w2;
            if c_out_client_off c1 \<ge> length (c_out_client c1) then Some (finish c1 w3)
            else Some (set_want WriteClient c1, w3)
          }
      | IoOk \<Rightarrow>
          let c1 = accumulate cfg bs c in
          Some (set_want WriteClient (c1\<lparr>c_out_client := c_out_client c1 @ bs\<rparr>), w1))
   }"

definition do_write_client :: "os \<Rightarrow> connection \<Rightarrow> world \<Rightarrow> (connection \<times> world) option" where
  "do_write_client os c w = do {
     ((st, n), t1) \<leftarrow> write_some os (c_client c) (drop (c_out_client_off c) (c_out_client c)) (w_trace w);
     let w1 = w\<lparr>w_trace := t1\<rparr>;
     if st = IoWouldBlock then Some (c, w1)
     else if st \<noteq> IoOk then Some (finish c w1)
     else
       let c1 = c\<lparr>c_out_client_off := c_out_client_off c + n\<rparr> in
       if c_out_client_off c1 < length (c_out_client c1) then Some (c1, w1)
       else
         let c2 = c1\<lparr>c_out_client := [], c_out_client_off := 0\<rparr> in
         if c_state c2 = Failing \<or> c_upstream_eof c2 then Some (finish c2 w1)
         else Some (set_want ReadUpstream c2, w1)
   }"

definition on_ready :: "os \<Rightarrow> config \<Rightarrow> connection \<Rightarrow> world \<Rightarrow> (connection \<times> world) option" where
  "on_ready os cfg c w =
     (case c_want c of
        ReadClient \<Rightarrow> do_read_client os cfg c w
      | WriteClient \<Rightarrow> do_write_client os c w
      | ReadUpstream \<Rightarrow> do_read_upstream os cfg c w
      | ReadResolver \<Rightarrow> finish_resolve os c w
      | WriteUpstream \<Rightarrow>
          if c_state c = Connecting then Some (finish_connect os c w) else do_write_upstream os c w
      | WantNone \<Rightarrow> Some (finish c w))"

end
