(* ===== verification/Connection_Safety.thy ===== *)
theory Connection_Safety
  imports Connection Resolver_Safety
begin

text \<open>
  What a connection keeps true. \<open>conn_base\<close> says what it owns: two sockets, at most one reference to
  a resolver job, and that nobody else's descriptors (\<open>F\<close>) or references (\<open>E\<close>) are among them.
  \<open>state_ok\<close> says, for each state of the machine, which bytes have gone through the two sockets and
  what the buffers hold. Every operation preserves both and leaves the other owners alone
  (\<open>step_ok\<close>), and \<open>on_ready\<close> always returns.
\<close>

section \<open>Ownership\<close>

definition cfds :: "connection \<Rightarrow> fd set" where
  "cfds c = {c_client c, c_upstream c} \<inter> {0..}"

definition hold :: "(job_id \<Rightarrow> nat) \<Rightarrow> job_id option \<Rightarrow> job_id \<Rightarrow> nat" where
  "hold E jo = (case jo of None \<Rightarrow> E | Some i \<Rightarrow> E(i := 1))"

lemma cfds_closed [simp]: "cfds (c\<lparr>c_upstream := -1\<rparr>) = {c_client c} \<inter> {0..}"
  by (auto simp: cfds_def)

lemma hold_None [simp]: "hold E None = E"
  by (simp add: hold_def)

abbreviation request_key :: "request \<Rightarrow> string" where
  "request_key req \<equiv> cache_key (rq_method req) (rq_host req) (rq_port req) (rq_path req)"

text \<open>
  What the cache accepts: a 200 with no \<^verbatim>\<open>Set-Cookie\<close> field in either of the two spellings the code looks
  for. Other spellings of the field name are not recognised.
\<close>

definition storable :: "string \<Rightarrow> bool" where
  "storable v \<longleftrightarrow>
     (take 9 v = ''HTTP/1.1 '' \<or> take 9 v = ''HTTP/1.0 '') \<and> take 3 (drop 9 v) = ''200'' \<and>
     \<not> sublist (crlf @ ''Set-Cookie:'') v \<and> \<not> sublist (crlf @ ''set-cookie:'') v"

text \<open>
  Where a cached response comes from: some upstream socket was sent the rebuilt form of a cacheable
  request with this key, answered exactly these bytes, and then closed its side.
\<close>

definition from_origin :: "config \<Rightarrow> trace \<Rightarrow> string \<Rightarrow> string \<Rightarrow> bool" where
  "from_origin cfg t key v \<longleftrightarrow>
     (\<exists>up len t0 buf req body. suffix (EvRecv up len (Inr []) # t0) t \<and>
        parse_request buf init_request = Some (Ok, req) \<and> cacheable_request cfg req \<and> key = request_key req \<and>
        sent_bytes up t0 = build_upstream_request req body \<and> received_bytes up t0 = v) \<and>
     storable v \<and> length v \<le> cache_max_entry_bytes cfg"

lemma from_origin_mono: "from_origin cfg t key v \<Longrightarrow> suffix t t' \<Longrightarrow> from_origin cfg t' key v"
  unfolding from_origin_def using suffix_order.trans by blast

definition cache_ok :: "config \<Rightarrow> world \<Rightarrow> bool" where
  "cache_ok cfg w \<longleftrightarrow>
     (case w_cache w of
        None \<Rightarrow> True
      | Some cache \<Rightarrow> lru_inv cache \<and>
          (\<forall>key v. map_of (entries_of cache) key = Some v \<longrightarrow> from_origin cfg (w_trace w) key v))"

definition owned :: "config \<Rightarrow> fd set \<Rightarrow> (job_id \<Rightarrow> nat) \<Rightarrow> job_id option \<Rightarrow> world \<Rightarrow> bool" where
  "owned cfg G E jo w \<longleftrightarrow>
     jobs_own G (w_res w) (w_trace w) \<and> resolver_inv (hold E jo) (w_res w) (w_trace w) \<and>
     (\<forall>i. jo = Some i \<longrightarrow> E i = 0) \<and> cache_ok cfg w"

definition conn_base :: "config \<Rightarrow> fd set \<Rightarrow> (job_id \<Rightarrow> nat) \<Rightarrow> connection \<Rightarrow> world \<Rightarrow> bool" where
  "conn_base cfg F E c w \<longleftrightarrow>
     owned cfg (F \<union> cfds c) E (c_job c) w \<and> F \<inter> cfds c = {} \<and> (c_client c \<noteq> c_upstream c \<or> c_upstream c = -1) \<and>
     -1 \<le> c_client c \<and> -1 \<le> c_upstream c"

text \<open>What an operation leaves to the other owners.\<close>

definition jobs_kept :: "(job_id \<Rightarrow> nat) \<Rightarrow> resolver \<Rightarrow> resolver \<Rightarrow> bool" where
  "jobs_kept E r r' \<longleftrightarrow>
     (\<forall>i. E i = 1 \<longrightarrow> j_host (r_jobs r' ! i) = j_host (r_jobs r ! i) \<and> j_port (r_jobs r' ! i) = j_port (r_jobs r ! i) \<and>
        j_read_end (r_jobs r' ! i) = j_read_end (r_jobs r ! i))"

definition pipes :: "(job_id \<Rightarrow> nat) \<Rightarrow> resolver \<Rightarrow> fd set" where
  "pipes E r = {fd. 0 \<le> fd \<and> (\<exists>i. E i = 1 \<and> fd = j_read_end (r_jobs r ! i))}"

text \<open>Histories that grow without anything being registered with a kqueue.\<close>

definition plain :: "event \<Rightarrow> bool" where
  "plain ev \<longleftrightarrow> (\<forall>kq t x u. registered kq (ev # t) x = Some u \<longrightarrow> registered kq t x = Some u)"

definition grows :: "trace \<Rightarrow> trace \<Rightarrow> bool" where
  "grows t t' \<longleftrightarrow> only_events plain t t'"

lemma quiet_plain: "quiet ev \<Longrightarrow> plain ev"
  by (simp add: plain_def quiet_effects del: registered.simps)

lemma plain_events [simp]:
  "plain (EvClose fd)" "plain (EvSocket a b c r)" "plain (EvPipe p)" "plain (EvAccept fd r)" "plain (EvRecv fd len bs)"
  "plain (EvSend fd s n)" "plain (EvKqueue r)" "plain (EvKevDelete k fd w e)" "plain (EvConnect fd addr e)"
  "plain (EvFcntlGetFl fd g)" "plain (EvFcntlSetFl fd n' e)"
  by (auto simp: plain_def split: if_splits sum.splits)

lemma grows_refl [simp]: "grows t t"
  by (simp add: grows_def)

lemma grows_trans: "grows t t1 \<Longrightarrow> grows t1 t2 \<Longrightarrow> grows t t2"
  unfolding grows_def by (rule only_events_trans)

lemma grows_Cons: "plain ev \<Longrightarrow> grows t t' \<Longrightarrow> grows t (ev # t')"
  unfolding grows_def by (rule only_events_Cons)

lemma grows_quiet: "only_events quiet t t' \<Longrightarrow> grows t t'"
  unfolding grows_def using only_events_mono quiet_plain by blast

lemma grows_suffix: "grows t t' \<Longrightarrow> suffix t t'"
  by (auto simp: grows_def only_events_def suffix_def)

lemma grows_registered:
  assumes "grows t t'" and "registered kq t' x = Some u"
  shows "registered kq t x = Some u"
proof -
  have step: "registered kq (ev # t) x = Some u \<Longrightarrow> registered kq t x = Some u" if "plain ev" for ev t
    using that unfolding plain_def by blast
  have "(\<forall>ev\<in>set evs. plain ev) \<longrightarrow> registered kq (evs @ t) x = Some u \<longrightarrow> registered kq t x = Some u" for evs
  proof (induction evs)
    case (Cons ev evs)
    then show ?case using step [of ev "evs @ t"] by (simp del: registered.simps)
  qed simp
  then show ?thesis using assms by (auto simp: grows_def only_events_def)
qed

definition step_ok :: "fd set \<Rightarrow> (job_id \<Rightarrow> nat) \<Rightarrow> world \<Rightarrow> world \<Rightarrow> bool" where
  "step_ok F E w w' \<longleftrightarrow>
     untouched (F \<union> pipes E (w_res w)) (w_trace w) (w_trace w') \<and> grows (w_trace w) (w_trace w') \<and> jobs_kept E (w_res w) (w_res w') \<and>
     (w_cache w' = None \<longleftrightarrow> w_cache w = None)"

lemma step_ok_refl [simp]: "step_ok F E w w"
  by (simp add: step_ok_def jobs_kept_def)

lemma pipes_kept: "jobs_kept E r r' \<Longrightarrow> pipes E r' = pipes E r"
  by (auto simp: pipes_def jobs_kept_def)

lemma step_ok_trans:
  assumes "step_ok F E w w1" and "step_ok F E w1 w2"
  shows "step_ok F E w w2"
proof -
  let ?F = "F \<union> pipes E (w_res w)"
  have "untouched ?F (w_trace w) (w_trace w1)" "untouched ?F (w_trace w1) (w_trace w2)"
    using assms pipes_kept [of E "w_res w" "w_res w1"] by (simp_all add: step_ok_def)
  then have "untouched ?F (w_trace w) (w_trace w2)" using untouched_trans [of ?F _ _ ?F] by simp
  then show ?thesis using assms grows_trans by (auto simp: step_ok_def jobs_kept_def)
qed

lemma step_ok_untouched: "step_ok F E w w' \<Longrightarrow> untouched F (w_trace w) (w_trace w')"
  using untouched_mono [of "F \<union> pipes E (w_res w)" "w_trace w" "w_trace w'" F] by (simp add: step_ok_def)

lemma step_ok_trace:
  assumes "untouched (F \<union> pipes E (w_res w)) (w_trace w) t" and "grows (w_trace w) t"
  shows "step_ok F E w (w\<lparr>w_trace := t\<rparr>)"
  using assms by (simp add: step_ok_def jobs_kept_def)

lemma suffix_set: "suffix t t' \<Longrightarrow> set t \<subseteq> set t'"
  by (auto simp: suffix_def)

lemma only_events_suffix: "only_events P t t' \<Longrightarrow> suffix t t'"
  by (auto simp: only_events_def suffix_def)

lemma fd_destroy_grows [simp]: "grows t (fd_destroy fd t)"
  by (simp add: fd_destroy_def fd_reset_def grows_Cons)

lemmas fd_destroy_suffix [simp] = grows_suffix [OF fd_destroy_grows]

lemma fd_destroy_invalid [simp]: "fd_destroy (-1) t = t"
  by (simp add: fd_destroy_def fd_reset_def)

lemma release_job_grows: "grows t (snd (release_job i r t))"
  by (auto simp: release_job_def Let_def intro: grows_trans [OF fd_destroy_grows fd_destroy_grows])

lemmas release_job_suffix = grows_suffix [OF release_job_grows]

lemma cache_ok_mono: "cache_ok cfg w \<Longrightarrow> suffix (w_trace w) t \<Longrightarrow> cache_ok cfg (w\<lparr>w_trace := t\<rparr>)"
  using from_origin_mono by (fastforce simp: cache_ok_def split: option.splits)

lemma cache_ok_res [simp]: "cache_ok cfg (w\<lparr>w_res := r\<rparr>) = cache_ok cfg w"
  by (cases "w_cache w") (simp_all add: cache_ok_def)

lemma cache_ok_res_trace [simp]: "cache_ok cfg (w\<lparr>w_res := r, w_trace := t\<rparr>) = cache_ok cfg (w\<lparr>w_trace := t\<rparr>)"
  by (cases "w_cache w") (simp_all add: cache_ok_def)

text \<open>The rules that move ownership.\<close>

lemma owned_trace:
  assumes "owned cfg G E jo w" and "open_fds t = open_fds (w_trace w)" and "suffix (w_trace w) t"
  shows "owned cfg G E jo (w\<lparr>w_trace := t\<rparr>)"
  using assms jobs_own_trace resolver_inv_mono [OF _ suffix_set] cache_ok_mono by (auto simp: owned_def)

lemma owned_destroy:
  assumes "owned cfg G E jo w" and "fd < 0 \<or> fd \<in> G"
  shows "owned cfg (G - ({fd} \<inter> {0..})) E jo (w\<lparr>w_trace := fd_destroy fd (w_trace w)\<rparr>)"
proof (cases "0 \<le> fd")
  case True
  then have d: "fd_destroy fd (w_trace w) = EvClose fd # w_trace w" and [simp]: "{fd} \<inter> {0..} = {fd}"
    by (auto simp: fd_destroy_def fd_reset_def)
  have s: "suffix (w_trace w) (EvClose fd # w_trace w)" by (simp add: suffix_ConsI)
  show ?thesis
    using assms True jobs_own_close resolver_inv_mono [OF _ suffix_set [OF s]] cache_ok_mono [OF _ s]
    by (auto simp: owned_def d)
next
  case False
  then have "{fd} \<inter> {0..} = {}" "fd_destroy fd (w_trace w) = w_trace w" by (auto simp: fd_destroy_def fd_reset_def)
  with assms(1) show ?thesis by simp
qed

lemma owned_open:
  assumes "owned cfg G E jo w" and "open_fds t = insert fd (open_fds (w_trace w))" and "fd \<notin> open_fds (w_trace w)"
    and "suffix (w_trace w) t"
  shows "owned cfg (insert fd G) E jo (w\<lparr>w_trace := t\<rparr>)"
  using assms jobs_own_open resolver_inv_mono [OF _ suffix_set] cache_ok_mono by (auto simp: owned_def)

lemma owned_subset: "owned cfg G E jo w \<Longrightarrow> G \<subseteq> open_fds (w_trace w)"
  by (auto simp: owned_def jobs_own_def)

text \<open>The pipes of jobs that others hold are open and nobody's sockets.\<close>

lemma owned_pipes:
  assumes own: "owned cfg G E jo w"
  shows "pipes E (w_res w) \<subseteq> open_fds (w_trace w)" and "pipes E (w_res w) \<inter> G = {}"
    and "jo = Some i \<Longrightarrow> pipes E (w_res w) \<inter> jfds (r_jobs (w_res w) ! i) = {}"
proof -
  have inv: "resolver_inv (hold E jo) (w_res w) (w_trace w)" and jo: "jobs_own G (w_res w) (w_trace w)" and z: "jo = Some i \<Longrightarrow> E i = 0" for i
    using own by (auto simp: owned_def)
  have len: "k < length (r_jobs (w_res w))" if "E k = 1" for k
    using resolver_inv_ids [OF inv, of k] that z [of k] by (auto simp: hold_def split: option.splits)
  have sub: "\<exists>k < length (r_jobs (w_res w)). E k = 1 \<and> fd \<in> jfds (r_jobs (w_res w) ! k)" if "fd \<in> pipes E (w_res w)" for fd
    using that len by (auto simp: pipes_def jfds_def)
  have job: "jfds (r_jobs (w_res w) ! k) \<subseteq> open_fds (w_trace w) \<and> G \<inter> jfds (r_jobs (w_res w) ! k) = {}"
    if "k < length (r_jobs (w_res w))" for k
    using jo nth_mem [OF that] unfolding jobs_own_def by blast
  show "pipes E (w_res w) \<subseteq> open_fds (w_trace w)" "pipes E (w_res w) \<inter> G = {}" using sub job by blast+
  assume i: "jo = Some i"
  have "hold E jo i = 1" using i z [OF i] by (simp add: hold_def)
  then have il: "i < length (r_jobs (w_res w))" by (rule resolver_inv_ids [OF inv])
  have "jfds (r_jobs (w_res w) ! k) \<inter> jfds (r_jobs (w_res w) ! i) = {}" if "k < length (r_jobs (w_res w))" "E k = 1" for k
  proof -
    have "k \<noteq> i" using that(2) z [OF i] by auto
    then show ?thesis using jo that(1) il unfolding jobs_own_def by blast
  qed
  then show "pipes E (w_res w) \<inter> jfds (r_jobs (w_res w) ! i) = {}" using sub by blast
qed

lemma base_pipes:
  assumes "conn_base cfg F E c w"
  shows "pipes E (w_res w) \<subseteq> open_fds (w_trace w)" and "pipes E (w_res w) \<inter> (F \<union> cfds c) = {}"
  using assms owned_pipes(1,2) unfolding conn_base_def by blast+

lemma release_job_untouched: "untouched (- jfds (r_jobs r ! i)) t (snd (release_job i r t))"
proof -
  let ?j = "r_jobs r ! i"
  have "untouched (- ({j_write_end ?j} \<inter> {0..}) \<inter> - ({j_read_end ?j} \<inter> {0..})) t (fd_destroy (j_read_end ?j) (fd_destroy (j_write_end ?j) t))"
    by (rule untouched_trans [OF fd_destroy_effect(2) fd_destroy_effect(2)])
  then have "untouched (- jfds ?j) t (fd_destroy (j_read_end ?j) (fd_destroy (j_write_end ?j) t))"
    by (rule untouched_mono) (auto simp: jfds_def)
  then show ?thesis by (simp add: release_job_def Let_def)
qed

lemma update_job_kept: "E i = 0 \<Longrightarrow> jobs_kept E r (update_job i f r)"
proof -
  assume "E i = 0"
  then have "r_jobs (update_job i f r) ! k = r_jobs r ! k" if "E k = 1" for k
    using that by (cases "k = i") (simp_all add: update_job_def)
  then show ?thesis by (simp add: jobs_kept_def)
qed

lemma release_job_kept: "E i = 0 \<Longrightarrow> jobs_kept E r (fst (release_job i r t))"
  by (simp add: release_job_def Let_def update_job_kept)

lemma jobs_kept_trans: "jobs_kept E r r1 \<Longrightarrow> jobs_kept E r1 r2 \<Longrightarrow> jobs_kept E r r2"
  by (simp add: jobs_kept_def)

text \<open>Giving up a job, after taking the answer out of it when it is ready.\<close>

lemma owned_collect:
  assumes own: "owned cfg G E (Some i) w" and f: "f = id \<or> j_ready (r_jobs (w_res w) ! i) \<and> f = (\<lambda>j. j\<lparr>j_endpoints := []\<rparr>)"
    and "F \<subseteq> G"
  shows "owned cfg G E None (drop_job (Some i) (w\<lparr>w_res := update_job i f (w_res w)\<rparr>))" (is "owned _ _ _ _ ?w")
    and "step_ok F E w (drop_job (Some i) (w\<lparr>w_res := update_job i f (w_res w)\<rparr>))"
proof -
  let ?r = "update_job i f (w_res w)" and ?t = "w_trace w"
  have E: "E i = 0" and inv: "resolver_inv (hold E (Some i)) (w_res w) ?t" and jo: "jobs_own G (w_res w) ?t"
    and c: "cache_ok cfg w"
    using own by (auto simp: owned_def)
  have i: "i < length (r_jobs (w_res w))" using resolver_inv_ids [OF inv] by (simp add: hold_def)
  have same: "j_ready (f j) = j_ready j" "j_host (f j) = j_host j" "j_port (f j) = j_port j" "j_refs (f j) = j_refs j"
    "jfds (f j) = jfds j" "j_read_end (f j) = j_read_end j" "j_write_end (f j) = j_write_end j" for j
    using f by (auto simp: jfds_def)
  have inv': "resolver_inv E (fst (release_job i ?r ?t)) (snd (release_job i ?r ?t))"
    using resolver_inv_release [OF inv _ same, of i] f E by (auto simp: hold_def fun_upd_idem)
  have jo': "jobs_own G ?r ?t" using jobs_own_update [OF jo i, of f] same by blast
  have rel: "jobs_own G (fst (release_job i ?r ?t)) (snd (release_job i ?r ?t))" "untouched G ?t (snd (release_job i ?r ?t))"
    using release_job_own [OF jo'] i by simp_all
  have w: "?w = w\<lparr>w_res := fst (release_job i ?r ?t), w_trace := snd (release_job i ?r ?t)\<rparr>"
    by (simp add: drop_job_def release_opt_def split_def Let_def)
  show "owned cfg G E None ?w"
    using rel(1) inv' cache_ok_mono [OF c release_job_suffix] by (simp add: w owned_def)
  have "r_jobs ?r ! i = f (r_jobs (w_res w) ! i)" using i by (simp add: update_job_def)
  then have "F \<union> pipes E (w_res w) \<subseteq> - jfds (r_jobs ?r ! i)"
    using owned_pipes(3) [OF own refl] jobs_own_disjoint [OF jo i] assms(3) same(5) by auto
  from untouched_mono [OF release_job_untouched this] show "step_ok F E w ?w"
    using jobs_kept_trans [OF update_job_kept [of E i, OF E] release_job_kept [of E i, OF E]] release_job_grows
    by (auto simp: w step_ok_def)
qed

lemma owned_drop:
  assumes "owned cfg G E jo w" and "F \<subseteq> G"
  shows "owned cfg G E None (drop_job jo w)" and "step_ok F E w (drop_job jo w)"
  using owned_collect [of cfg G E _ w id F] assms
  by (cases jo; simp add: drop_job_def release_opt_def)+


section \<open>The bytes of an exchange\<close>

definition error_pages :: "string set" where
  "error_pages = {error_response 400 ''Bad Request'', error_response 501 ''Not Implemented'',
     error_response 413 ''Payload Too Large'', error_response 502 ''Bad Gateway''}"

text \<open>A complete, accepted request is in the input buffer, and the buffer is all the client sent.\<close>

definition request_read :: "config \<Rightarrow> connection \<Rightarrow> trace \<Rightarrow> bool" where
  "request_read cfg c t \<longleftrightarrow>
     received_bytes (c_client c) t = c_in_client c \<and> parse_request (c_in_client c) init_request = Some (Ok, c_req c) \<and>
     rq_content_length (c_req c) \<le> max_body_bytes cfg \<and>
     (rq_header_bytes (c_req c) + rq_content_length (c_req c)) mod 2 ^ 64 \<le> length (c_in_client c) \<and>
     (c_cache_key c \<noteq> [] \<longrightarrow> cacheable_request cfg (c_req c) \<and> c_cache_key c = request_key (c_req c))"

definition request_body :: "connection \<Rightarrow> string" where
  "request_body c = take (rq_content_length (c_req c)) (drop (rq_header_bytes (c_req c)) (c_in_client c))"

definition request_text :: "connection \<Rightarrow> string" where
  "request_text c = build_upstream_request (c_req c) (request_body c)"

text \<open>Nothing of a response has been seen yet.\<close>

definition idle :: "connection \<Rightarrow> bool" where
  "idle c \<longleftrightarrow> c_out_client c = [] \<and> c_out_client_off c = 0 \<and> c_cache_accum c = [] \<and> \<not> c_cache_too_big c"

definition reply_ok :: "config \<Rightarrow> connection \<Rightarrow> trace \<Rightarrow> string \<Rightarrow> bool" where
  "reply_ok cfg c t reply \<longleftrightarrow>
     reply \<in> error_pages \<or>
     request_read cfg c t \<and> c_cache_key c \<noteq> [] \<and> from_origin cfg t (c_cache_key c) reply"

definition state_ok :: "config \<Rightarrow> connection \<Rightarrow> world \<Rightarrow> bool" where
  "state_ok cfg c w \<longleftrightarrow>
     (let t = w_trace w; cl = c_client c; up = c_upstream c in
      if c_state c = Done then c_want c = WantNone \<and> cl = -1 \<and> up = -1 \<and> c_job c = None
      else 0 \<le> cl \<and> \<not> c_upstream_eof c \<and>
        (case c_state c of
           ReadingRequest \<Rightarrow>
             c_want c = ReadClient \<and> up = -1 \<and> c_job c = None \<and> idle c \<and> sent_bytes cl t = [] \<and> c_cache_key c = [] \<and>
             received_bytes cl t = c_in_client c \<and>
             (if c_parsed c
              then parse_request (c_in_client c) init_request = Some (Ok, c_req c) \<and>
                rq_content_length (c_req c) \<le> max_body_bytes cfg
              else parse_request (c_in_client c) init_request = Some (Incomplete, c_req c))
         | Resolving \<Rightarrow>
             c_want c = ReadResolver \<and> up = -1 \<and> request_read cfg c t \<and> idle c \<and> sent_bytes cl t = [] \<and>
             c_out_upstream c = request_text c \<and> c_out_upstream_off c = 0 \<and>
             (\<exists>i. c_job c = Some i \<and> j_host (r_jobs (w_res w) ! i) = rq_host (c_req c) \<and>
                j_port (r_jobs (w_res w) ! i) = rq_port (c_req c) \<and> 0 \<le> j_read_end (r_jobs (w_res w) ! i))
         | Relaying \<Rightarrow>
             0 \<le> up \<and> c_job c = None \<and> request_read cfg c t \<and> sent_bytes up t = request_text c \<and>
             sent_bytes cl t @ drop (c_out_client_off c) (c_out_client c) = received_bytes up t \<and>
             (c_want c = ReadUpstream \<and> c_out_client c = [] \<and> c_out_client_off c = 0 \<or>
              c_want c = WriteClient \<and> c_out_client_off c < length (c_out_client c)) \<and>
             (c_cache_key c \<noteq> [] \<and> \<not> c_cache_too_big c \<longrightarrow>
                c_cache_accum c = received_bytes up t \<and> length (c_cache_accum c) \<le> cache_max_entry_bytes cfg)
         | Failing \<Rightarrow>
             c_want c = WriteClient \<and> up = -1 \<and> c_job c = None \<and>
             sent_bytes cl t = take (c_out_client_off c) (c_out_client c) \<and>
             c_out_client_off c \<le> length (c_out_client c) \<and> reply_ok cfg c t (c_out_client c)
         | _ \<Rightarrow>
             c_want c = WriteUpstream \<and> 0 \<le> up \<and> c_job c = None \<and> request_read cfg c t \<and> idle c \<and> sent_bytes cl t = [] \<and>
             c_out_upstream c = request_text c \<and> received_bytes up t = [] \<and>
             sent_bytes up t = take (c_out_upstream_off c) (c_out_upstream c) \<and>
             c_out_upstream_off c \<le> length (c_out_upstream c) \<and>
             (c_state c = Connecting \<longrightarrow> c_out_upstream_off c = 0) \<and>
             looked_up t (rq_host (c_req c)) (rq_port (c_req c)) True (c_endpoints c)))"

definition good :: "config \<Rightarrow> fd set \<Rightarrow> (job_id \<Rightarrow> nat) \<Rightarrow> world \<Rightarrow> connection \<times> world \<Rightarrow> bool" where
  "good cfg F E w x \<longleftrightarrow> conn_base cfg F E (fst x) (snd x) \<and> step_ok F E w (snd x) \<and> state_ok cfg (fst x) (snd x)"

text \<open>The operation returns, and with such a result.\<close>

definition returns_good :: "config \<Rightarrow> fd set \<Rightarrow> (job_id \<Rightarrow> nat) \<Rightarrow> world \<Rightarrow> (connection \<times> world) option \<Rightarrow> bool" where
  "returns_good cfg F E w res \<longleftrightarrow> (case res of None \<Rightarrow> False | Some x \<Rightarrow> good cfg F E w x)"

lemma returns_good_simps [simp]:
  "\<not> returns_good cfg F E w None" "returns_good cfg F E w (Some x) = good cfg F E w x"
  by (simp_all add: returns_good_def)

lemma returns_good_trans: "step_ok F E w w1 \<Longrightarrow> returns_good cfg F E w1 res \<Longrightarrow> returns_good cfg F E w res"
  using step_ok_trans by (auto simp: returns_good_def good_def split: option.splits)

lemma good_trans: "step_ok F E w w1 \<Longrightarrow> good cfg F E w1 x \<Longrightarrow> good cfg F E w x"
  using step_ok_trans by (auto simp: good_def)

lemma conn_base_cong:
  assumes "conn_base cfg F E c w" and "c_client c' = c_client c" and "c_upstream c' = c_upstream c" and "c_job c' = c_job c"
  shows "conn_base cfg F E c' w"
  using assms by (simp add: conn_base_def cfds_def)

lemma set_want_fields [simp]:
  "c_client (set_want v c) = c_client c" "c_upstream (set_want v c) = c_upstream c" "c_job (set_want v c) = c_job c"
  "c_state (set_want v c) = c_state c" "c_want (set_want v c) = v" "c_req (set_want v c) = c_req c"
  "c_parsed (set_want v c) = c_parsed c" "c_endpoints (set_want v c) = c_endpoints c"
  "c_endpoint_idx (set_want v c) = c_endpoint_idx c" "c_in_client (set_want v c) = c_in_client c"
  "c_out_upstream (set_want v c) = c_out_upstream c" "c_out_upstream_off (set_want v c) = c_out_upstream_off c"
  "c_out_client (set_want v c) = c_out_client c" "c_out_client_off (set_want v c) = c_out_client_off c"
  "c_upstream_eof (set_want v c) = c_upstream_eof c" "c_cache_key (set_want v c) = c_cache_key c"
  "c_cache_accum (set_want v c) = c_cache_accum c" "c_cache_too_big (set_want v c) = c_cache_too_big c"
  "c_epoch (set_want v c) = c_epoch c + 1"
  by (simp_all add: set_want_def)

lemmas conn_simps = Let_def request_read_def request_text_def request_body_def idle_def reply_ok_def

text \<open>Closing the upstream socket.\<close>

lemma close_upstream:
  assumes "conn_base cfg F E c w"
  defines "w' \<equiv> w\<lparr>w_trace := fd_destroy (c_upstream c) (w_trace w)\<rparr>"
  shows "conn_base cfg F E (c\<lparr>c_upstream := -1\<rparr>) w'" and "step_ok F E w w'"
    and "untouched {c_client c} (w_trace w) (w_trace w')"
proof -
  have own: "owned cfg (F \<union> cfds c) E (c_job c) w" and d: "F \<inter> cfds c = {}"
    and ne: "c_client c \<noteq> c_upstream c \<or> c_upstream c = -1" and b: "-1 \<le> c_client c" "-1 \<le> c_upstream c"
    using assms(1) by (auto simp: conn_base_def)
  have "owned cfg (F \<union> cfds c - ({c_upstream c} \<inter> {0..})) E (c_job c) w'"
    unfolding w'_def by (rule owned_destroy [OF own]) (use b in \<open>auto simp: cfds_def\<close>)
  moreover have "F \<union> cfds c - ({c_upstream c} \<inter> {0..}) = F \<union> cfds (c\<lparr>c_upstream := -1\<rparr>)"
    using d ne by (auto simp: cfds_def)
  ultimately show "conn_base cfg F E (c\<lparr>c_upstream := -1\<rparr>) w'"
    using d b by (auto simp: conn_base_def cfds_def)
  have u: "untouched (- ({c_upstream c} \<inter> {0..})) (w_trace w) (w_trace w')"
    unfolding w'_def using fd_destroy_effect(2) by simp
  show "step_ok F E w w'"
    unfolding w'_def by (rule step_ok_trace [OF untouched_mono [OF u [unfolded w'_def, simplified]]]) (use d owned_pipes(2) [OF own] in \<open>auto simp: cfds_def\<close>)
  show "untouched {c_client c} (w_trace w) (w_trace w')"
    by (rule untouched_mono [OF u]) (use ne in auto)
qed

lemma untouched_bytes:
  assumes "untouched F t t'" and "fd \<in> F"
  shows "sent_bytes fd t' = sent_bytes fd t" and "received_bytes fd t' = received_bytes fd t"
  using assms by (auto simp: untouched_def)

lemma step_ok_suffix: "step_ok F E w w' \<Longrightarrow> suffix (w_trace w) (w_trace w')"
  by (simp add: step_ok_def grows_suffix)

lemma fail_with_good:
  assumes base: "conn_base cfg F E c w" and job: "c_job c = None" and cl: "0 \<le> c_client c" "\<not> c_upstream_eof c"
    and sent: "sent_bytes (c_client c) (w_trace w) = []" and reply: "reply_ok cfg c (w_trace w) response"
  shows "good cfg F E w (fail_with response c w)"
proof -
  note u = close_upstream [OF base]
  note b = untouched_bytes [OF u(3) singletonI]
  have "reply_ok cfg c (fd_destroy (c_upstream c) (w_trace w)) response"
    using reply from_origin_mono [OF _ step_ok_suffix [OF u(2)]] b by (auto simp: conn_simps)
  then show ?thesis
    using u(2) conn_base_cong [OF u(1)] job cl sent b by (simp add: good_def fail_with_def state_ok_def conn_simps)
qed

lemma finish_good:
  assumes base: "conn_base cfg F E c w"
  shows "good cfg F E w (finish c w)"
proof -
  have own: "owned cfg (F \<union> cfds c) E (c_job c) w" and d: "F \<inter> cfds c = {}"
    and ne: "c_client c \<noteq> c_upstream c \<or> c_upstream c = -1" and b: "-1 \<le> c_client c" "-1 \<le> c_upstream c"
    using base by (auto simp: conn_base_def)
  define w1 where "w1 = drop_job (c_job c) w"
  have 1: "owned cfg (F \<union> cfds c) E None w1" "step_ok F E w w1"
    unfolding w1_def using owned_drop [OF own, of F] by simp_all
  have "conn_base cfg F E (c\<lparr>c_job := None\<rparr>) w1"
    using 1 d ne b by (simp add: conn_base_def cfds_def)
  note 2 = close_upstream [OF this, simplified]
  define w2 where "w2 = w1\<lparr>w_trace := fd_destroy (c_upstream c) (w_trace w1)\<rparr>"
  have own2: "owned cfg (F \<union> ({c_client c} \<inter> {0..})) E None w2" 
    using 2(1) by (simp add: conn_base_def w2_def)
  have disj: "F \<inter> ({c_client c} \<inter> {0..}) = {}" using d by (auto simp: cfds_def)
  have "owned cfg (F \<union> ({c_client c} \<inter> {0..}) - ({c_client c} \<inter> {0..})) E None
      (w2\<lparr>w_trace := fd_destroy (c_client c) (w_trace w2)\<rparr>)"
    by (rule owned_destroy [OF own2]) (use b in auto)
  moreover have "F \<union> ({c_client c} \<inter> {0..}) - ({c_client c} \<inter> {0..}) = F" using disj by blast
  ultimately have 3: "owned cfg F E None (w2\<lparr>w_trace := fd_destroy (c_client c) (w_trace w2)\<rparr>)" by simp
  have "untouched (F \<union> pipes E (w_res w2)) (w_trace w2) (fd_destroy (c_client c) (w_trace w2))"
    by (rule untouched_mono [OF fd_destroy_effect(2)]) (use disj owned_pipes(2) [OF own2] in auto)
  then have "step_ok F E w2 (w2\<lparr>w_trace := fd_destroy (c_client c) (w_trace w2)\<rparr>)"
    by (simp add: step_ok_trace)
  with step_ok_trans [OF 1(2) 2(2)] have "step_ok F E w (w2\<lparr>w_trace := fd_destroy (c_client c) (w_trace w2)\<rparr>)"
    by (simp add: w2_def step_ok_trans)
  with 3 show ?thesis
    by (simp add: good_def finish_def Let_def w1_def w2_def conn_base_def cfds_def state_ok_def)
qed


section \<open>Connecting\<close>

definition pending :: "config \<Rightarrow> connection \<Rightarrow> trace \<Rightarrow> bool" where
  "pending cfg c t \<longleftrightarrow>
     0 \<le> c_client c \<and> \<not> c_upstream_eof c \<and> request_read cfg c t \<and> idle c \<and> sent_bytes (c_client c) t = [] \<and>
     c_out_upstream c = request_text c \<and> c_out_upstream_off c = 0"

lemma pending_untouched: "pending cfg c t \<Longrightarrow> untouched {c_client c} t t' \<Longrightarrow> pending cfg c t'"
  using untouched_bytes [OF _ singletonI] by (auto simp: pending_def conn_simps)

lemma reply_502: "reply_ok cfg c t (error_response 502 ''Bad Gateway'')"
  by (simp add: reply_ok_def error_pages_def)

lemma fail_pending:
  assumes "conn_base cfg F E c w" and "pending cfg c (w_trace w)" and "c_job c = None"
  shows "good cfg F E w (fail_with (error_response 502 ''Bad Gateway'') c w)"
  using assms by (intro fail_with_good reply_502) (auto simp: pending_def)

lemma start_connect_grows:
  assumes "start_connect os ep out err t = (st, fd, err', t')"
  shows "grows t t'"
proof (cases "os_socket os t (ep_family ep) (ep_socktype ep) (ep_protocol ep)")
  case (Inl e)
  with assms show ?thesis by (auto simp: start_connect_def intro!: grows_Cons)
next
  case (Inr s)
  let ?t1 = "EvSocket (ep_family ep) (ep_socktype ep) (ep_protocol ep) (Inr s) # t"
  obtain nb t2 where nb: "set_nonblocking os s (suppress_sigpipe os s ?t1) = (nb, t2)" by fastforce
  have "grows ?t1 t2"
    using grows_quiet [OF only_events_trans [OF suppress_sigpipe_quiet set_nonblocking_quiet]] nb by (metis snd_conv)
  from grows_trans [OF grows_Cons [OF _ grows_refl] this] have t2: "grows t t2" by simp
  then have "grows t (fd_destroy fd t2)" "plain ev \<Longrightarrow> grows t (ev # t2)" "plain ev \<Longrightarrow> grows t (fd_destroy fd (ev # t2))"
    "plain ev \<Longrightarrow> plain ev' \<Longrightarrow> grows t (ev' # ev # t2)"
    for fd ev ev' by (meson fd_destroy_grows grows_trans grows_Cons)+
  with assms show ?thesis
    by (cases nb; cases "os_connect os t2 s (take (ep_len ep) (ep_addr ep))")
       (auto simp: start_connect_def Inr nb fd_reset_def Let_def split: if_splits)
qed

lemma client_open: "conn_base cfg F E c w \<Longrightarrow> F \<union> cfds c \<subseteq> open_fds (w_trace w)"
  by (auto simp: conn_base_def dest!: owned_subset)

lemma connect_kept:
  assumes base: "conn_base cfg F E c w" and up: "c_upstream c = -1" and fd: "0 \<le> fd" "fd \<notin> open_fds (w_trace w)"
    and open': "open_fds t' = insert fd (open_fds (w_trace w))" and s: "suffix (w_trace w) t'"
  shows "conn_base cfg F E (c\<lparr>c_upstream := fd\<rparr>) (w\<lparr>w_trace := t'\<rparr>)"
proof -
  have "owned cfg (insert fd (F \<union> cfds c)) E (c_job c) (w\<lparr>w_trace := t'\<rparr>)"
    using base by (intro owned_open [OF _ open' fd(2) s]) (simp add: conn_base_def)
  moreover have "insert fd (F \<union> cfds c) = F \<union> cfds (c\<lparr>c_upstream := fd\<rparr>)"
    using up fd by (auto simp: cfds_def)
  moreover have "fd \<notin> F \<union> cfds c" using client_open [OF base] fd by auto
  then have "fd \<notin> F" "c_client c \<noteq> fd" using fd by (auto simp: cfds_def)
  ultimately show ?thesis using base fd by (auto simp: conn_base_def cfds_def)
qed

lemma looked_up_suffix: "looked_up t host port ok eps \<Longrightarrow> suffix t t' \<Longrightarrow> looked_up t' host port ok eps"
  using looked_up_mono suffix_set by blast

lemma begin_connect_good:
  assumes os: "fresh_descriptors os"
  shows "conn_base cfg F E c w \<Longrightarrow> c_upstream c = -1 \<Longrightarrow> c_job c = None \<Longrightarrow> pending cfg c (w_trace w) \<Longrightarrow>
    looked_up (w_trace w) (rq_host (c_req c)) (rq_port (c_req c)) True (c_endpoints c) \<Longrightarrow>
    good cfg F E w (begin_connect os err c w)"
proof (induction "length (c_endpoints c) - c_endpoint_idx c" arbitrary: err c w rule: less_induct)
  case less
  note base = less.prems(1) and up = less.prems(2) and job = less.prems(3) and pend = less.prems(4)
  show ?case
  proof (cases "c_endpoint_idx c < length (c_endpoints c)")
    case False
    then show ?thesis using fail_pending [OF base pend job] by (simp add: begin_connect.simps)
  next
    case True
    obtain st fd err' t' where eq: "start_connect os (c_endpoints c ! c_endpoint_idx c) (-1) err (w_trace w) = (st, fd, err', t')"
      and u: "untouched (open_fds (w_trace w)) (w_trace w) t'"
      and failed: "st = ConnectFailed \<longrightarrow> fd = -1 \<and> open_fds t' = open_fds (w_trace w)"
      and kept: "st \<noteq> ConnectFailed \<longrightarrow> 0 \<le> fd \<and> fd \<notin> open_fds (w_trace w) \<and> open_fds t' = insert fd (open_fds (w_trace w)) \<and>
        sent_bytes fd t' = [] \<and> received_bytes fd t' = [] \<and> (\<exists>r t2. t' = EvConnect fd (take (ep_len (c_endpoints c ! c_endpoint_idx c))
        (ep_addr (c_endpoints c ! c_endpoint_idx c))) r # t2 \<and> (st = Connected \<longleftrightarrow> r = None))"
      by (rule start_connect_effect [OF os])
    have gr: "grows (w_trace w) t'" by (rule start_connect_grows [OF eq])
    note s = grows_suffix [OF gr]
    have sub: "F \<union> {c_client c} \<subseteq> open_fds (w_trace w)" using client_open [OF base] pend by (auto simp: cfds_def pending_def)
    have "F \<union> pipes E (w_res w) \<subseteq> open_fds (w_trace w)" using sub base_pipes [OF base] by blast
    from step_ok_trace [OF untouched_mono [OF u this] gr] have step: "step_ok F E w (w\<lparr>w_trace := t'\<rparr>)" .
    have pend': "pending cfg c t'" using pending_untouched [OF pend untouched_mono [OF u]] sub by simp
    note lk = looked_up_suffix [OF less.prems(5) s]
    show ?thesis
    proof (cases "st = ConnectFailed")
      case True
      let ?c = "c\<lparr>c_endpoint_idx := c_endpoint_idx c + 1\<rparr>" and ?w = "w\<lparr>w_trace := t'\<rparr>"
      have "conn_base cfg F E ?c ?w"
        using base failed [rule_format, OF True] s owned_trace by (auto simp: conn_base_def cfds_def)
      moreover have "pending cfg ?c t'" using pend' by (simp add: pending_def conn_simps)
      ultimately have "good cfg F E ?w (begin_connect os err' ?c ?w)"
        using less.hyps [of ?c ?w err'] \<open>c_endpoint_idx c < _\<close> up job lk by simp
      with good_trans [OF step] show ?thesis
        using \<open>c_endpoint_idx c < _\<close> failed [rule_format, OF True] True eq by (subst begin_connect.simps) simp
    next
      case False
      note k = kept [rule_format, OF False]
      have b': "conn_base cfg F E (c\<lparr>c_upstream := fd\<rparr>) (w\<lparr>w_trace := t'\<rparr>)"
        by (rule connect_kept [OF base up _ _ _ s]) (use k in auto)
      show ?thesis
        using \<open>c_endpoint_idx c < _\<close> False eq up conn_base_cong [OF b'] step pend' job k lk
        by (subst begin_connect.simps)
           (auto simp: Let_def fd_reset_def good_def state_ok_def pending_def conn_simps split: if_splits)
    qed
  qed
qed

lemma finish_connect_good:
  assumes os: "fresh_descriptors os" and base: "conn_base cfg F E c w" and ok: "state_ok cfg c w" and st: "c_state c = Connecting"
  shows "good cfg F E w (finish_connect os c w)"
proof -
  obtain b err t1 where eq: "connect_succeeded os (c_upstream c) [] (w_trace w) = (b, err, t1)" by (cases "connect_succeeded os (c_upstream c) [] (w_trace w)")
  have q: "only_events quiet (w_trace w) t1" using connect_succeeded_quiet [of "w_trace w" os "c_upstream c" "[]"] eq by simp
  note s = only_events_suffix [OF q] and u = only_events_quiet(2) [OF q]
  have step: "step_ok F E w (w\<lparr>w_trace := t1\<rparr>)" by (rule step_ok_trace [OF u grows_quiet [OF q]])
  have base1: "conn_base cfg F E c (w\<lparr>w_trace := t1\<rparr>)"
    using base owned_trace only_events_quiet(1) [OF q] s by (auto simp: conn_base_def)
  have bytes: "sent_bytes fd t1 = sent_bytes fd (w_trace w)" "received_bytes fd t1 = received_bytes fd (w_trace w)" for fd
    using untouched_bytes [OF u [of UNIV]] by auto
  have pend: "pending cfg c t1" and lk: "looked_up t1 (rq_host (c_req c)) (rq_port (c_req c)) True (c_endpoints c)" and job: "c_job c = None"
    using ok st bytes looked_up_suffix [OF _ s] by (auto simp: state_ok_def pending_def conn_simps)
  show ?thesis
  proof (cases b)
    case True
    then show ?thesis
      using step conn_base_cong [OF base1] ok st bytes lk eq
      by (simp add: finish_connect_def good_def state_ok_def conn_simps)
  next
    case False
    let ?c = "c\<lparr>c_upstream := -1\<rparr>" and ?w = "w\<lparr>w_trace := fd_destroy (c_upstream c) t1\<rparr>"
    note cu = close_upstream [OF base1, simplified]
    have "good cfg F E ?w (begin_connect os [] ?c ?w)"
      using pending_untouched [OF pend cu(3)] looked_up_suffix [OF lk fd_destroy_suffix] cu(1) job
      by (intro begin_connect_good [OF os]) (simp_all add: pending_def conn_simps)
    with good_trans [OF step_ok_trans [OF step cu(2)]] False eq show ?thesis by (simp add: finish_connect_def)
  qed
qed


section \<open>Resolving\<close>

lemma make_pipe_grows: "make_pipe os re we t = (ok, re', we', t') \<Longrightarrow> grows t t'"
  by (auto simp: make_pipe_def set_nonblocking_def fd_reset_def Let_def intro!: grows_Cons
      split: sum.splits prod.splits if_splits)

lemma start_kept:
  assumes "start os host port out None err r t = (st, out', jo', err', r', t')"
  shows "grows t t' \<and> (i < length (r_jobs r) \<longrightarrow> r_jobs r' ! i = r_jobs r ! i)"
proof -
  obtain hit out1 r1 t1 where g: "cache_get os (dns_key host port) out r t = (hit, out1, r1, t1)"
    by (cases "cache_get os (dns_key host port) out r t")
  obtain q where r1: "r1 = r\<lparr>r_cache := q\<rparr>" using cache_get_effect(2) [OF g] by blast
  have t1: "grows t t1" using grows_quiet [OF cache_get_effect(1) [OF g]] .
  obtain ok re we t2 where p: "make_pipe os (-1) (-1) t1 = (ok, re, we, t2)" by (cases "make_pipe os (-1) (-1) t1")
  have t2: "grows t t2" using t1 make_pipe_grows [OF p] by (rule grows_trans)
  let ?r2 = "r1\<lparr>r_jobs := r_jobs r1 @ [new_job host port re we 1]\<rparr>"
  obtain r3 t3 where rel: "release_job (length (r_jobs r1)) ?r2 t2 = (r3, t3)" by (cases "release_job (length (r_jobs r1)) ?r2 t2")
  have t3: "grows t t3" using grows_trans [OF t2 release_job_grows [of t2 "length (r_jobs r1)" ?r2]] rel by simp
  have r3: "i < length (r_jobs r) \<longrightarrow> r_jobs r3 ! i = r_jobs r ! i"
    using rel by (auto simp: release_job_def Let_def update_job_def nth_append r1 split: if_splits)
  consider "hit" | "\<not> hit" "\<not> ok \<or> r_closed r" | "\<not> hit" "ok" "\<not> r_closed r" by blast
  then show ?thesis
  proof cases
    case 1 with assms t1 r1 show ?thesis by (auto simp: start_def g)
  next
    case 2 with assms t3 r3 rel show ?thesis by (auto simp: start_def g p r1 Let_def split: if_splits)
  next
    case 3 with assms t2 show ?thesis by (auto simp: start_def g p r1 Let_def release_opt_def update_job_def nth_append)
  qed
qed

lemma start_untouched:
  assumes os: "fresh_descriptors os" and "start os host port out None err r t = (st, out', jo', err', r', t')"
  shows "untouched (open_fds t) t t'"
proof -
  obtain hit out1 r1 t1 where g: "cache_get os (dns_key host port) out r t = (hit, out1, r1, t1)"
    by (cases "cache_get os (dns_key host port) out r t")
  note q = only_events_quiet [OF cache_get_effect(1) [OF g]]
  obtain ok re we t2 where p: "make_pipe os (-1) (-1) t1 = (ok, re, we, t2)"
    and e: "({re, we} \<inter> {0..}) \<inter> open_fds t1 = {}" "untouched (open_fds t1) t1 t2"
    by (rule make_pipe_effect [OF os])
  let ?r2 = "r1\<lparr>r_jobs := r_jobs r1 @ [new_job host port re we 1]\<rparr>"
  have u2: "untouched (open_fds t) t t2" using untouched_trans [OF q(2) [of UNIV] e(2)] q(1) by simp
  obtain r3 t3 where rel: "release_job (length (r_jobs r1)) ?r2 t2 = (r3, t3)" by (cases "release_job (length (r_jobs r1)) ?r2 t2")
  have "jfds (r_jobs ?r2 ! length (r_jobs r1)) = {re, we} \<inter> {0..}" by (simp add: nth_append new_job_def jfds_def)
  with release_job_untouched [of ?r2 "length (r_jobs r1)" t2] rel have "untouched (- ({re, we} \<inter> {0..})) t2 t3" by simp
  from untouched_trans [OF u2 this] have u3: "untouched (open_fds t) t t3" by (rule untouched_mono) (use e(1) q(1) in auto)
  have "t' \<in> {t1, t2, t3}" using assms(2) rel by (auto simp: start_def g p Let_def release_opt_def split: if_splits)
  with u2 u3 q(2) show ?thesis by auto
qed

lemma port_no_colon:
  assumes "request_read cfg c t"
  shows "CHR '':'' \<notin> set (rq_port (c_req c))"
proof -
  have "\<forall>x\<in>set (rq_port (c_req c)). is_digit x"
    using parse_request_Ok_facts [of "c_in_client c" "c_req c"] assms by (simp add: request_read_def wf_request_def)
  moreover have "\<not> is_digit (CHR '':'')" by (simp add: is_digit_def)
  ultimately show ?thesis by blast
qed

lemma begin_resolve_good:
  assumes os: "fresh_descriptors os" and base: "conn_base cfg F E c w" and up: "c_upstream c = -1" and job: "c_job c = None"
    and pend: "pending cfg c (w_trace w)"
  shows "good cfg F E w (begin_resolve os cfg c w)"
proof -
  let ?h = "rq_host (c_req c)" and ?p = "rq_port (c_req c)" and ?G = "F \<union> cfds c"
  have own: "jobs_own ?G (w_res w) (w_trace w)" and inv: "resolver_inv E (w_res w) (w_trace w)" and c: "cache_ok cfg w"
    using base job by (auto simp: conn_base_def owned_def)
  have colon: "CHR '':'' \<notin> set ?p" using pend port_no_colon by (auto simp: pending_def)
  have cl: "c_client c \<in> ?G" using pend by (auto simp: cfds_def pending_def)
  have ids: "E i = 1 \<Longrightarrow> i < length (r_jobs (w_res w))" for i using resolver_inv_ids [OF inv] .
  have sub: "?G \<subseteq> open_fds (w_trace w)" "pipes E (w_res w) \<subseteq> open_fds (w_trace w)"
    using base base_pipes [OF base] owned_subset unfolding conn_base_def by blast+
  have *: "conn_base cfg F E c' (w\<lparr>w_res := r, w_trace := t\<rparr>) \<and> step_ok F E w (w\<lparr>w_res := r, w_trace := t\<rparr>) \<and> pending cfg c t"
    if "jobs_own ?G r t" "resolver_inv (hold E jo) r t" "\<forall>i. jo = Some i \<longrightarrow> E i = 0" "untouched (open_fds (w_trace w)) (w_trace w) t"
      "grows (w_trace w) t" "\<And>i. i < length (r_jobs (w_res w)) \<Longrightarrow> r_jobs r ! i = r_jobs (w_res w) ! i"
      "c_client c' = c_client c" "c_upstream c' = c_upstream c" "c_job c' = jo" for r t jo c'
  proof (intro conjI)
    show "conn_base cfg F E c' (w\<lparr>w_res := r, w_trace := t\<rparr>)"
      using that base c cache_ok_mono [OF _ grows_suffix] by (auto simp: conn_base_def owned_def cfds_def)
    show "step_ok F E w (w\<lparr>w_res := r, w_trace := t\<rparr>)"
      using that ids untouched_mono [OF that(4)] sub by (simp add: step_ok_def jobs_kept_def)
    show "pending cfg c t" by (rule pending_untouched [OF pend untouched_mono [OF that(4)]]) (use cl sub in auto)
  qed
  show ?thesis
  proof (cases "async_resolve cfg")
    case False
    obtain ok eps err r t where eq: "resolve_blocking os ?h ?p (c_endpoints c) [] (w_res w) (w_trace w) = (ok, eps, err, r, t)"
      by (cases "resolve_blocking os ?h ?p (c_endpoints c) [] (w_res w) (w_trace w)")
    obtain a b l where r: "r = (w_res w)\<lparr>r_cache := a, r_hits := b, r_lookups := l\<rparr>" using resolve_blocking_effect(2) [OF eq] by blast
    note q = resolve_blocking_effect(1) [OF eq] and i = resolve_blocking_inv [OF inv colon eq]
    let ?c = "c\<lparr>c_endpoints := eps\<rparr>" and ?w = "w\<lparr>w_res := r, w_trace := t\<rparr>"
    have b: "conn_base cfg F E ?c ?w \<and> step_ok F E w ?w \<and> pending cfg c t"
      by (rule * [of _ _ None]) (use jobs_own_quiet [OF own q] i(1) only_events_quiet [OF q] grows_quiet [OF q] job r in auto)
    have p: "pending cfg ?c t" "pending cfg (?c\<lparr>c_endpoint_idx := 0\<rparr>) t" using b by (auto simp: pending_def conn_simps)
    have "good cfg F E ?w (if \<not> ok then fail_with (error_response 502 ''Bad Gateway'') ?c ?w
        else begin_connect os [] (?c\<lparr>c_endpoint_idx := 0\<rparr>) ?w)"
      using fail_pending [of cfg F E ?c ?w] begin_connect_good [OF os, of cfg F E "?c\<lparr>c_endpoint_idx := 0\<rparr>" ?w "[]"]
        b p i(2) up job conn_base_cong [of cfg F E ?c ?w "?c\<lparr>c_endpoint_idx := 0\<rparr>"] by simp
    from good_trans [OF conjunct1 [OF conjunct2 [OF b]] this] show ?thesis using False eq by (simp add: begin_resolve_def Let_def)
  next
    case True
    obtain st eps jo err r t where eq: "start os ?h ?p (c_endpoints c) None [] (w_res w) (w_trace w) = (st, eps, jo, err, r, t)"
      by (cases "start os ?h ?p (c_endpoints c) None [] (w_res w) (w_trace w)")
    note o = start_own [OF os own _ eq] and k = start_kept [OF eq] and i = start_inv [OF inv colon eq]
    let ?c = "c\<lparr>c_endpoints := eps, c_job := jo\<rparr>" and ?w = "w\<lparr>w_res := r, w_trace := t\<rparr>"
    have h: "resolver_inv (hold E jo) r t \<and> (\<forall>i. jo = Some i \<longrightarrow> E i = 0)" using i by (cases st) (auto simp: hold_def)
    have b: "conn_base cfg F E ?c ?w \<and> step_ok F E w ?w \<and> pending cfg c t"
      by (rule * [of _ _ jo]) (use o start_untouched [OF os eq] k h in auto)
    have p: "pending cfg ?c t" "pending cfg (?c\<lparr>c_endpoint_idx := 0\<rparr>) t" using b by (auto simp: pending_def conn_simps)
    have "good cfg F E ?w (case st of ResolveHit \<Rightarrow> begin_connect os [] (?c\<lparr>c_endpoint_idx := 0\<rparr>) ?w
           | ResolvePending \<Rightarrow> (set_want ReadResolver (?c\<lparr>c_state := Resolving\<rparr>), ?w)
           | ResolveFailed \<Rightarrow> fail_with (error_response 502 ''Bad Gateway'') ?c ?w)"
    proof (cases st)
      case ResolveHit
      then show ?thesis
        using begin_connect_good [OF os, of cfg F E "?c\<lparr>c_endpoint_idx := 0\<rparr>" ?w "[]"]
          b p i(1) up conn_base_cong [of cfg F E ?c ?w "?c\<lparr>c_endpoint_idx := 0\<rparr>"] by simp
    next
      case ResolvePending
      with i(3) os obtain n where "jo = Some n" "j_host (r_jobs r ! n) = ?h" "j_port (r_jobs r ! n) = ?p" "0 \<le> j_read_end (r_jobs r ! n)"
        by blast
      then show ?thesis
        using ResolvePending b p(1) up conn_base_cong [of cfg F E ?c ?w "set_want ReadResolver (?c\<lparr>c_state := Resolving\<rparr>)"]
        by (simp add: good_def state_ok_def pending_def conn_simps)
    next
      case ResolveFailed
      then show ?thesis using fail_pending [of cfg F E ?c ?w] b p i(2) by simp
    qed
    from good_trans [OF conjunct1 [OF conjunct2 [OF b]] this] show ?thesis using True eq job by (simp add: begin_resolve_def Let_def)
  qed
qed

lemma finish_resolve_good:
  assumes os: "fresh_descriptors os" and base: "conn_base cfg F E c w" and ok: "state_ok cfg c w" and st: "c_state c = Resolving"
  shows "returns_good cfg F E w (finish_resolve os c w)"
proof -
  from ok st obtain i where i: "c_job c = Some i" "j_host (r_jobs (w_res w) ! i) = rq_host (c_req c)"
      "j_port (r_jobs (w_res w) ! i) = rq_port (c_req c)" "0 \<le> j_read_end (r_jobs (w_res w) ! i)"
    by (auto simp: state_ok_def Let_def)
  have up: "c_upstream c = -1" and pend: "pending cfg c (w_trace w)"
    using ok st by (auto simp: state_ok_def Let_def pending_def)
  let ?j = "r_jobs (w_res w) ! i"
  define t1 where "t1 = EvRead (j_read_end ?j) 8 (os_read os (w_trace w) (j_read_end ?j) 8) # w_trace w"
  define w1 where "w1 = w\<lparr>w_trace := t1\<rparr>"
  have q: "only_events quiet (w_trace w) t1" unfolding t1_def by (rule only_events_Cons) simp_all
  note s = only_events_suffix [OF q] and u = only_events_quiet(2) [OF q]
  have bytes: "sent_bytes fd t1 = sent_bytes fd (w_trace w)" "received_bytes fd t1 = received_bytes fd (w_trace w)" for fd
    using untouched_bytes [OF u [of UNIV]] by auto
  have step1: "step_ok F E w w1" unfolding w1_def by (rule step_ok_trace [OF u grows_quiet [OF q]])
  have base1: "conn_base cfg F E c w1"
    unfolding w1_def using base owned_trace only_events_quiet(1) [OF q] s by (auto simp: conn_base_def)
  have pend1: "pending cfg c (w_trace w1)" unfolding w1_def using pending_untouched [OF pend u] by simp
  show ?thesis
  proof (cases "j_ready ?j")
    case False
    have "good cfg F E w (c, w1)"
      using step1 base1 ok st bytes by (simp add: good_def state_ok_def conn_simps w1_def)
    with False i show ?thesis by (simp add: finish_resolve_def Let_def w1_def t1_def)
  next
    case True
    define f where "f = (if j_ok ?j then (\<lambda>j. j\<lparr>j_endpoints := []\<rparr>) else (id :: job \<Rightarrow> job))"
    define w2 where "w2 = drop_job (Some i) (w1\<lparr>w_res := update_job i f (w_res w1)\<rparr>)"
    have own1: "owned cfg (F \<union> cfds c) E (Some i) w1" using base1 i(1) by (simp add: conn_base_def)
    have f: "f = id \<or> j_ready (r_jobs (w_res w1) ! i) \<and> f = (\<lambda>j. j\<lparr>j_endpoints := []\<rparr>)"
      using True by (simp add: f_def w1_def)
    note 2 = owned_collect [OF own1 f, of "F \<union> cfds c", folded w2_def]
    have step2: "step_ok F E w1 w2" unfolding w2_def by (rule owned_collect(2) [OF own1 f]) simp
    have "0 < hold E (Some i) i" by (simp add: hold_def)
    moreover have "published (hold E (Some i)) (w_res w1) (w_trace w1)" using own1 by (simp add: owned_def resolver_inv_def)
    ultimately have "looked_up (w_trace w1) (j_host ?j) (j_port ?j) (j_ok ?j) (j_endpoints ?j)"
      using True unfolding published_def by (simp add: w1_def)
    from looked_up_suffix [OF this step_ok_suffix [OF step2]]
    have lk: "j_ok ?j \<Longrightarrow> looked_up (w_trace w2) (rq_host (c_req c)) (rq_port (c_req c)) True (j_endpoints ?j)"
      using i by simp
    define c1 where "c1 = (if j_ok ?j then c\<lparr>c_endpoints := j_endpoints ?j\<rparr> else c)\<lparr>c_job := None\<rparr>"
    have c1: "c_upstream c1 = -1" "c_job c1 = None" "c_req c1 = c_req c" "j_ok ?j \<Longrightarrow> c_endpoints c1 = j_endpoints ?j"
      using up by (simp_all add: c1_def)
    have base2: "conn_base cfg F E c1 w2" using 2(1) base1 by (simp add: conn_base_def c1_def cfds_def)
    have "c_client c \<in> F \<union> cfds c" using pend by (simp add: cfds_def pending_def)
    then have "pending cfg c (w_trace w2)"
      using pending_untouched [OF pend1 untouched_mono [OF step_ok_untouched [OF 2(2)]]] by simp
    then have pend2: "pending cfg c1 (w_trace w2)" "pending cfg (c1\<lparr>c_endpoint_idx := 0\<rparr>) (w_trace w2)"
      by (simp_all add: pending_def conn_simps c1_def)
    have "good cfg F E w2 (if \<not> j_ok ?j then fail_with (error_response 502 ''Bad Gateway'') c1 w2
        else begin_connect os [] (c1\<lparr>c_endpoint_idx := 0\<rparr>) w2)"
      using fail_pending [OF base2 pend2(1)] lk c1 pend2 conn_base_cong [OF base2]
        begin_connect_good [OF os, of cfg F E "c1\<lparr>c_endpoint_idx := 0\<rparr>" w2 "[]"] by simp
    from good_trans [OF step_ok_trans [OF step1 step2] this] show ?thesis
      using i True by (cases "j_ok ?j") (simp_all add: finish_resolve_def Let_def c1_def w2_def f_def w1_def t1_def)
  qed
qed


section \<open>Reading and writing\<close>

lemma compare_at_0 [simp]: "compare_at s 0 n lit = Some (take n s = lit)"
  by (simp add: compare_at_def)

lemma take_eq_length: "take n s = lit \<Longrightarrow> length lit = n \<Longrightarrow> n \<le> length s"
  by auto

lemma status_line_length:
  "take 9 s = ''HTTP/1.1 '' \<or> take 9 s = ''HTTP/1.0 '' \<Longrightarrow> 9 \<le> length s"
  using take_eq_length [of 9 s "''HTTP/1.1 ''"] take_eq_length [of 9 s "''HTTP/1.0 ''"] by auto

lemma store_in_cache_ok:
  assumes c: "cache_ok cfg w"
    and src: "c_cache_key c \<noteq> [] \<Longrightarrow> \<not> c_cache_too_big c \<Longrightarrow> c_upstream_eof c \<Longrightarrow> storable (c_cache_accum c) \<Longrightarrow>
      from_origin cfg (w_trace w) (c_cache_key c) (c_cache_accum c)"
  obtains w' where "store_in_cache c w = Some w'" and "w' = w\<lparr>w_cache := w_cache w'\<rparr>" and "cache_ok cfg w'"
    and "w_cache w' = None \<longleftrightarrow> w_cache w = None"
proof (cases "w_cache w = None \<or> c_cache_key c = [] \<or> c_cache_too_big c \<or> \<not> c_upstream_eof c \<or> \<not> storable (c_cache_accum c)")
  case True
  have "9 \<le> length (c_cache_accum c)"
    if "take 9 (c_cache_accum c) = ''HTTP/1.1 '' \<or> take 9 (c_cache_accum c) = ''HTTP/1.0 ''"
    using that by (rule status_line_length)
  with True have "store_in_cache c w = Some w"
    by (auto simp: store_in_cache_def storable_def compare_at_def find_str_None split: option.splits)
  then show ?thesis using that c by simp
next
  case False
  then obtain cache where cache: "w_cache w = Some cache" by auto
  then have inv: "lru_inv cache" and old: "map_of (entries_of cache) key = Some v \<Longrightarrow> from_origin cfg (w_trace w) key v" for key v
    using c by (auto simp: cache_ok_def)
  obtain cache' where put: "lru_put (c_cache_key c) (c_cache_accum c) cache = Some cache'" and inv': "lru_inv cache'"
    and le: "map_of (entries_of cache') \<subseteq>\<^sub>m (map_of (entries_of cache))(c_cache_key c \<mapsto> c_cache_accum c)"
    by (rule lru_put_map_le [OF inv])
  have "from_origin cfg (w_trace w) key v" if "map_of (entries_of cache') key = Some v" for key v
  proof -
    have "((map_of (entries_of cache))(c_cache_key c \<mapsto> c_cache_accum c)) key = Some v"
      using le that unfolding map_le_def by (metis domI)
    then show ?thesis using old src False by (auto split: if_splits)
  qed
  then have "cache_ok cfg (w\<lparr>w_cache := Some cache'\<rparr>)" using inv' by (simp add: cache_ok_def)
  moreover have "9 \<le> length (c_cache_accum c)" using False status_line_length by (simp add: storable_def)
  then have "store_in_cache c w = Some (w\<lparr>w_cache := Some cache'\<rparr>)"
    using False cache put by (auto simp: store_in_cache_def storable_def compare_at_def find_str_None)
  ultimately show ?thesis using that [of "w\<lparr>w_cache := Some cache'\<rparr>"] cache by simp
qed

lemma io_frame:
  assumes base: "conn_base cfg F E c w" and fd: "fd \<in> cfds c" and t': "open_fds t' = open_fds (w_trace w)"
    "untouched (- {fd}) (w_trace w) t'" "grows (w_trace w) t'"
  shows "conn_base cfg F E c (w\<lparr>w_trace := t'\<rparr>)" and "step_ok F E w (w\<lparr>w_trace := t'\<rparr>)"
proof -
  note s = grows_suffix [OF t'(3)]
  show "conn_base cfg F E c (w\<lparr>w_trace := t'\<rparr>)" using base owned_trace [OF _ t'(1) s] by (auto simp: conn_base_def)
  have "F \<union> pipes E (w_res w) \<subseteq> - {fd}" using base fd base_pipes [OF base] unfolding conn_base_def by blast
  then show "step_ok F E w (w\<lparr>w_trace := t'\<rparr>)" using untouched_mono [OF t'(2)] t'(3) by (simp add: step_ok_trace)
qed

lemma cache_get_ok:
  assumes c: "cache_ok cfg w" and cache: "w_cache w = Some cache"
  obtains hit v cache' where "lru_get key [] cache = Some (hit, v, cache')" and "cache_ok cfg (w\<lparr>w_cache := Some cache'\<rparr>)"
    and "hit \<longrightarrow> from_origin cfg (w_trace w) key v"
proof -
  have inv: "lru_inv cache" and src: "map_of (entries_of cache) k = Some v \<Longrightarrow> from_origin cfg (w_trace w) k v" for k v
    using c cache by (auto simp: cache_ok_def)
  obtain hit v cache' where g: "lru_get key [] cache = Some (hit, v, cache')" and inv': "lru_inv cache'"
    and same: "map_of (entries_of cache') = map_of (entries_of cache)" and hit: "hit \<Longrightarrow> map_of (entries_of cache) key = Some v"
    by (rule lru.get_returns [OF inv]) blast
  show ?thesis using that [OF g] inv' same hit src by (simp add: cache_ok_def)
qed

lemma conn_base_cache:
  assumes "conn_base cfg F E c w" and "cache_ok cfg (w\<lparr>w_cache := x\<rparr>)"
  shows "conn_base cfg F E c (w\<lparr>w_cache := x\<rparr>)"
  using assms by (simp add: conn_base_def owned_def)

lemma cache_key_not_Nil [simp]: "cache_key m h p u \<noteq> []"
  by (simp add: cache_key_def)

lemma request_complete_good:
  assumes os: "fresh_descriptors os" and base: "conn_base cfg F E c w"
    and c: "c_upstream c = -1" "c_job c = None" "0 \<le> c_client c" "\<not> c_upstream_eof c" "idle c" "c_cache_key c = []"
    and sent: "sent_bytes (c_client c) (w_trace w) = []" and rd: "request_read cfg c (w_trace w)"
  shows "returns_good cfg F E w (request_complete os cfg c w)"
proof -
  define c1 where "c1 = c\<lparr>c_out_upstream := request_text c, c_out_upstream_off := 0\<rparr>"
  have sub: "substr (c_in_client c) (rq_header_bytes (c_req c)) (rq_content_length (c_req c)) = Some (request_body c)"
    using parse_request_Ok_facts [of "c_in_client c" "c_req c"] rd by (simp add: substr_def request_read_def request_body_def)
  have b: "conn_base cfg F E c1 w" using conn_base_cong [OF base] by (simp add: c1_def)
  have pend: "pending cfg c1 (w_trace w)" using c sent rd by (simp add: pending_def conn_simps c1_def)
  have up: "c_upstream c1 = -1" "c_job c1 = None" using c by (simp_all add: c1_def)
  have miss: "good cfg F E w (begin_resolve os cfg c1 w)" by (rule begin_resolve_good [OF os b up pend])
  show ?thesis
  proof (cases "w_cache w")
    case None
    then show ?thesis using sub miss by (simp add: request_complete_def c1_def request_text_def)
  next
    case (Some cache)
    show ?thesis
    proof (cases "cacheable_request cfg (c_req c)")
      case False
      then show ?thesis using sub miss Some by (simp add: request_complete_def c1_def request_text_def)
    next
      case True
      have "cache_ok cfg w" using base by (simp add: conn_base_def owned_def)
      then obtain hit v cache' where g: "lru_get (request_key (c_req c)) [] cache = Some (hit, v, cache')"
        and ok: "cache_ok cfg (w\<lparr>w_cache := Some cache'\<rparr>)" and hit: "hit \<longrightarrow> from_origin cfg (w_trace w) (request_key (c_req c)) v"
        by (rule cache_get_ok [OF _ Some])
      let ?c = "c1\<lparr>c_cache_key := request_key (c_req c)\<rparr>" and ?w = "w\<lparr>w_cache := Some cache'\<rparr>"
      have b2: "conn_base cfg F E ?c ?w" using conn_base_cong [OF conn_base_cache [OF b ok]] by simp
      have step: "step_ok F E w ?w" using Some by (simp add: step_ok_def jobs_kept_def)
      have pend2: "pending cfg ?c (w_trace ?w)" using pend True by (simp add: pending_def conn_simps c1_def)
      have "good cfg F E ?w (if hit then fail_with v ?c ?w else begin_resolve os cfg ?c ?w)"
        using fail_with_good [OF b2, of v] begin_resolve_good [OF os b2 _ _ pend2] pend2 up hit
        by (simp add: pending_def reply_ok_def)
      from good_trans [OF step this] show ?thesis
        using sub Some True g by (cases hit) (simp_all add: request_complete_def c1_def request_text_def)
    qed
  qed
qed

lemma read_step:
  assumes os: "finite_interrupts os" "bounded_io os" and base: "conn_base cfg F E c w" and fd: "fd \<in> cfds c"
  obtains st bs t1 where "read_some os fd len (w_trace w) = Some ((st, bs), t1)"
    and "conn_base cfg F E c (w\<lparr>w_trace := t1\<rparr>)" and "step_ok F E w (w\<lparr>w_trace := t1\<rparr>)"
    and "\<forall>fd'. sent_bytes fd' t1 = sent_bytes fd' (w_trace w)"
    and "\<forall>fd'. received_bytes fd' t1 = received_bytes fd' (w_trace w) @ (if fd' = fd then bs else [])"
    and "st = IoOk \<longleftrightarrow> bs \<noteq> []"
    and "st = IoClosed \<longrightarrow> (\<exists>t2. t1 = EvRecv fd len (Inr []) # t2 \<and> sent_bytes fd t2 = sent_bytes fd (w_trace w) \<and>
      received_bytes fd t2 = received_bytes fd (w_trace w))"
proof -
  obtain st bs t1 where r: "read_some os fd len (w_trace w) = Some ((st, bs), t1)"
    "open_fds t1 = open_fds (w_trace w)" "untouched (- {fd}) (w_trace w) t1"
    "sent_bytes fd t1 = sent_bytes fd (w_trace w)" "received_bytes fd t1 = received_bytes fd (w_trace w) @ bs"
    "registered 0 t1 = registered 0 (w_trace w)" "length bs \<le> len" "st = IoOk \<longleftrightarrow> bs \<noteq> []"
    "only_events (\<lambda>ev. \<exists>r. ev = EvRecv fd len r) (w_trace w) t1"
    "st = IoClosed \<longrightarrow> (\<exists>t2. t1 = EvRecv fd len (Inr []) # t2 \<and> sent_bytes fd t2 = sent_bytes fd (w_trace w) \<and>
      received_bytes fd t2 = received_bytes fd (w_trace w))"
    by (rule read_some_effect [OF os])
  have "grows (w_trace w) t1" unfolding grows_def by (rule only_events_mono [OF r(9)]) auto
  note f = io_frame [OF base fd r(2,3) this]
  have "sent_bytes fd' t1 = sent_bytes fd' (w_trace w)" 
    "received_bytes fd' t1 = received_bytes fd' (w_trace w) @ (if fd' = fd then bs else [])" for fd'
    using r(4,5) untouched_bytes [OF r(3), of fd'] by (cases "fd' = fd"; simp)+
  then show ?thesis using that [OF r(1) f _ _ r(8,10)] by blast
qed

lemma write_step:
  assumes os: "finite_interrupts os" "bounded_io os" and base: "conn_base cfg F E c w" and fd: "fd \<in> cfds c"
  obtains st n t1 where "write_some os fd bs (w_trace w) = Some ((st, n), t1)"
    and "conn_base cfg F E c (w\<lparr>w_trace := t1\<rparr>)" and "step_ok F E w (w\<lparr>w_trace := t1\<rparr>)"
    and "\<forall>fd'. received_bytes fd' t1 = received_bytes fd' (w_trace w)"
    and "\<forall>fd'. sent_bytes fd' t1 = sent_bytes fd' (w_trace w) @ (if fd' = fd then take n bs else [])"
    and "n \<le> length bs" and "st \<noteq> IoOk \<longrightarrow> n = 0"
proof -
  obtain st n t1 where r: "write_some os fd bs (w_trace w) = Some ((st, n), t1)"
    "open_fds t1 = open_fds (w_trace w)" "untouched (- {fd}) (w_trace w) t1"
    "received_bytes fd t1 = received_bytes fd (w_trace w)" "sent_bytes fd t1 = sent_bytes fd (w_trace w) @ take n bs"
    "registered 0 t1 = registered 0 (w_trace w)" "n \<le> length bs" "st \<noteq> IoOk \<longrightarrow> n = 0"
    "only_events (\<lambda>ev. \<exists>r. ev = EvSend fd bs r) (w_trace w) t1"
    by (rule write_some_effect [OF os])
  have "grows (w_trace w) t1" unfolding grows_def by (rule only_events_mono [OF r(9)]) auto
  note f = io_frame [OF base fd r(2,3) this]
  have "received_bytes fd' t1 = received_bytes fd' (w_trace w)" 
    "sent_bytes fd' t1 = sent_bytes fd' (w_trace w) @ (if fd' = fd then take n bs else [])" for fd'
    using r(4,5) untouched_bytes [OF r(3), of fd'] by (cases "fd' = fd"; simp)+
  then show ?thesis using that [OF r(1) f _ _ r(7,8)] by blast
qed

lemma request_progress:
  assumes os: "fresh_descriptors os" and base: "conn_base cfg F E c w" and ok: "state_ok cfg c w"
    and st: "c_state c = ReadingRequest" "c_parsed c"
  shows "returns_good cfg F E w
    (if length (c_in_client c) < (rq_header_bytes (c_req c) + rq_content_length (c_req c)) mod 2 ^ 64 then Some (c, w)
     else request_complete os cfg c w)"
proof (cases "length (c_in_client c) < (rq_header_bytes (c_req c) + rq_content_length (c_req c)) mod 2 ^ 64")
  case True
  then show ?thesis using base ok by (simp add: good_def)
next
  case False
  then show ?thesis
    using ok st request_complete_good [OF os base] by (simp add: state_ok_def Let_def request_read_def)
qed

lemma parse_request_more:
  assumes "parse_request buf init_request = Some (Ok, req)"
  shows "parse_request (buf @ bs) init_request = Some (Ok, req)"
  using assms parse_request_Ok_facts [OF assms] parse_request_append by metis

lemma do_read_client_good:
  assumes os: "fresh_descriptors os" "finite_interrupts os" "bounded_io os" and base: "conn_base cfg F E c w"
    and ok: "state_ok cfg c w" and st: "c_state c = ReadingRequest"
  shows "returns_good cfg F E w (do_read_client os cfg c w)"
proof -
  have s: "0 \<le> c_client c" "\<not> c_upstream_eof c" "c_want c = ReadClient" "c_upstream c = -1" "c_job c = None" "idle c"
      "sent_bytes (c_client c) (w_trace w) = []" "c_cache_key c = []" "received_bytes (c_client c) (w_trace w) = c_in_client c"
    using ok st by (auto simp: state_ok_def Let_def)
  then have "c_client c \<in> cfds c" by (simp add: cfds_def)
  from read_step [OF os(2,3) base this, of "io_chunk cfg"]
  obtain io bs t1 where r: "read_some os (c_client c) (io_chunk cfg) (w_trace w) = Some ((io, bs), t1)"
    and b: "conn_base cfg F E c (w\<lparr>w_trace := t1\<rparr>)" and step: "step_ok F E w (w\<lparr>w_trace := t1\<rparr>)"
    and sent: "\<forall>fd'. sent_bytes fd' t1 = sent_bytes fd' (w_trace w)"
    and recv: "\<forall>fd'. received_bytes fd' t1 = received_bytes fd' (w_trace w) @ (if fd' = c_client c then bs else [])"
    and io: "io = IoOk \<longleftrightarrow> bs \<noteq> []" by metis
  let ?w = "w\<lparr>w_trace := t1\<rparr>" and ?in = "c_in_client c @ bs"
  have fail: "returns_good cfg F E ?w (Some (fail_with p (c\<lparr>c_in_client := ?in, c_req := q\<rparr>) ?w))" if "p \<in> error_pages" for p q
    using that s sent conn_base_cong [OF b]
    by (simp add: fail_with_good [of cfg F E "c\<lparr>c_in_client := ?in, c_req := q\<rparr>" ?w p] reply_ok_def)
  have "returns_good cfg F E ?w (do_read_client os cfg c w)"
  proof (cases "io = IoOk")
    case False
    then have "bs = []" using io by simp
    then have "state_ok cfg c ?w" using ok st sent recv by (simp add: state_ok_def Let_def)
    with False show ?thesis
      using b finish_good [OF b] by (cases io) (simp_all add: do_read_client_def r good_def)
  next
    case True
    show ?thesis
    proof (cases "c_parsed c")
      case parsed: True
      let ?c = "c\<lparr>c_in_client := ?in\<rparr>"
      have "state_ok cfg ?c ?w"
        using ok st s parsed sent recv parse_request_more by (simp add: state_ok_def Let_def idle_def)
      from request_progress [OF os(1) conn_base_cong [OF b] this] show ?thesis
        using st parsed True by (simp add: do_read_client_def r Let_def)
    next
      case unparsed: False
      have init: "c_req c = init_request" using ok st unparsed by (simp add: state_ok_def Let_def parse_request_Incomplete_iff)
      obtain pr req where p: "parse_request ?in init_request = Some (pr, req)" using parse_request_returns [of ?in init_request] by auto
      let ?c = "c\<lparr>c_in_client := ?in, c_req := req\<rparr>" and ?c' = "c\<lparr>c_in_client := ?in, c_req := req, c_parsed := True\<rparr>"
      show ?thesis
      proof (cases "pr = Ok \<and> rq_content_length req \<le> max_body_bytes cfg")
        case True
        then have "state_ok cfg ?c' ?w" using st s sent recv p by (simp add: state_ok_def Let_def idle_def)
        from request_progress [OF os(1) conn_base_cong [OF b] this] show ?thesis
          using st unparsed \<open>io = IoOk\<close> True init p by (simp add: do_read_client_def r Let_def)
      next
        case False
        have "good cfg F E ?w (?c, ?w)" if "pr = Incomplete"
          using st s sent recv p that unparsed conn_base_cong [OF b] by (simp add: good_def state_ok_def Let_def idle_def)
        with False fail show ?thesis
          using unparsed \<open>io = IoOk\<close> init p by (cases pr) (simp_all add: do_read_client_def r Let_def error_pages_def)
      qed
    qed
  qed
  with returns_good_trans [OF step] show ?thesis by blast
qed

lemma take_more: "off \<le> length xs \<Longrightarrow> take off xs @ take n (drop off xs) = take (off + n) xs"
  by (simp add: take_add)

lemma do_write_upstream_good:
  assumes os: "finite_interrupts os" "bounded_io os" and base: "conn_base cfg F E c w" and ok: "state_ok cfg c w"
    and st: "c_state c = SendingUpstream"
  shows "returns_good cfg F E w (do_write_upstream os c w)"
proof -
  let ?out = "c_out_upstream c" and ?off = "c_out_upstream_off c"
  have s: "0 \<le> c_client c" "\<not> c_upstream_eof c" "0 \<le> c_upstream c" "c_job c = None" "request_read cfg c (w_trace w)" "idle c"
      "sent_bytes (c_client c) (w_trace w) = []" "?out = request_text c" "?off \<le> length ?out"
      "sent_bytes (c_upstream c) (w_trace w) = take ?off ?out" "received_bytes (c_upstream c) (w_trace w) = []"
    using ok st by (auto simp: state_ok_def Let_def)
  have ne: "c_client c \<noteq> c_upstream c" using base s(3) by (auto simp: conn_base_def)
  have "c_upstream c \<in> cfds c" using s by (simp add: cfds_def)
  from write_step [OF os base this, of "drop ?off ?out"]
  obtain io n t1 where r: "write_some os (c_upstream c) (drop ?off ?out) (w_trace w) = Some ((io, n), t1)"
    and b: "conn_base cfg F E c (w\<lparr>w_trace := t1\<rparr>)" and step: "step_ok F E w (w\<lparr>w_trace := t1\<rparr>)"
    and recv: "\<forall>fd'. received_bytes fd' t1 = received_bytes fd' (w_trace w)"
    and sent: "\<forall>fd'. sent_bytes fd' t1 = sent_bytes fd' (w_trace w) @ (if fd' = c_upstream c then take n (drop ?off ?out) else [])"
    and n: "n \<le> length (drop ?off ?out)" "io \<noteq> IoOk \<longrightarrow> n = 0" by metis
  let ?w = "w\<lparr>w_trace := t1\<rparr>"
  have lk: "looked_up t1 (rq_host (c_req c)) (rq_port (c_req c)) True (c_endpoints c)"
    using ok st looked_up_suffix [OF _ step_ok_suffix [OF step]] by (simp add: state_ok_def Let_def)
  have up: "sent_bytes (c_upstream c) t1 = take (?off + n) ?out" using sent s(9,10) by (simp add: take_more)
  have rd: "request_read cfg c t1" using s(5) recv by (simp add: request_read_def)
  consider "io = IoWouldBlock" | "io \<noteq> IoWouldBlock" "io \<noteq> IoOk" | "io = IoOk" "?off + n < length ?out"
    | "io = IoOk" "?off + n = length ?out" using n s(9) by fastforce
  then have "returns_good cfg F E ?w (do_write_upstream os c w)"
  proof cases
    case 1
    then have "state_ok cfg c ?w" using ok st recv sent n(2) rd lk by (auto simp: state_ok_def Let_def)
    then show ?thesis using 1 b by (simp add: do_write_upstream_def r good_def)
  next
    case 2
    have "good cfg F E ?w (fail_with (error_response 502 ''Bad Gateway'') c ?w)"
      by (rule fail_with_good [OF b s(4,1,2) _ reply_502]) (use s(7) ne sent in simp)
    then show ?thesis using 2 by (simp add: do_write_upstream_def r)
  next
    case 3
    let ?c = "c\<lparr>c_out_upstream_off := ?off + n\<rparr>"
    have "state_ok cfg ?c ?w" using ok st s ne sent recv lk rd up 3 by (auto simp: state_ok_def conn_simps)
    then show ?thesis using 3 conn_base_cong [OF b] by (simp add: do_write_upstream_def r good_def)
  next
    case 4
    let ?c = "set_want ReadUpstream (c\<lparr>c_out_upstream := [], c_out_upstream_off := 0, c_state := Relaying\<rparr>)"
    have "state_ok cfg ?c ?w" using s ne sent recv rd up 4 by (simp add: state_ok_def conn_simps)
    then show ?thesis using 4 conn_base_cong [OF b] by (simp add: do_write_upstream_def r good_def)
  qed
  with returns_good_trans [OF step] show ?thesis by blast
qed

lemma accumulate_fields [simp]:
  "c_client (accumulate cfg bs c) = c_client c" "c_upstream (accumulate cfg bs c) = c_upstream c" "c_job (accumulate cfg bs c) = c_job c"
  "c_state (accumulate cfg bs c) = c_state c" "c_want (accumulate cfg bs c) = c_want c" "c_req (accumulate cfg bs c) = c_req c"
  "c_in_client (accumulate cfg bs c) = c_in_client c" "c_out_client (accumulate cfg bs c) = c_out_client c"
  "c_out_client_off (accumulate cfg bs c) = c_out_client_off c" "c_upstream_eof (accumulate cfg bs c) = c_upstream_eof c"
  "c_cache_key (accumulate cfg bs c) = c_cache_key c" "c_epoch (accumulate cfg bs c) = c_epoch c"
  by (simp_all add: accumulate_def)

lemma do_write_client_good:
  assumes os: "finite_interrupts os" "bounded_io os" and base: "conn_base cfg F E c w" and ok: "state_ok cfg c w"
    and st: "c_state c \<in> {Failing, Relaying}" "c_want c = WriteClient"
  shows "returns_good cfg F E w (do_write_client os c w)"
proof -
  let ?out = "c_out_client c" and ?off = "c_out_client_off c" and ?t = "w_trace w"
  have s: "0 \<le> c_client c" "\<not> c_upstream_eof c" "?off \<le> length ?out"
    using ok st by (auto simp: state_ok_def Let_def)
  have ne: "0 \<le> c_upstream c \<Longrightarrow> c_client c \<noteq> c_upstream c" using base by (auto simp: conn_base_def)
  have "c_client c \<in> cfds c" using s by (simp add: cfds_def)
  from write_step [OF os base this, of "drop ?off ?out"]
  obtain io n t1 where r: "write_some os (c_client c) (drop ?off ?out) ?t = Some ((io, n), t1)"
    and b: "conn_base cfg F E c (w\<lparr>w_trace := t1\<rparr>)" and step: "step_ok F E w (w\<lparr>w_trace := t1\<rparr>)"
    and recv: "\<forall>fd'. received_bytes fd' t1 = received_bytes fd' ?t"
    and sent: "\<forall>fd'. sent_bytes fd' t1 = sent_bytes fd' ?t @ (if fd' = c_client c then take n (drop ?off ?out) else [])"
    and n: "n \<le> length (drop ?off ?out)" "io \<noteq> IoOk \<longrightarrow> n = 0" by metis
  let ?w = "w\<lparr>w_trace := t1\<rparr>" and ?c = "c\<lparr>c_out_client_off := ?off + n\<rparr>"
  have reply: "reply_ok cfg c t1 x" if "reply_ok cfg c ?t x" for x
    using that from_origin_mono [OF _ step_ok_suffix [OF step]] recv by (auto simp: reply_ok_def request_read_def)
  have cut: "take n (drop ?off ?out) @ drop (?off + n) ?out = drop ?off ?out"
    by (metis add.commute append_take_drop_id drop_drop)
  have ok': "state_ok cfg ?c ?w" if "?off + n < length ?out"
  proof (cases "c_state c = Failing")
    case True
    then show ?thesis using ok st that s sent reply by (auto simp: state_ok_def Let_def conn_simps take_more)
  next
    case False
    then show ?thesis
      using ok st that ne sent recv cut by (auto simp: state_ok_def Let_def conn_simps)
  qed
  have "returns_good cfg F E ?w (do_write_client os c w)"
  proof (cases "io = IoOk")
    case False
    then have "state_ok cfg c ?w"
      using ok st s sent recv n(2) reply by (auto simp: state_ok_def Let_def request_read_def)
    then show ?thesis using False b finish_good [OF b] by (simp add: do_write_client_def r Let_def good_def)
  next
    case io: True
    show ?thesis
    proof (cases "?off + n < length ?out")
      case True
      then show ?thesis using io ok' conn_base_cong [OF b] by (simp add: do_write_client_def r Let_def good_def)
    next
      case False
      then have all: "take n (drop ?off ?out) = drop ?off ?out" by simp
      let ?c2 = "c\<lparr>c_out_client := [], c_out_client_off := 0\<rparr>"
      have b2: "conn_base cfg F E ?c2 ?w" using conn_base_cong [OF b] by simp
      show ?thesis
      proof (cases "c_state c = Failing")
        case True
        then show ?thesis using io False finish_good [OF b2] by (simp add: do_write_client_def r Let_def)
      next
        case False
        then have "state_ok cfg (set_want ReadUpstream ?c2) ?w"
          using ok st ne sent recv all by (auto simp: state_ok_def Let_def conn_simps)
        then show ?thesis
          using io False \<open>\<not> ?off + n < _\<close> s(2) conn_base_cong [OF b2] by (simp add: do_write_client_def r Let_def good_def)
      qed
    qed
  qed
  with returns_good_trans [OF step] show ?thesis by blast
qed

lemma do_read_upstream_good:
  assumes os: "finite_interrupts os" "bounded_io os" and base: "conn_base cfg F E c w" and ok: "state_ok cfg c w"
    and st: "c_state c = Relaying" "c_want c = ReadUpstream"
  shows "returns_good cfg F E w (do_read_upstream os cfg c w)"
proof -
  let ?t = "w_trace w" and ?up = "c_upstream c"
  have s: "0 \<le> c_client c" "\<not> c_upstream_eof c" "0 \<le> ?up" "c_job c = None" "request_read cfg c ?t" "sent_bytes ?up ?t = request_text c"
      "c_out_client c = []" "c_out_client_off c = 0" "sent_bytes (c_client c) ?t = received_bytes ?up ?t"
      "c_cache_key c \<noteq> [] \<and> \<not> c_cache_too_big c \<longrightarrow>
        c_cache_accum c = received_bytes ?up ?t \<and> length (c_cache_accum c) \<le> cache_max_entry_bytes cfg"
    using ok st by (auto simp: state_ok_def Let_def)
  have ne: "c_client c \<noteq> ?up" using base s(3) by (auto simp: conn_base_def)
  have "?up \<in> cfds c" using s by (simp add: cfds_def)
  from read_step [OF os base this, of "io_chunk cfg"]
  obtain io bs t1 where r: "read_some os ?up (io_chunk cfg) ?t = Some ((io, bs), t1)"
    and b: "conn_base cfg F E c (w\<lparr>w_trace := t1\<rparr>)" and step: "step_ok F E w (w\<lparr>w_trace := t1\<rparr>)"
    and sent: "\<forall>fd'. sent_bytes fd' t1 = sent_bytes fd' ?t"
    and recv: "\<forall>fd'. received_bytes fd' t1 = received_bytes fd' ?t @ (if fd' = ?up then bs else [])"
    and io: "io = IoOk \<longleftrightarrow> bs \<noteq> []"
    and closed: "io = IoClosed \<longrightarrow> (\<exists>t2. t1 = EvRecv ?up (io_chunk cfg) (Inr []) # t2 \<and> sent_bytes ?up t2 = sent_bytes ?up ?t \<and>
      received_bytes ?up t2 = received_bytes ?up ?t)" by metis
  let ?w = "w\<lparr>w_trace := t1\<rparr>"
  have rd: "request_read cfg c t1" using s(5) recv ne by (simp add: request_read_def)
  have "returns_good cfg F E ?w (do_read_upstream os cfg c w)"
  proof (cases io)
    case IoWouldBlock
    then have "state_ok cfg c ?w" using ok st sent recv io rd by (auto simp: state_ok_def Let_def)
    then show ?thesis using IoWouldBlock b by (simp add: do_read_upstream_def r good_def)
  next
    case IoError
    then show ?thesis using finish_good [OF b] by (simp add: do_read_upstream_def r)
  next
    case IoOk
    let ?c = "set_want WriteClient ((accumulate cfg bs c)\<lparr>c_out_client := c_out_client c @ bs\<rparr>)"
    have acc: "c_cache_key c \<noteq> [] \<Longrightarrow> \<not> c_cache_too_big (accumulate cfg bs c) \<Longrightarrow>
        c_cache_accum (accumulate cfg bs c) = received_bytes ?up ?t @ bs \<and>
        length (received_bytes ?up ?t) + length bs \<le> cache_max_entry_bytes cfg"
      using s(10) by (auto simp: accumulate_def split: if_splits)
    have rd': "request_read cfg ?c t1" "request_text ?c = request_text c" using rd by (simp_all add: conn_simps)
    have "state_ok cfg ?c ?w"
      using st s ne sent recv IoOk io acc rd' by (simp add: state_ok_def Let_def)
    then show ?thesis using IoOk conn_base_cong [OF b] by (simp add: do_read_upstream_def r Let_def good_def)
  next
    case IoClosed
    then obtain t2 where t2: "t1 = EvRecv ?up (io_chunk cfg) (Inr []) # t2" "sent_bytes ?up t2 = request_text c"
        "received_bytes ?up t2 = received_bytes ?up ?t" using closed s(6) by auto
    define c1 where "c1 = c\<lparr>c_upstream_eof := True, c_upstream := -1\<rparr>"
    define w2 where "w2 = ?w\<lparr>w_trace := fd_destroy ?up (w_trace ?w)\<rparr>"
    have b1: "conn_base cfg F E c1 w2" using conn_base_cong [OF close_upstream(1) [OF b]] by (simp add: c1_def w2_def)
    have step2: "step_ok F E ?w w2" unfolding w2_def by (rule close_upstream(2) [OF b])
    have src: "from_origin cfg (w_trace w2) (c_cache_key c1) (c_cache_accum c1)"
      if "c_cache_key c1 \<noteq> []" "\<not> c_cache_too_big c1" "c_upstream_eof c1" "storable (c_cache_accum c1)"
    proof -
      have "suffix (EvRecv ?up (io_chunk cfg) (Inr []) # t2) (w_trace w2)" by (simp add: w2_def t2(1))
      moreover have "parse_request (c_in_client c) init_request = Some (Ok, c_req c)" "cacheable_request cfg (c_req c)"
        "c_cache_key c1 = request_key (c_req c)" using s(5) that(1) by (auto simp: request_read_def c1_def)
      moreover have "received_bytes ?up t2 = c_cache_accum c1" "length (c_cache_accum c1) \<le> cache_max_entry_bytes cfg"
        using s(10) that t2(3) by (auto simp: c1_def)
      ultimately show ?thesis using that(4) t2(2) unfolding from_origin_def request_text_def by blast
    qed
    have "cache_ok cfg w2" using b1 by (simp add: conn_base_def owned_def)
    then obtain w3 where w3: "store_in_cache c1 w2 = Some w3" "w3 = w2\<lparr>w_cache := w_cache w3\<rparr>" "cache_ok cfg w3"
        "w_cache w3 = None \<longleftrightarrow> w_cache w2 = None" using store_in_cache_ok src by blast
    then have b3: "conn_base cfg F E c1 w3" using conn_base_cache [OF b1, of "w_cache w3"] by simp
    have "step_ok F E w2 (w2\<lparr>w_cache := w_cache w3\<rparr>)" using w3(4) by (simp add: step_ok_def jobs_kept_def)
    then have step3: "step_ok F E ?w w3" using step_ok_trans [OF step2] w3(2) by simp
    have "do_read_upstream os cfg c w = Some (finish c1 w3)"
      using IoClosed w3(1) s(7) by (simp add: do_read_upstream_def r c1_def w2_def)
    then show ?thesis using good_trans [OF step3 finish_good [OF b3]] by simp
  qed
  with returns_good_trans [OF step] show ?thesis by blast
qed

text \<open>Every call of \<^verbatim>\<open>on_ready\<close> returns, keeps the invariant and leaves the other owners alone.\<close>

lemma on_ready_good:
  assumes os: "fresh_descriptors os" "finite_interrupts os" "bounded_io os" and base: "conn_base cfg F E c w" and ok: "state_ok cfg c w"
  shows "returns_good cfg F E w (on_ready os cfg c w)"
proof (cases "c_state c")
  case ReadingRequest
  then show ?thesis using do_read_client_good [OF os base ok] ok by (simp add: on_ready_def state_ok_def Let_def)
next
  case Resolving
  then show ?thesis using finish_resolve_good [OF os(1) base ok] ok by (simp add: on_ready_def state_ok_def Let_def)
next
  case Connecting
  then show ?thesis using finish_connect_good [OF os(1) base ok] ok by (simp add: on_ready_def state_ok_def Let_def)
next
  case SendingUpstream
  then show ?thesis using do_write_upstream_good [OF os(2,3) base ok] ok by (simp add: on_ready_def state_ok_def Let_def)
next
  case Relaying
  then have "c_want c = ReadUpstream \<or> c_want c = WriteClient" using ok by (auto simp: state_ok_def Let_def)
  then show ?thesis
    using do_read_upstream_good [OF os(2,3) base ok Relaying] do_write_client_good [OF os(2,3) base ok] Relaying
    by (auto simp: on_ready_def)
next
  case Failing
  then show ?thesis using do_write_client_good [OF os(2,3) base ok] ok by (simp add: on_ready_def state_ok_def Let_def)
next
  case Done
  then show ?thesis using finish_good [OF base] ok by (simp add: on_ready_def state_ok_def Let_def)
qed

end
