(* ===== verification/Proxy.thy ===== *)
theory Proxy
  imports Connection_Safety
begin

text \<open>
  The process as a whole: any number of connections that share one resolver, driven in any order,
  while the resolver threads run and the backend accepts clients and keeps descriptors of its own.
  The backends are particular schedules of these steps, so what holds in every state reachable here
  holds for each of them. A backend may keep one response cache or several (one per event loop).
\<close>

section \<open>States and steps\<close>

record 'k proxy =
  p_conns :: "'k \<rightharpoonup> connection"
  p_accepted :: "fd set"   \<comment> \<open>accepted, not yet given to a connection\<close>
  p_other :: "fd set"      \<comment> \<open>listener, kqueues, hand-off pipes, whatever was open at the start\<close>
  p_trace :: trace
  p_res :: resolver
  p_caches :: "lru option list"

definition world_of :: "'k proxy \<Rightarrow> nat \<Rightarrow> world" where
  "world_of s q = \<lparr>w_trace = p_trace s, w_res = p_res s, w_cache = p_caches s ! q\<rparr>"

definition set_world :: "nat \<Rightarrow> world \<Rightarrow> 'k proxy \<Rightarrow> 'k proxy" where
  "set_world q w s = s\<lparr>p_trace := w_trace w, p_res := w_res w, p_caches := (p_caches s)[q := w_cache w]\<rparr>"

definition bytes_kept :: "fd set \<Rightarrow> trace \<Rightarrow> trace \<Rightarrow> bool" where
  "bytes_kept F t t' \<longleftrightarrow> (\<forall>fd\<in>F. sent_bytes fd t' = sent_bytes fd t \<and> received_bytes fd t' = received_bytes fd t)"

inductive proxy_run :: "os \<Rightarrow> config \<Rightarrow> 'k proxy \<Rightarrow> bool" for os cfg where
  run_init: "set caches \<subseteq> {None, Some (make_cache cfg)} \<Longrightarrow>
    proxy_run os cfg \<lparr>p_conns = Map.empty, p_accepted = {}, p_other = open_fds t, p_trace = t,
      p_res = new_resolver n ttl delay, p_caches = caches\<rparr>"
| run_accept: "proxy_run os cfg s \<Longrightarrow> accept_one os l (p_trace s) = Some ((AcceptOk, fd), t') \<Longrightarrow>
    proxy_run os cfg (s\<lparr>p_trace := t', p_accepted := insert fd (p_accepted s)\<rparr>)"
| run_other: "proxy_run os cfg s \<Longrightarrow> D \<subseteq> p_other s \<Longrightarrow> N \<inter> open_fds (p_trace s) = {} \<Longrightarrow> suffix (p_trace s) t' \<Longrightarrow>
    open_fds t' = open_fds (p_trace s) - D \<union> N \<Longrightarrow> bytes_kept (open_fds (p_trace s) - D) (p_trace s) t' \<Longrightarrow>
    proxy_run os cfg (s\<lparr>p_trace := t', p_other := p_other s - D \<union> N\<rparr>)"
| run_admit: "proxy_run os cfg s \<Longrightarrow> fd \<in> p_accepted s \<Longrightarrow> p_conns s k = None \<Longrightarrow> q < length (p_caches s) \<Longrightarrow>
    new_connection os fd cid (world_of s q) = (c, w) \<Longrightarrow>
    proxy_run os cfg (set_world q w (s\<lparr>p_accepted := p_accepted s - {fd}, p_conns := (p_conns s)(k \<mapsto> c)\<rparr>))"
| run_drop: "proxy_run os cfg s \<Longrightarrow> fd \<in> p_accepted s \<Longrightarrow>
    proxy_run os cfg (s\<lparr>p_accepted := p_accepted s - {fd}, p_trace := fd_destroy fd (p_trace s)\<rparr>)"
| run_ready: "proxy_run os cfg s \<Longrightarrow> p_conns s k = Some c \<Longrightarrow> q < length (p_caches s) \<Longrightarrow>
    on_ready os cfg c (world_of s q) = Some (c', w) \<Longrightarrow>
    proxy_run os cfg (set_world q w (s\<lparr>p_conns := (p_conns s)(k \<mapsto> c')\<rparr>))"
| run_destroy: "proxy_run os cfg s \<Longrightarrow> p_conns s k = Some c \<Longrightarrow> q < length (p_caches s) \<Longrightarrow>
    proxy_run os cfg (set_world q (destroy_connection c (world_of s q)) (s\<lparr>p_conns := (p_conns s)(k := None)\<rparr>))"
| run_worker: "proxy_run os cfg s \<Longrightarrow> worker_step os n (p_res s) (p_trace s) = Some (r, t) \<Longrightarrow>
    proxy_run os cfg (s\<lparr>p_res := r, p_trace := t\<rparr>)"
| run_shutdown: "proxy_run os cfg s \<Longrightarrow> proxy_run os cfg (s\<lparr>p_res := close_resolver (p_res s)\<rparr>)"


section \<open>The invariant\<close>

definition held :: "('k \<rightharpoonup> connection) \<Rightarrow> job_id \<Rightarrow> nat" where
  "held conns i = (if \<exists>k c. conns k = Some c \<and> c_job c = Some i then 1 else 0)"

definition conn_fds :: "('k \<rightharpoonup> connection) \<Rightarrow> fd set" where
  "conn_fds conns = (\<Union>c\<in>ran conns. cfds c)"

definition proxy_inv :: "config \<Rightarrow> 'k proxy \<Rightarrow> bool" where
  "proxy_inv cfg s \<longleftrightarrow>
     jobs_own (p_other s \<union> p_accepted s \<union> conn_fds (p_conns s)) (p_res s) (p_trace s) \<and>
     p_other s \<inter> p_accepted s = {} \<and>
     (\<forall>fd\<in>p_accepted s. 0 \<le> fd \<and> sent_bytes fd (p_trace s) = [] \<and> received_bytes fd (p_trace s) = []) \<and>
     resolver_inv (held (p_conns s)) (p_res s) (p_trace s) \<and>
     (\<forall>x\<in>set (p_caches s). cache_ok cfg \<lparr>w_trace = p_trace s, w_res = p_res s, w_cache = x\<rparr>) \<and>
     (\<forall>k c. p_conns s k = Some c \<longrightarrow>
        cfds c \<inter> (p_other s \<union> p_accepted s) = {} \<and> (c_client c \<noteq> c_upstream c \<or> c_upstream c = -1) \<and>
        -1 \<le> c_client c \<and> -1 \<le> c_upstream c \<and>
        state_ok cfg c \<lparr>w_trace = p_trace s, w_res = p_res s, w_cache = None\<rparr>) \<and>
     (\<forall>k k' c c'. p_conns s k = Some c \<longrightarrow> p_conns s k' = Some c' \<longrightarrow> k \<noteq> k' \<longrightarrow>
        cfds c \<inter> cfds c' = {} \<and> (c_job c = None \<or> c_job c \<noteq> c_job c'))"

lemma state_ok_world: "w_trace w' = w_trace w \<Longrightarrow> w_res w' = w_res w \<Longrightarrow> state_ok cfg c w' = state_ok cfg c w"
  by (simp only: state_ok_def)

lemma bytes_kept_untouched: "untouched F t t' \<Longrightarrow> bytes_kept F t t'"
  by (simp add: bytes_kept_def untouched_def)

lemma bytes_kept_mono: "bytes_kept F t t' \<Longrightarrow> G \<subseteq> F \<Longrightarrow> bytes_kept G t t'"
  by (auto simp: bytes_kept_def)

text \<open>A connection does not notice what others do.\<close>

lemma state_ok_frame:
  assumes ok: "state_ok cfg c w" and b: "bytes_kept (cfds c) (w_trace w) (w_trace w')" and s: "suffix (w_trace w) (w_trace w')"
    and j: "\<And>i. c_job c = Some i \<Longrightarrow> j_host (r_jobs (w_res w') ! i) = j_host (r_jobs (w_res w) ! i) \<and>
      j_port (r_jobs (w_res w') ! i) = j_port (r_jobs (w_res w) ! i) \<and> j_read_end (r_jobs (w_res w') ! i) = j_read_end (r_jobs (w_res w) ! i)"
  shows "state_ok cfg c w'"
proof -
  have cl: "0 \<le> c_client c \<Longrightarrow> sent_bytes (c_client c) (w_trace w') = sent_bytes (c_client c) (w_trace w) \<and>
      received_bytes (c_client c) (w_trace w') = received_bytes (c_client c) (w_trace w)"
    and up: "0 \<le> c_upstream c \<Longrightarrow> sent_bytes (c_upstream c) (w_trace w') = sent_bytes (c_upstream c) (w_trace w) \<and>
      received_bytes (c_upstream c) (w_trace w') = received_bytes (c_upstream c) (w_trace w)"
    using b by (auto simp: bytes_kept_def cfds_def)
  have rd: "0 \<le> c_client c \<Longrightarrow> request_read cfg c (w_trace w) \<Longrightarrow> request_read cfg c (w_trace w')"
    using cl by (simp add: request_read_def)
  have re: "0 \<le> c_client c \<Longrightarrow> reply_ok cfg c (w_trace w) x \<Longrightarrow> reply_ok cfg c (w_trace w') x" for x
    using rd from_origin_mono [OF _ s] by (auto simp: reply_ok_def)
  note lk = looked_up_suffix [OF _ s]
  show ?thesis
    using ok cl up rd re lk j by (cases "c_state c") (auto simp: state_ok_def Let_def)
qed

lemma held_None: "held (conns(k := None)) i = 1 \<longleftrightarrow> (\<exists>k' c. k' \<noteq> k \<and> conns k' = Some c \<and> c_job c = Some i)"
  by (auto simp: held_def)

text \<open>What everybody but connection \<open>k\<close> owns.\<close>

definition rest_fds :: "'k proxy \<Rightarrow> 'k \<Rightarrow> fd set" where
  "rest_fds s k = p_other s \<union> p_accepted s \<union> conn_fds ((p_conns s)(k := None))"

lemma conn_fds_upd: "conn_fds (conns(k \<mapsto> c)) = conn_fds (conns(k := None)) \<union> cfds c"
  by (auto simp: conn_fds_def ran_def split: if_splits)

lemma conn_fds_focus: "conns k = Some c \<Longrightarrow> conn_fds conns = conn_fds (conns(k := None)) \<union> cfds c"
  using conn_fds_upd [of conns k c] by (simp add: fun_upd_idem)

lemma held_upd:
  assumes "held (conns(k := None)) i = 0 \<or> c_job c \<noteq> Some i"
  shows "held (conns(k \<mapsto> c)) i = hold (held (conns(k := None))) (c_job c) i"
  using assms by (auto simp: held_def hold_def split: option.splits if_splits)

lemma held_zero: "held conns i = 0 \<longleftrightarrow> (\<forall>k c. conns k = Some c \<longrightarrow> c_job c \<noteq> Some i)"
  by (auto simp: held_def)

text \<open>The part of the invariant that does not concern connection \<open>k\<close>.\<close>

definition others_ok :: "config \<Rightarrow> 'k proxy \<Rightarrow> 'k \<Rightarrow> bool" where
  "others_ok cfg s k \<longleftrightarrow>
     p_other s \<inter> p_accepted s = {} \<and>
     (\<forall>fd\<in>p_accepted s. 0 \<le> fd \<and> sent_bytes fd (p_trace s) = [] \<and> received_bytes fd (p_trace s) = []) \<and>
     (\<forall>x\<in>set (p_caches s). cache_ok cfg \<lparr>w_trace = p_trace s, w_res = p_res s, w_cache = x\<rparr>) \<and>
     (\<forall>k1 c. k1 \<noteq> k \<longrightarrow> p_conns s k1 = Some c \<longrightarrow>
        cfds c \<inter> (p_other s \<union> p_accepted s) = {} \<and> (c_client c \<noteq> c_upstream c \<or> c_upstream c = -1) \<and>
        -1 \<le> c_client c \<and> -1 \<le> c_upstream c \<and>
        state_ok cfg c \<lparr>w_trace = p_trace s, w_res = p_res s, w_cache = None\<rparr>) \<and>
     (\<forall>k1 k2 c1 c2. k1 \<noteq> k \<longrightarrow> k2 \<noteq> k \<longrightarrow> p_conns s k1 = Some c1 \<longrightarrow> p_conns s k2 = Some c2 \<longrightarrow> k1 \<noteq> k2 \<longrightarrow>
        cfds c1 \<inter> cfds c2 = {} \<and> (c_job c1 = None \<or> c_job c1 \<noteq> c_job c2))"

lemma others_ok_inv: "proxy_inv cfg s \<Longrightarrow> others_ok cfg s k"
  unfolding others_ok_def proxy_inv_def by blast

lemma world_of_fields [simp]:
  "w_trace (world_of s q) = p_trace s" "w_res (world_of s q) = p_res s" "w_cache (world_of s q) = p_caches s ! q"
  by (simp_all add: world_of_def)

lemma set_world_fields [simp]:
  "p_conns (set_world q w s) = p_conns s" "p_accepted (set_world q w s) = p_accepted s" "p_other (set_world q w s) = p_other s"
  "p_trace (set_world q w s) = w_trace w" "p_res (set_world q w s) = w_res w"
  "p_caches (set_world q w s) = (p_caches s)[q := w_cache w]"
  by (simp_all add: set_world_def)

lemma cache_ok_suffix:
  assumes "cache_ok cfg \<lparr>w_trace = t, w_res = r, w_cache = x\<rparr>" and "suffix t t'"
  shows "cache_ok cfg \<lparr>w_trace = t', w_res = r', w_cache = x\<rparr>"
  using assms from_origin_mono by (fastforce simp: cache_ok_def split: option.splits)

lemma cache_ok_world: "cache_ok cfg w = cache_ok cfg \<lparr>w_trace = w_trace w, w_res = r, w_cache = w_cache w\<rparr>"
  by (cases "w_cache w") (simp_all add: cache_ok_def)

lemma focus:
  assumes inv: "proxy_inv cfg s" and k: "p_conns s k = Some c" and q: "q < length (p_caches s)"
  shows "conn_base cfg (rest_fds s k) (held ((p_conns s)(k := None))) c (world_of s q)" and "state_ok cfg c (world_of s q)"
proof -
  have own: "jobs_own (rest_fds s k \<union> cfds c) (p_res s) (p_trace s)"
    using inv conn_fds_focus [of "p_conns s", OF k] by (simp add: proxy_inv_def rest_fds_def Un_assoc)
  have uniq: "\<And>k' c'. k' \<noteq> k \<Longrightarrow> p_conns s k' = Some c' \<Longrightarrow> cfds c \<inter> cfds c' = {} \<and> (c_job c = None \<or> c_job c \<noteq> c_job c')"
    using inv k unfolding proxy_inv_def by blast
  have zero: "c_job c = Some i \<Longrightarrow> held ((p_conns s)(k := None)) i = 0" for i
    using uniq by (fastforce simp: held_zero split: if_splits)
  have "held (p_conns s) i = hold (held ((p_conns s)(k := None))) (c_job c) i" for i
    using held_upd [of "p_conns s" k i c] zero [of i] k by (simp add: fun_upd_idem) blast
  then have "held (p_conns s) = hold (held ((p_conns s)(k := None))) (c_job c)" by blast
  then have r: "resolver_inv (hold (held ((p_conns s)(k := None))) (c_job c)) (p_res s) (p_trace s)"
    using inv by (simp add: proxy_inv_def)
  have "p_caches s ! q \<in> set (p_caches s)" using q by simp
  then have c: "cache_ok cfg (world_of s q)" using inv unfolding proxy_inv_def world_of_def by blast
  have basic: "cfds c \<inter> (p_other s \<union> p_accepted s) = {} \<and> (c_client c \<noteq> c_upstream c \<or> c_upstream c = -1) \<and>
        -1 \<le> c_client c \<and> -1 \<le> c_upstream c \<and> state_ok cfg c \<lparr>w_trace = p_trace s, w_res = p_res s, w_cache = None\<rparr>"
    using inv k unfolding proxy_inv_def by blast
  have "rest_fds s k \<inter> cfds c = {}"
    using basic uniq by (fastforce simp: rest_fds_def conn_fds_def ran_def split: if_splits)
  then show "conn_base cfg (rest_fds s k) (held ((p_conns s)(k := None))) c (world_of s q)"
    using own r c zero basic by (simp add: conn_base_def owned_def)
  show "state_ok cfg c (world_of s q)"
    using basic state_ok_world [of "world_of s q" "\<lparr>w_trace = p_trace s, w_res = p_res s, w_cache = None\<rparr>"] by simp
qed

lemma others_ok_step:
  assumes ok: "others_ok cfg s k" and step: "step_ok (rest_fds s k) (held ((p_conns s)(k := None))) (world_of s q) w"
    and c: "cache_ok cfg w"
  shows "others_ok cfg (set_world q w s) k"
proof -
  have u: "untouched (rest_fds s k) (p_trace s) (w_trace w)" and sf: "suffix (p_trace s) (w_trace w)"
    and j: "jobs_kept (held ((p_conns s)(k := None))) (p_res s) (w_res w)"
    using step step_ok_untouched [OF step] step_ok_suffix [OF step] by (simp_all add: step_ok_def)
  have acc: "sent_bytes fd (w_trace w) = sent_bytes fd (p_trace s) \<and> received_bytes fd (w_trace w) = received_bytes fd (p_trace s)"
    if "fd \<in> p_accepted s" for fd
    using untouched_bytes [OF u] that by (simp add: rest_fds_def)
  have st: "state_ok cfg c' \<lparr>w_trace = w_trace w, w_res = w_res w, w_cache = None\<rparr>"
    if "k1 \<noteq> k" "p_conns s k1 = Some c'" for k1 c'
  proof (rule state_ok_frame [of _ _ "\<lparr>w_trace = p_trace s, w_res = p_res s, w_cache = None\<rparr>"], simp_all add: sf)
    show "state_ok cfg c' \<lparr>w_trace = p_trace s, w_res = p_res s, w_cache = None\<rparr>"
      using ok that unfolding others_ok_def by blast
    have "c' \<in> ran ((p_conns s)(k := None))" using that by (auto simp: ran_def)
    then have "cfds c' \<subseteq> rest_fds s k" by (auto simp: rest_fds_def conn_fds_def)
    then show "bytes_kept (cfds c') (p_trace s) (w_trace w)" using bytes_kept_untouched [OF untouched_mono [OF u]] by simp
    fix i assume "c_job c' = Some i"
    then have "held ((p_conns s)(k := None)) i = 1" unfolding held_None using that by blast
    then show "j_host (r_jobs (w_res w) ! i) = j_host (r_jobs (p_res s) ! i) \<and> j_port (r_jobs (w_res w) ! i) = j_port (r_jobs (p_res s) ! i) \<and>
        j_read_end (r_jobs (w_res w) ! i) = j_read_end (r_jobs (p_res s) ! i)" using j by (simp add: jobs_kept_def)
  qed
  have "cache_ok cfg \<lparr>w_trace = w_trace w, w_res = w_res w, w_cache = x\<rparr>" if "x \<in> set ((p_caches s)[q := w_cache w])" for x
  proof -
    from that consider "x = w_cache w" | "x \<in> set (p_caches s)" using set_update_subset_insert [of "p_caches s" q] by blast
    then show ?thesis
    proof cases
      case 1 then show ?thesis using c cache_ok_world by blast
    next
      case 2 then show ?thesis using ok cache_ok_suffix [OF _ sf] unfolding others_ok_def by blast
    qed
  qed
  then show ?thesis using ok acc st unfolding others_ok_def by simp
qed

lemma held_none_upd [simp]: "((conns(k \<mapsto> c))(k := None)) = conns(k := None)"
  by simp

lemma unfocus:
  assumes ok: "others_ok cfg s k" and base: "conn_base cfg (rest_fds s k) (held ((p_conns s)(k := None))) c w"
    and step: "step_ok (rest_fds s k) (held ((p_conns s)(k := None))) (world_of s q) w" and st: "state_ok cfg c w"
  shows "proxy_inv cfg (set_world q w (s\<lparr>p_conns := (p_conns s)(k \<mapsto> c)\<rparr>))"
proof -
  let ?s = "set_world q w s" and ?E = "held ((p_conns s)(k := None))"
  have own: "jobs_own (rest_fds s k \<union> cfds c) (w_res w) (w_trace w)" and r: "resolver_inv (hold ?E (c_job c)) (w_res w) (w_trace w)"
    and z: "\<And>i. c_job c = Some i \<Longrightarrow> ?E i = 0" and cc: "cache_ok cfg w" and d: "rest_fds s k \<inter> cfds c = {}"
    and basic: "(c_client c \<noteq> c_upstream c \<or> c_upstream c = -1) \<and> -1 \<le> c_client c \<and> -1 \<le> c_upstream c"
    using base by (auto simp: conn_base_def owned_def)
  have "held ((p_conns s)(k \<mapsto> c)) i = hold ?E (c_job c) i" for i
    by (rule held_upd) (use z in blast)
  then have h: "held ((p_conns s)(k \<mapsto> c)) = hold ?E (c_job c)" by blast
  have oth: "others_ok cfg ?s k" by (rule others_ok_step [OF ok step cc])
  have G: "p_other s \<union> p_accepted s \<union> conn_fds ((p_conns s)(k \<mapsto> c)) = rest_fds s k \<union> cfds c"
    by (simp add: rest_fds_def conn_fds_upd Un_assoc)
  have "cfds c \<inter> (p_other s \<union> p_accepted s) = {}" using d by (auto simp: rest_fds_def)
  moreover have "state_ok cfg c \<lparr>w_trace = w_trace w, w_res = w_res w, w_cache = None\<rparr>"
    using st state_ok_world [of "\<lparr>w_trace = w_trace w, w_res = w_res w, w_cache = None\<rparr>" w] by simp
  moreover have "cfds c \<inter> cfds c' = {} \<and> (c_job c = None \<or> c_job c \<noteq> c_job c')" if "k' \<noteq> k" "p_conns s k' = Some c'" for k' c'
  proof
    have "c' \<in> ran ((p_conns s)(k := None))" using that by (auto simp: ran_def)
    then show "cfds c \<inter> cfds c' = {}" using d by (auto simp: rest_fds_def conn_fds_def)
    show "c_job c = None \<or> c_job c \<noteq> c_job c'"
    proof (cases "c_job c")
      case (Some i)
      have "((p_conns s)(k := None)) k' = Some c'" using that by simp
      then have "c_job c' \<noteq> Some i" using z [OF Some] unfolding held_zero by blast
      then show ?thesis using Some by simp
    qed simp
  qed
  ultimately show ?thesis
    using oth own r h G basic unfolding proxy_inv_def others_ok_def
    by (simp add: all_conj_distrib) (metis Int_commute)
qed

lemma unfocus_gone:
  assumes ok: "others_ok cfg s k" and own: "owned cfg (rest_fds s k) (held ((p_conns s)(k := None))) None w"
    and step: "step_ok (rest_fds s k) (held ((p_conns s)(k := None))) (world_of s q) w"
  shows "proxy_inv cfg (set_world q w (s\<lparr>p_conns := (p_conns s)(k := None)\<rparr>))"
proof -
  have "others_ok cfg (set_world q w s) k"
    by (rule others_ok_step [OF ok step]) (use own in \<open>simp add: owned_def\<close>)
  then show ?thesis
    using own unfolding proxy_inv_def others_ok_def owned_def by (simp add: rest_fds_def)
qed

text \<open>Steps that change no connection.\<close>

lemma proxy_frame:
  assumes inv: "proxy_inv cfg s" and s': "p_conns s' = p_conns s" "p_caches s' = p_caches s"
    and own: "jobs_own (p_other s' \<union> p_accepted s' \<union> conn_fds (p_conns s)) (p_res s') (p_trace s')"
    and sets: "p_other s' \<inter> p_accepted s' = {}" "(p_other s' \<union> p_accepted s') \<inter> conn_fds (p_conns s) = {}"
    and acc: "\<forall>fd\<in>p_accepted s'. 0 \<le> fd \<and> sent_bytes fd (p_trace s') = [] \<and> received_bytes fd (p_trace s') = []"
    and r: "resolver_inv (held (p_conns s)) (p_res s') (p_trace s')" and sf: "suffix (p_trace s) (p_trace s')"
    and b: "bytes_kept (conn_fds (p_conns s)) (p_trace s) (p_trace s')" and j: "jobs_kept (held (p_conns s)) (p_res s) (p_res s')"
  shows "proxy_inv cfg s'"
proof -
  have c: "cfds c \<inter> (p_other s' \<union> p_accepted s') = {} \<and> (c_client c \<noteq> c_upstream c \<or> c_upstream c = -1) \<and>
      -1 \<le> c_client c \<and> -1 \<le> c_upstream c \<and> state_ok cfg c \<lparr>w_trace = p_trace s', w_res = p_res s', w_cache = None\<rparr>"
    if k: "p_conns s k = Some c" for k c
  proof -
    have sub: "cfds c \<subseteq> conn_fds (p_conns s)" using k by (auto simp: conn_fds_def ran_def)
    have old: "(c_client c \<noteq> c_upstream c \<or> c_upstream c = -1) \<and> -1 \<le> c_client c \<and> -1 \<le> c_upstream c \<and>
        state_ok cfg c \<lparr>w_trace = p_trace s, w_res = p_res s, w_cache = None\<rparr>"
      using inv k unfolding proxy_inv_def by blast
    have "state_ok cfg c \<lparr>w_trace = p_trace s', w_res = p_res s', w_cache = None\<rparr>"
    proof (rule state_ok_frame [of _ _ "\<lparr>w_trace = p_trace s, w_res = p_res s, w_cache = None\<rparr>"], simp_all add: sf)
      show "state_ok cfg c \<lparr>w_trace = p_trace s, w_res = p_res s, w_cache = None\<rparr>" using old by blast
      show "bytes_kept (cfds c) (p_trace s) (p_trace s')" by (rule bytes_kept_mono [OF b sub])
      fix i assume "c_job c = Some i"
      then have "held (p_conns s) i = 1" using k by (auto simp: held_def)
      then show "j_host (r_jobs (p_res s') ! i) = j_host (r_jobs (p_res s) ! i) \<and> j_port (r_jobs (p_res s') ! i) = j_port (r_jobs (p_res s) ! i) \<and>
          j_read_end (r_jobs (p_res s') ! i) = j_read_end (r_jobs (p_res s) ! i)" using j by (simp add: jobs_kept_def)
    qed
    with old sets(2) sub show ?thesis by blast
  qed
  have "cache_ok cfg \<lparr>w_trace = p_trace s', w_res = p_res s', w_cache = x\<rparr>" if "x \<in> set (p_caches s)" for x
    using inv that cache_ok_suffix [OF _ sf] unfolding proxy_inv_def by blast
  then show ?thesis using inv c own sets(1) acc r unfolding proxy_inv_def s' by blast
qed

lemma worker_step_grows:
  assumes "worker_step os k r t = Some (r', t')"
  shows "grows t t'"
  using assms
proof (cases rule: worker_step_cases)
  case lookup
  then show ?thesis by (intro grows_quiet)
next
  case store
  then show ?thesis by (intro grows_quiet)
next
  case signal
  then show ?thesis by (simp add: grows_Cons quiet_plain)
qed (simp_all add: release_job_grows)

lemmas worker_step_suffix = grows_suffix [OF worker_step_grows]

lemma nth_update_job:
  "r_jobs (update_job i f r) ! n = (if n = i \<and> i < length (r_jobs r) then f (r_jobs r ! i) else r_jobs r ! n)"
  by (cases "n = i"; cases "i < length (r_jobs r)") (simp_all add: update_job_def list_update_beyond not_less)

lemma worker_step_kept:
  assumes inv: "resolver_inv E r t" and step: "worker_step os k r t = Some (r', t')"
  shows "jobs_kept E r r'"
proof -
  have same: "jobs_kept E r (update_job i f r)"
    if "\<And>j. j_host (f j) = j_host j" "\<And>j. j_port (f j) = j_port j" "\<And>j. j_read_end (f j) = j_read_end j" for i f
    using that by (simp add: jobs_kept_def nth_update_job)
  have w: "jobs_kept E r (set_worker k x r'') = jobs_kept E r r''" for x r'' by (simp add: jobs_kept_def)
  have refs: "refs_ok E r" using inv by (simp add: resolver_inv_def)
  from step show ?thesis
  proof (cases rule: worker_step_cases)
    case (release i)
    have k: "k < length (r_workers r)" using worker_step_index [OF step] .
    note ex = refs_exclusive [OF refs k, of i]
    have "j_refs (r_jobs r ! i) = E i + 1" using refs ex release(1) by (simp add: refs_ok_def)
    then have "jobs_kept E r (fst (release_job i r t))"
    proof (cases "E i = 0")
      case False
      with \<open>j_refs (r_jobs r ! i) = E i + 1\<close> have "fst (release_job i r t) = update_job i (\<lambda>j. j\<lparr>j_refs := j_refs j - 1\<rparr>) r"
        by (simp add: release_job_def Let_def)
      then show ?thesis using same [of "\<lambda>j. j\<lparr>j_refs := j_refs j - 1\<rparr>" i] by simp
    qed (rule release_job_kept)
    then show ?thesis using release w by simp
  next
    case (store i ok r1)
    obtain x where "r1 = r\<lparr>r_cache := x\<rparr>" using store(4) by blast
    then have "jobs_kept E r r1" by (simp add: jobs_kept_def)
    then show ?thesis using store(2) w by simp
  qed (use w same in \<open>simp_all add: jobs_kept_def\<close>)
qed

lemma worker_step_frame:
  assumes inv: "resolver_inv E r t" and own: "jobs_own G r t" and step: "worker_step os k r t = Some (r', t')"
  shows "jobs_own G r' t'" and "untouched G t t'" and "resolver_inv E r' t'" and "jobs_kept E r r'" and "suffix t t'"
proof -
  have "w \<in> set (r_workers r) \<Longrightarrow> worker_job w = Some i \<Longrightarrow> i < length (r_jobs r)" for w i
    using inv claims_ids(2) unfolding resolver_inv_def by blast
  with worker_step_own [OF own _ step] show "jobs_own G r' t'" "untouched G t t'" by blast+
qed (use resolver_inv_worker_step [OF inv step] worker_step_kept [OF inv step] worker_step_suffix [OF step] in blast)+

lemma destroy_connection_effect:
  assumes base: "conn_base cfg F E c w"
  shows "owned cfg F E None (destroy_connection c w)" and "step_ok F E w (destroy_connection c w)"
proof -
  have "snd (finish c w) = destroy_connection c w" by (simp add: finish_def destroy_connection_def Let_def)
  with finish_good [OF base] have g: "conn_base cfg F E (fst (finish c w)) (destroy_connection c w)" "step_ok F E w (destroy_connection c w)"
    by (simp_all add: good_def)
  then show "step_ok F E w (destroy_connection c w)" by blast
  have "cfds (fst (finish c w)) = {}" "c_job (fst (finish c w)) = None" by (simp_all add: finish_def Let_def cfds_def)
  with g(1) show "owned cfg F E None (destroy_connection c w)" by (simp add: conn_base_def)
qed

lemma new_connection_effect:
  assumes own: "owned cfg G E None w" and fd: "fd \<in> G" "0 \<le> fd" and b: "sent_bytes fd (w_trace w) = []" "received_bytes fd (w_trace w) = []"
    and eq: "new_connection os fd cid w = (c, w')"
  shows "conn_base cfg (G - {fd}) E c w'" and "step_ok (G - {fd}) E w w'" and "state_ok cfg c w'"
proof -
  let ?t = "snd (set_nonblocking os fd (w_trace w))"
  have c: "c = init_connection fd cid" and w': "w' = w\<lparr>w_trace := ?t\<rparr>" using eq by (auto simp: new_connection_def)
  note q = set_nonblocking_quiet [of "w_trace w" os fd]
  note s = only_events_suffix [OF q] and e = only_events_quiet [OF q]
  have "cfds c = {fd}" using fd by (auto simp: c init_connection_def cfds_def)
  moreover have "G - {fd} \<union> {fd} = G" using fd by auto
  moreover have "owned cfg G E None w'" unfolding w' by (rule owned_trace [OF own e(1) s])
  ultimately show "conn_base cfg (G - {fd}) E c w'"
    using fd by (simp add: conn_base_def) (simp add: c init_connection_def)
  show "step_ok (G - {fd}) E w w'" unfolding w' by (rule step_ok_trace [OF e(2) grows_quiet [OF q]])
  have "parse_request [] init_request = Some (Incomplete, init_request)" by (simp add: parse_request_Incomplete_iff)
  then show "state_ok cfg c w'"
    using b fd untouched_bytes [OF e(2) [of UNIV], of fd] by (simp add: c w' state_ok_def Let_def init_connection_def idle_def)
qed

lemma jobs_own_exchange:
  assumes own: "jobs_own G r t" and D: "D \<subseteq> G" and N: "N \<inter> open_fds t = {}" and t': "open_fds t' = open_fds t - D \<union> N"
  shows "jobs_own (G - D \<union> N) r t'"
proof -
  have G: "\<forall>j\<in>set (r_jobs r). G \<inter> jfds j = {}" and o: "open_fds t = G \<union> \<Union> (jfds ` set (r_jobs r))"
    using own by (auto simp: jobs_own_def)
  have "\<forall>j\<in>set (r_jobs r). (G - D \<union> N) \<inter> jfds j = {}" using G N o by blast
  moreover have "open_fds t' = (G - D \<union> N) \<union> \<Union> (jfds ` set (r_jobs r))" unfolding t' o using G D by blast
  ultimately show ?thesis using own unfolding jobs_own_def by blast
qed

lemma proxy_inv_sets:
  assumes "proxy_inv cfg s"
  shows "(p_other s \<union> p_accepted s) \<inter> conn_fds (p_conns s) = {}"
proof -
  have "cfds c \<inter> (p_other s \<union> p_accepted s) = {}" if "p_conns s k = Some c" for k c
    using assms that unfolding proxy_inv_def by blast
  then show ?thesis by (auto simp: conn_fds_def ran_def)
qed

lemma proxy_inv_parts:
  assumes "proxy_inv cfg s"
  shows "jobs_own (p_other s \<union> p_accepted s \<union> conn_fds (p_conns s)) (p_res s) (p_trace s)"
    and "resolver_inv (held (p_conns s)) (p_res s) (p_trace s)" and "p_other s \<inter> p_accepted s = {}"
    and "fd \<in> p_accepted s \<Longrightarrow> 0 \<le> fd \<and> sent_bytes fd (p_trace s) = [] \<and> received_bytes fd (p_trace s) = []"
    and "p_other s \<union> p_accepted s \<union> conn_fds (p_conns s) \<subseteq> open_fds (p_trace s)"
  using assms by (auto simp: proxy_inv_def jobs_own_def)

lemma inv_other:
  assumes inv: "proxy_inv cfg s" and D: "D \<subseteq> p_other s" and N: "N \<inter> open_fds (p_trace s) = {}" and sf: "suffix (p_trace s) t'"
    and t': "open_fds t' = open_fds (p_trace s) - D \<union> N" and b: "bytes_kept (open_fds (p_trace s) - D) (p_trace s) t'"
  shows "proxy_inv cfg (s\<lparr>p_trace := t', p_other := p_other s - D \<union> N\<rparr>)"
proof -
  note p = proxy_inv_parts [OF inv] and d = proxy_inv_sets [OF inv]
  let ?G = "p_other s \<union> p_accepted s \<union> conn_fds (p_conns s)"
  have G: "?G - D \<union> N = p_other s - D \<union> N \<union> p_accepted s \<union> conn_fds (p_conns s)" using D p(3) d by blast
  have "jobs_own (?G - D \<union> N) (p_res s) t'" by (rule jobs_own_exchange [OF p(1) _ N t']) (use D in blast)
  moreover have "bytes_kept (conn_fds (p_conns s)) (p_trace s) t'" "bytes_kept (p_accepted s) (p_trace s) t'"
    by (rule bytes_kept_mono [OF b], use p(3,5) D d in blast)+
  moreover have "resolver_inv (held (p_conns s)) (p_res s) t'" by (rule resolver_inv_mono [OF p(2) suffix_set [OF sf]])
  ultimately show ?thesis
    using G p(3,4,5) N d D sf by (intro proxy_frame [OF inv]) (auto simp: bytes_kept_def jobs_kept_def)
qed

lemma inv_reclassify:
  assumes inv: "proxy_inv cfg s" and U: "p_other s' \<union> p_accepted s' = p_other s \<union> p_accepted s" and d: "p_other s' \<inter> p_accepted s' = {}"
    and acc: "\<forall>fd\<in>p_accepted s'. 0 \<le> fd \<and> sent_bytes fd (p_trace s) = [] \<and> received_bytes fd (p_trace s) = []"
    and s': "p_conns s' = p_conns s" "p_caches s' = p_caches s" "p_trace s' = p_trace s" "p_res s' = p_res s"
  shows "proxy_inv cfg s'"
proof (rule proxy_frame [OF inv s'(1,2) _ d])
  show "jobs_own (p_other s' \<union> p_accepted s' \<union> conn_fds (p_conns s)) (p_res s') (p_trace s')"
    unfolding U s' by (rule proxy_inv_parts(1) [OF inv])
  show "(p_other s' \<union> p_accepted s') \<inter> conn_fds (p_conns s) = {}" unfolding U by (rule proxy_inv_sets [OF inv])
  show "resolver_inv (held (p_conns s)) (p_res s') (p_trace s')" unfolding s' by (rule proxy_inv_parts(2) [OF inv])
qed (simp_all add: s' acc bytes_kept_def jobs_kept_def)

lemma accept_one_grows:
  assumes "finite_interrupts os" and "accept_one os l t = Some (x, t')"
  shows "grows t t'"
proof -
  obtain n r where "r = os_accept os (replicate n (EvAccept l (Inl EINTR)) @ t) l" and eq: "accept_one os l t = Some (case r of
          Inr fd \<Rightarrow> ((AcceptOk, fd), suppress_sigpipe os fd (EvAccept l r # replicate n (EvAccept l (Inl EINTR)) @ t))
        | Inl e \<Rightarrow> ((if e = EAGAIN then AcceptWouldBlock else if e = EMFILE \<or> e = ENFILE then OutOfFds else AcceptError, -1),
            EvAccept l r # replicate n (EvAccept l (Inl EINTR)) @ t))"
    by (rule accept_one_last [OF assms(1)])
  have "grows t (replicate n (EvAccept l (Inl EINTR)) @ t)" by (induction n) (simp_all add: grows_Cons)
  then have "grows t (EvAccept l r # replicate n (EvAccept l (Inl EINTR)) @ t)" by (simp add: grows_Cons)
  then show ?thesis using assms(2) eq grows_trans [OF _ grows_quiet [OF suppress_sigpipe_quiet]] by (cases r) auto
qed

lemmas accept_one_suffix = grows_suffix [OF accept_one_grows]

lemma inv_accept:
  assumes os: "finite_interrupts os" "fresh_descriptors os" and inv: "proxy_inv cfg s"
    and eq: "accept_one os l (p_trace s) = Some ((AcceptOk, fd), t')"
  shows "proxy_inv cfg (s\<lparr>p_trace := t', p_accepted := insert fd (p_accepted s)\<rparr>)"
proof -
  obtain st f t2 where e: "accept_one os l (p_trace s) = Some ((st, f), t2)" "untouched (open_fds (p_trace s)) (p_trace s) t2"
      "st = AcceptOk \<longrightarrow> 0 \<le> f \<and> f \<notin> open_fds (p_trace s) \<and> open_fds t2 = insert f (open_fds (p_trace s)) \<and>
        sent_bytes f t2 = [] \<and> received_bytes f t2 = []"
      "st \<noteq> AcceptOk \<longrightarrow> f = -1 \<and> open_fds t2 = open_fds (p_trace s)"
    by (rule accept_one_effect [OF os])
  then have u: "untouched (open_fds (p_trace s)) (p_trace s) t'" and fd: "0 \<le> fd" "fd \<notin> open_fds (p_trace s)"
      "open_fds t' = insert fd (open_fds (p_trace s))" "sent_bytes fd t' = []" "received_bytes fd t' = []"
    using eq by simp_all
  note p = proxy_inv_parts [OF inv] and b = bytes_kept_untouched [OF u]
  have inv1: "proxy_inv cfg (s\<lparr>p_trace := t', p_other := p_other s - {} \<union> {fd}\<rparr>)"
    by (rule inv_other [OF inv]) (use fd b accept_one_suffix [OF os(1) eq] in auto)
  have "sent_bytes x t' = [] \<and> received_bytes x t' = []" if "x \<in> p_accepted s" for x
    using p(4) [OF that] p(5) that b by (auto simp: bytes_kept_def)
  then show ?thesis
    using fd p(3,4,5) by (intro inv_reclassify [OF inv1]) auto
qed

lemma inv_drop:
  assumes inv: "proxy_inv cfg s" and fd: "fd \<in> p_accepted s"
  shows "proxy_inv cfg (s\<lparr>p_accepted := p_accepted s - {fd}, p_trace := fd_destroy fd (p_trace s)\<rparr>)"
proof -
  note p = proxy_inv_parts [OF inv]
  let ?s = "s\<lparr>p_other := insert fd (p_other s), p_accepted := p_accepted s - {fd}\<rparr>"
  have inv1: "proxy_inv cfg ?s" by (rule inv_reclassify [OF inv]) (use fd p(3,4) in auto)
  have e: "open_fds (fd_destroy fd (p_trace s)) = open_fds (p_trace s) - {fd}" "untouched (- {fd}) (p_trace s) (fd_destroy fd (p_trace s))"
    using fd_destroy_effect [of fd "p_trace s"] p(4) [OF fd] by (auto simp: Int_absorb2)
  have "proxy_inv cfg (?s\<lparr>p_trace := fd_destroy fd (p_trace s), p_other := p_other ?s - {fd} \<union> {}\<rparr>)"
    by (rule inv_other [OF inv1]) (use e bytes_kept_mono [OF bytes_kept_untouched [OF e(2)]] in auto)
  moreover have "insert fd (p_other s) - {fd} = p_other s" using fd p(3) by auto
  ultimately show ?thesis by simp
qed

lemma inv_admit:
  assumes inv: "proxy_inv cfg s" and fd: "fd \<in> p_accepted s" and k: "p_conns s k = None" and q: "q < length (p_caches s)"
    and eq: "new_connection os fd cid (world_of s q) = (c, w)"
  shows "proxy_inv cfg (set_world q w (s\<lparr>p_accepted := p_accepted s - {fd}, p_conns := (p_conns s)(k \<mapsto> c)\<rparr>))"
proof -
  note p = proxy_inv_parts [OF inv]
  let ?G = "p_other s \<union> p_accepted s \<union> conn_fds (p_conns s)" and ?s = "s\<lparr>p_accepted := p_accepted s - {fd}\<rparr>"
  have kk: "(p_conns s)(k := None) = p_conns s" using k by (simp add: fun_upd_idem)
  have "p_caches s ! q \<in> set (p_caches s)" using q by simp
  then have "cache_ok cfg (world_of s q)" using inv unfolding proxy_inv_def world_of_def by blast
  then have "owned cfg ?G (held (p_conns s)) None (world_of s q)" using p(1,2) by (simp add: owned_def)
  note n = new_connection_effect [OF this _ _ _ _ eq]
  have "rest_fds ?s k = ?G - {fd}" using fd p(3) proxy_inv_sets [OF inv] by (auto simp: rest_fds_def kk)
  moreover have "others_ok cfg ?s k" using others_ok_inv [OF inv, of k] unfolding others_ok_def by simp blast
  moreover have wo: "world_of ?s q = world_of s q" by (simp add: world_of_def)
  ultimately have "proxy_inv cfg (set_world q w (?s\<lparr>p_conns := (p_conns ?s)(k \<mapsto> c)\<rparr>))"
    using n fd p(4) [OF fd] by (intro unfocus) (simp_all add: kk wo)
  then show ?thesis by simp
qed

lemma inv_ready:
  assumes os: "fresh_descriptors os" "finite_interrupts os" "bounded_io os" and inv: "proxy_inv cfg s"
    and k: "p_conns s k = Some c" and q: "q < length (p_caches s)"
  obtains c' w where "on_ready os cfg c (world_of s q) = Some (c', w)"
    and "good cfg (rest_fds s k) (held ((p_conns s)(k := None))) (world_of s q) (c', w)"
    and "proxy_inv cfg (set_world q w (s\<lparr>p_conns := (p_conns s)(k \<mapsto> c')\<rparr>))"
proof -
  note f = focus [OF inv k q]
  from on_ready_good [OF os f] obtain x where x: "on_ready os cfg c (world_of s q) = Some x"
    "good cfg (rest_fds s k) (held ((p_conns s)(k := None))) (world_of s q) x" unfolding returns_good_def by (auto split: option.splits)
  then have "proxy_inv cfg (set_world q (snd x) (s\<lparr>p_conns := (p_conns s)(k \<mapsto> fst x)\<rparr>))"
    by (intro unfocus [OF others_ok_inv [OF inv]]) (auto simp: good_def)
  then show ?thesis using that [of "fst x" "snd x"] x by simp
qed

lemma inv_destroy:
  assumes inv: "proxy_inv cfg s" and k: "p_conns s k = Some c" and q: "q < length (p_caches s)"
  shows "proxy_inv cfg (set_world q (destroy_connection c (world_of s q)) (s\<lparr>p_conns := (p_conns s)(k := None)\<rparr>))"
  using destroy_connection_effect [OF focus(1) [OF inv k q]] by (intro unfocus_gone [OF others_ok_inv [OF inv]])

lemma inv_worker:
  assumes inv: "proxy_inv cfg s" and step: "worker_step os n (p_res s) (p_trace s) = Some (r, t)"
  shows "proxy_inv cfg (s\<lparr>p_res := r, p_trace := t\<rparr>)"
proof -
  note p = proxy_inv_parts [OF inv]
  note w = worker_step_frame [OF p(2,1) step]
  have "bytes_kept (p_accepted s) (p_trace s) t" "bytes_kept (conn_fds (p_conns s)) (p_trace s) t"
    using bytes_kept_mono [OF bytes_kept_untouched [OF w(2)]] by blast+
  then show ?thesis
    using w p(3,4) proxy_inv_sets [OF inv] by (intro proxy_frame [OF inv]) (auto simp: bytes_kept_def)
qed

lemma inv_shutdown:
  assumes inv: "proxy_inv cfg s"
  shows "proxy_inv cfg (s\<lparr>p_res := close_resolver (p_res s)\<rparr>)"
proof -
  note p = proxy_inv_parts [OF inv]
  have "resolver_inv (held (p_conns s)) (close_resolver (p_res s)) (p_trace s)"
    using p(2) by (simp add: resolver_inv_def close_resolver_def ports_ok_def)
  then show ?thesis
    using p proxy_inv_sets [OF inv]
    by (intro proxy_frame [OF inv]) (auto simp: bytes_kept_def jobs_kept_def close_resolver_def)
qed

lemma held_empty [simp]: "held Map.empty = (\<lambda>_. 0)"
  by (simp add: held_def fun_eq_iff)

lemma inv_init:
  assumes "set caches \<subseteq> {None, Some (make_cache cfg)}"
  shows "proxy_inv cfg \<lparr>p_conns = Map.empty, p_accepted = {}, p_other = open_fds t, p_trace = t,
      p_res = new_resolver n ttl delay, p_caches = caches\<rparr>"
proof -
  have "cache_ok cfg \<lparr>w_trace = t, w_res = r, w_cache = x\<rparr>" if "x \<in> set caches" for x r
    using assms that lru_inv_make_cache [of cfg] entries_of_make_cache [of cfg] by (auto simp: cache_ok_def)
  then show ?thesis
    using jobs_own_new resolver_inv_new by (simp add: proxy_inv_def conn_fds_def)
qed

lemma proxy_run_inv:
  assumes os: "fresh_descriptors os" "finite_interrupts os" "bounded_io os"
  shows "proxy_run os cfg s \<Longrightarrow> proxy_inv cfg s"
proof (induction rule: proxy_run.induct)
  case (run_init caches t n ttl delay)
  then show ?case by (rule inv_init)
next
  case (run_accept s l fd t')
  then show ?case by (intro inv_accept [OF os(2,1)])
next
  case (run_other s D N t')
  then show ?case by (intro inv_other)
next
  case (run_admit s fd k q cid c w)
  then show ?case by (intro inv_admit)
next
  case (run_drop s fd)
  then show ?case by (intro inv_drop)
next
  case (run_ready s k c q c' w)
  show ?case by (rule inv_ready [OF os run_ready.IH run_ready(2,3)]) (use run_ready(4) in simp)
next
  case (run_destroy s k c q)
  then show ?case by (intro inv_destroy)
next
  case (run_worker s n r t)
  then show ?case by (intro inv_worker)
next
  case (run_shutdown s)
  then show ?case by (intro inv_shutdown)
qed



section \<open>Consequences for the backends\<close>

definition resolver_idle :: "resolver \<Rightarrow> bool" where
  "resolver_idle r \<longleftrightarrow> r_queue r = [] \<and> set (r_workers r) \<subseteq> {WWait, WExited}"

lemma all_closed:
  assumes inv: "proxy_inv cfg s" and fin: "\<forall>c\<in>ran (p_conns s). conn_done c" and idle: "resolver_idle (p_res s)"
  shows "open_fds (p_trace s) = p_other s \<union> p_accepted s"
proof -
  have st: "state_ok cfg c \<lparr>w_trace = p_trace s, w_res = p_res s, w_cache = None\<rparr>" if "p_conns s k = Some c" for k c
    using inv that unfolding proxy_inv_def by blast
  have d: "cfds c = {} \<and> c_job c = None" if "p_conns s k = Some c" for k c
    using st [OF that] fin ranI [of "p_conns s", OF that] by (auto simp: state_ok_def Let_def conn_done_def cfds_def)
  then have "conn_fds (p_conns s) = {}" and h: "held (p_conns s) = (\<lambda>_. 0)"
    by (auto simp: conn_fds_def ran_def held_def fun_eq_iff)
  moreover have "jfds j = {}" if j: "j \<in> set (r_jobs (p_res s))" for j
  proof -
    obtain i where i: "i < length (r_jobs (p_res s))" "j = r_jobs (p_res s) ! i" using j unfolding in_set_conv_nth by blast
    have "worker_job w = None" if "w \<in> set (r_workers (p_res s))" for w
      using idle that by (auto simp: resolver_idle_def dest: subsetD)
    then have "claims (p_res s) i = 0" using idle by (simp add: claims_def holders_def filter_empty_conv resolver_idle_def)
    then show ?thesis using proxy_inv_parts(2) [OF inv] i h by (simp add: resolver_inv_def refs_ok_def)
  qed
  ultimately show ?thesis using proxy_inv_parts(1) [OF inv] by (simp add: jobs_own_def)
qed

lemma conn_state_ok: "proxy_inv cfg s \<Longrightarrow> p_conns s k = Some c \<Longrightarrow> state_ok cfg c (world_of s q)"
  unfolding proxy_inv_def using state_ok_world [of "world_of s q" "\<lparr>w_trace = p_trace s, w_res = p_res s, w_cache = None\<rparr>"] by simp

text \<open>A connection waits on a socket of its own or on the pipe of its job.\<close>

lemma wait_cases:
  assumes inv: "proxy_inv cfg s" and k: "p_conns s k = Some c" and nd: "\<not> conn_done c"
  obtains (socket) "want_fd c (world_of s q) \<in> cfds c" "c_want c \<noteq> ReadResolver"
  | (pipe) i where "c_job c = Some i" "c_want c = ReadResolver" "want_fd c (world_of s q) = j_read_end (r_jobs (p_res s) ! i)"
      "0 \<le> j_read_end (r_jobs (p_res s) ! i)"
proof -
  note st = conn_state_ok [OF inv k, of q]
  show ?thesis
  proof (cases "c_state c = Resolving")
    case False
    then have "want_fd c (world_of s q) \<in> cfds c" "c_want c \<noteq> ReadResolver"
      using st nd by (cases "c_state c"; auto simp: state_ok_def Let_def want_fd_def cfds_def conn_done_def)+
    then show ?thesis by (rule socket)
  next
    case True
    then obtain i where "c_job c = Some i" "c_want c = ReadResolver" "0 \<le> j_read_end (r_jobs (p_res s) ! i)"
      using st by (auto simp: state_ok_def Let_def)
    then show ?thesis using pipe [of i] by (simp add: want_fd_def)
  qed
qed

lemma wait_open:
  assumes inv: "proxy_inv cfg s" and k: "p_conns s k = Some c" and nd: "\<not> conn_done c"
  shows "0 \<le> want_fd c (world_of s q)" and "want_fd c (world_of s q) \<in> open_fds (p_trace s)"
proof -
  have "cfds c \<subseteq> conn_fds (p_conns s)" unfolding conn_fds_def using ranI [of "p_conns s", OF k] by blast
  then have sub: "cfds c \<subseteq> open_fds (p_trace s)" using proxy_inv_parts(5) [OF inv] by blast
  have "0 \<le> want_fd c (world_of s q) \<and> want_fd c (world_of s q) \<in> open_fds (p_trace s)"
    using inv k nd
  proof (cases rule: wait_cases [where q = q])
    case socket
    then show ?thesis using sub by (auto simp: cfds_def)
  next
    case (pipe i)
    have "held (p_conns s) i = 1" using pipe(1) k by (auto simp: held_def)
    then have "i < length (r_jobs (p_res s))" by (rule resolver_inv_ids [OF proxy_inv_parts(2) [OF inv]])
    then have "jfds (r_jobs (p_res s) ! i) \<subseteq> open_fds (p_trace s)"
      using proxy_inv_parts(1) [OF inv] by (auto simp: jobs_own_def)
    then show ?thesis using pipe by (simp add: jfds_def)
  qed
  then show "0 \<le> want_fd c (world_of s q)" "want_fd c (world_of s q) \<in> open_fds (p_trace s)" by blast+
qed

end
