(* ===== verification/Proxy_Properties.thy ===== *)
theory Proxy_Properties
  imports Proxy
begin

text \<open>
  What the connection machine promises, in every reachable state of the process: each call returns,
  bytes are relayed exactly, a reply is never mixed with an error page, the cache only holds and
  serves complete responses of the right origin, a changed wait always changes the epoch, no
  descriptor leaks, and a connection whose peers make progress comes to an end.
\<close>

section \<open>A driven connection\<close>

fun conn_steps :: "os \<Rightarrow> config \<Rightarrow> nat \<Rightarrow> connection \<Rightarrow> world \<Rightarrow> (connection \<times> world) option" where
  "conn_steps os cfg 0 c w = Some (c, w)"
| "conn_steps os cfg (Suc n) c w = do { (c1, w1) \<leftarrow> on_ready os cfg c w; conn_steps os cfg n c1 w1 }"

lemma run_conn_steps:
  assumes "proxy_run os cfg s" and "p_conns s k = Some c" and "q < length (p_caches s)"
    and "conn_steps os cfg n c (world_of s q) = Some (c', w)"
  shows "proxy_run os cfg (set_world q w (s\<lparr>p_conns := (p_conns s)(k \<mapsto> c')\<rparr>))"
  using assms
proof (induction n arbitrary: s c)
  case 0
  then have "c' = c" "w = world_of s q" by simp_all
  moreover have "set_world q (world_of s q) (s\<lparr>p_conns := (p_conns s)(k \<mapsto> c)\<rparr>) = s"
    using 0(2) by (simp add: set_world_def fun_upd_idem)
  ultimately show ?case using 0(1) by (simp add: fun_upd_def)
next
  case (Suc n)
  from Suc.prems(4) obtain c1 w1 where 1: "on_ready os cfg c (world_of s q) = Some (c1, w1)"
    and 2: "conn_steps os cfg n c1 w1 = Some (c', w)" by (auto split: bind_splits)
  let ?s = "set_world q w1 (s\<lparr>p_conns := (p_conns s)(k \<mapsto> c1)\<rparr>)"
  have w1: "world_of ?s q = w1" using Suc.prems(3) by (simp add: world_of_def)
  have "proxy_run os cfg (set_world q w (?s\<lparr>p_conns := (p_conns ?s)(k \<mapsto> c')\<rparr>))"
    by (rule Suc.IH [OF run_ready [OF Suc.prems(1,2,3) 1]]) (use Suc.prems(3) 2 in \<open>simp_all add: w1\<close>)
  moreover have "set_world q w (?s\<lparr>p_conns := (p_conns ?s)(k \<mapsto> c')\<rparr>) = set_world q w (s\<lparr>p_conns := (p_conns s)(k \<mapsto> c')\<rparr>)"
    by (simp add: set_world_def)
  ultimately show ?case by (simp only:)
qed


section \<open>An exchange to look at\<close>

definition plain_request :: string where
  "plain_request = ''GET http://h/p HTTP/1.1'' @ crlfcrlf"

definition plain_parsed :: request where
  "plain_parsed =
     \<lparr>rq_method = ''GET'', rq_host = ''h'', rq_port = ''80'', rq_path = ''/p'', rq_version = ''HTTP/1.1'',
      rq_headers = [], rq_content_length = 0, rq_header_bytes = 27\<rparr>"

lemma parse_plain: "parse_request plain_request init_request = Some (Ok, plain_parsed)"
  unfolding plain_request_def plain_parsed_def by code_simp

definition plain_response :: string where
  "plain_response = ''HTTP/1.1 200 OK'' @ crlfcrlf @ ''hi''"

definition demo_script :: "fd \<Rightarrow> string" where
  "demo_script fd = (if fd = 3 \<or> fd = 5 then plain_request else if fd = 4 then plain_response else [])"

abbreviation demo_cfg :: config where
  "demo_cfg \<equiv> default_config\<lparr>async_resolve := False, cache_enabled := False\<rparr>"

abbreviation demo_kernel :: os where
  "demo_kernel \<equiv> demo_os demo_script"

definition demo_world :: "lru option \<Rightarrow> world" where
  "demo_world cache =
     \<lparr>w_trace = [EvFcntlSetFl 3 4 None, EvFcntlGetFl 3 (Inr 0), EvSetsockopt 3 SO_NOSIGPIPE None, EvAccept 9 (Inr 3)],
      w_res = new_resolver 0 60 0, w_cache = cache\<rparr>"

definition demo_state :: "connection \<Rightarrow> world \<Rightarrow> nat proxy" where
  "demo_state c w =
     \<lparr>p_conns = [0 \<mapsto> c], p_accepted = {}, p_other = {}, p_trace = w_trace w, p_res = w_res w, p_caches = [w_cache w]\<rparr>"

lemma demo_state_fields [simp]:
  "p_conns (demo_state c w) 0 = Some c" "world_of (demo_state c w) 0 = w" "length (p_caches (demo_state c w)) = 1"
  "p_trace (demo_state c w) = w_trace w"
  by (simp_all add: demo_state_def world_of_def)

lemma demo_admitted_pool:
  assumes "cache \<in> {None, Some (make_cache cfg)}"
  shows "proxy_run demo_kernel cfg (demo_state (init_connection 3 0) ((demo_world cache)\<lparr>w_res := new_resolver n 60 0\<rparr>))"
proof -
  let ?i = "\<lparr>p_conns = (Map.empty :: nat \<rightharpoonup> connection), p_accepted = {}, p_other = open_fds [], p_trace = [],
      p_res = new_resolver n 60 0, p_caches = [cache]\<rparr>"
  let ?w = "(demo_world cache)\<lparr>w_res := new_resolver n 60 0\<rparr>"
  let ?t = "[EvSetsockopt 3 SO_NOSIGPIPE None, EvAccept 9 (Inr 3)]"
  let ?s = "?i\<lparr>p_trace := ?t, p_accepted := insert 3 (p_accepted ?i)\<rparr>"
  have "proxy_run demo_kernel cfg ?i" by (rule run_init) (use assms in simp)
  moreover have "accept_one demo_kernel 9 (p_trace ?i) = Some ((AcceptOk, 3), ?t)" by (simp add: demo_accept)
  ultimately have "proxy_run demo_kernel cfg ?s" by (rule run_accept)
  moreover have "new_connection demo_kernel 3 0 (world_of ?s 0) = (init_connection 3 0, ?w)"
    by (simp add: new_connection_def world_of_def demo_world_def set_nonblocking_def demo_os_fields) (simp add: demo_os_def)
  ultimately have "proxy_run demo_kernel cfg
      (set_world 0 ?w (?s\<lparr>p_accepted := p_accepted ?s - {3}, p_conns := (p_conns ?s)(0 \<mapsto> init_connection 3 0)\<rparr>))"
    by (intro run_admit [where cid = 0]) simp_all
  then show ?thesis by (simp add: set_world_def demo_state_def)
qed

lemma demo_admitted:
  assumes "cache \<in> {None, Some (make_cache cfg)}"
  shows "proxy_run demo_kernel cfg (demo_state (init_connection 3 0) (demo_world cache))"
  using demo_admitted_pool [OF assms, of 0] by (simp add: demo_world_def)

lemma demo_reached:
  assumes "conn_steps demo_kernel cfg n (init_connection 3 0) (demo_world cache) = Some (c, w)" and "cache \<in> {None, Some (make_cache cfg)}"
  shows "proxy_run demo_kernel cfg (demo_state c w)"
proof -
  let ?s = "demo_state (init_connection 3 0) (demo_world cache)"
  have "proxy_run demo_kernel cfg (set_world 0 w (?s\<lparr>p_conns := (p_conns ?s)(0 \<mapsto> c)\<rparr>))"
    by (rule run_conn_steps [OF demo_admitted [OF assms(2)]]) (use assms in simp_all)
  then show ?thesis by (simp add: demo_state_def set_world_def)
qed

lemma demo_reached_uncached:
  "conn_steps demo_kernel demo_cfg n (init_connection 3 0) (demo_world None) = Some (c, w) \<Longrightarrow> proxy_run demo_kernel demo_cfg (demo_state c w)"
  using demo_reached [of demo_cfg n None c w] by blast

lemma plain_lengths: "length plain_request = 27" "length plain_response = 21" "plain_request \<noteq> []" "plain_response \<noteq> []"
    "substr plain_request 27 0 = Some []"
  by (simp_all add: plain_request_def plain_response_def substr_def)

lemmas demo_defs =
  on_ready_def init_connection_def do_read_client_def demo_calls demo_world_def io_chunk_def default_config_def
  demo_script_def plain_lengths Let_def request_complete_def plain_parsed_def cacheable_request_def header_value_def
  make_cache_def new_cache_def lru_get_def begin_resolve_def resolve_blocking_def cache_get_def new_resolver_def do_lookup_def
  resolve_def cache_put_def begin_connect.simps start_connect_def suppress_sigpipe_def set_nonblocking_def fd_reset_def
  endpoint_of_def finish_connect_def connect_succeeded_def do_write_upstream_def do_read_upstream_def do_write_client_def
  set_want_def accumulate_def fd_destroy_def fail_with_def

lemma demo_connecting:
  obtains c w where "conn_steps demo_kernel demo_cfg (Suc 0) (init_connection 3 0) (demo_world None) = Some (c, w)"
    and "c_state c = Connecting" and "c_upstream c = 4"
  using parse_plain by (simp add: demo_defs)

lemma demo_relaying:
  obtains c w where "conn_steps demo_kernel demo_cfg (Suc (Suc (Suc 0))) (init_connection 3 0) (demo_world None) = Some (c, w)"
    and "c_state c = Relaying" and "c_want c = ReadUpstream" and "c_client c = 3" and "c_upstream c = 4"
  using parse_plain by (simp add: demo_defs)

lemma demo_relayed:
  obtains c w where "conn_steps demo_kernel demo_cfg (Suc (Suc (Suc (Suc (Suc 0))))) (init_connection 3 0) (demo_world None) = Some (c, w)"
    and "c_state c = Relaying" and "c_want c = ReadUpstream" and "c_client c = 3" and "c_upstream c = 4"
    and "sent_bytes 3 (w_trace w) = plain_response" and "received_bytes 4 (w_trace w) = plain_response"
  using parse_plain by (simp add: demo_defs)


section \<open>Safety of every call\<close>

text \<open>
  C8. In every reachable state of the process, with connections and resolver threads interleaved in
  any order, \<^verbatim>\<open>on_ready\<close> on any connection returns: no string operation throws, no null job is
  dereferenced, no system call is retried for ever. And it moves no byte on a descriptor of any
  other connection.
\<close>

theorem on_ready_returns:
  assumes "fresh_descriptors os" and "finite_interrupts os" and "bounded_io os"
    and "proxy_run os cfg s" and "p_conns s k = Some c" and "q < length (p_caches s)"
  shows "\<exists>c' w. on_ready os cfg c (world_of s q) = Some (c', w) \<and>
    (\<forall>k1 c1. k1 \<noteq> k \<longrightarrow> p_conns s k1 = Some c1 \<longrightarrow> bytes_kept (cfds c1) (p_trace s) (w_trace w))"
proof -
  obtain c' w where r: "on_ready os cfg c (world_of s q) = Some (c', w)"
    "good cfg (rest_fds s k) (held ((p_conns s)(k := None))) (world_of s q) (c', w)"
    by (rule inv_ready [OF assms(1-3) proxy_run_inv [OF assms(1-4)] assms(5,6)])
  have "step_ok (rest_fds s k) (held ((p_conns s)(k := None))) (world_of s q) w" using r(2) by (simp add: good_def)
  from step_ok_untouched [OF this] have u: "untouched (rest_fds s k) (p_trace s) (w_trace w)" by simp
  have "bytes_kept (cfds c1) (p_trace s) (w_trace w)" if "k1 \<noteq> k" "p_conns s k1 = Some c1" for k1 c1
  proof (rule bytes_kept_mono [OF bytes_kept_untouched [OF u]])
    have "c1 \<in> ran ((p_conns s)(k := None))" using that by (auto simp: ran_def)
    then show "cfds c1 \<subseteq> rest_fds s k" by (auto simp: rest_fds_def conn_fds_def)
  qed
  with r(1) show ?thesis by blast
qed

theorem on_ready_returns_witness:
  "\<exists>c' w. on_ready demo_kernel demo_cfg (init_connection 3 0) (demo_world None) = Some (c', w)"
  using on_ready_returns [OF demo_os_hypotheses(1,3,2) demo_admitted [of None demo_cfg], of 0 "init_connection 3 0" 0] by auto

text \<open>
  C5. When every connection is done and the resolver is idle, the only open descriptors are the
  backend's own and the accepted ones it has not handed to a connection yet: sockets and wakeup pipes
  of finished connections are all closed.
\<close>

theorem proxy_leaks_nothing:
  assumes "fresh_descriptors os" and "finite_interrupts os" and "bounded_io os" and "proxy_run os cfg s"
    and "\<forall>c\<in>ran (p_conns s). conn_done c" and "r_queue (p_res s) = []" and "set (r_workers (p_res s)) \<subseteq> {WWait, WExited}"
  shows "open_fds (p_trace s) = p_other s \<union> p_accepted s"
  using all_closed [OF proxy_run_inv [OF assms(1-4)] assms(5)] assms(6,7) by (simp add: resolver_idle_def)

theorem proxy_leaks_nothing_witness:
  "\<exists>s :: nat proxy. proxy_run demo_kernel demo_cfg s \<and> p_conns s \<noteq> Map.empty \<and> open_fds (p_trace s) = {}"
proof -
  obtain c w where r: "conn_steps demo_kernel demo_cfg (Suc (Suc (Suc (Suc (Suc (Suc 0)))))) (init_connection 3 0) (demo_world None) = Some (c, w)"
      "c_state c = Done" "r_queue (w_res w) = []" "r_workers (w_res w) = []"
    using parse_plain by (simp add: demo_defs store_in_cache_def finish_def drop_job_def release_opt_def)
  have "open_fds (w_trace w) = {}"
    using proxy_leaks_nothing [OF demo_os_hypotheses(1,3,2) demo_reached_uncached [OF r(1)]] r(2-4)
    by (simp add: demo_state_def conn_done_def)
  then show ?thesis using demo_reached_uncached [OF r(1)] by (intro exI [of _ "demo_state c w"]) (simp add: demo_state_def)
qed


section \<open>Bytes\<close>

lemma reachable_conn:
  assumes "fresh_descriptors os" "finite_interrupts os" "bounded_io os" "proxy_run os cfg s" "p_conns s k = Some c"
  shows "state_ok cfg c \<lparr>w_trace = p_trace s, w_res = p_res s, w_cache = None\<rparr>"
  using proxy_run_inv [OF assms(1-4)] assms(5) unfolding proxy_inv_def by blast

lemma request_body_complete:
  assumes "request_read cfg c t" and "length (c_in_client c) + max_body_bytes cfg < 2 ^ 64"
  shows "length (request_body c) = rq_content_length (c_req c)"
    and "c_in_client c = take (rq_header_bytes (c_req c)) (c_in_client c) @ request_body c @
      drop (rq_header_bytes (c_req c) + rq_content_length (c_req c)) (c_in_client c)"
proof -
  let ?h = "rq_header_bytes (c_req c)" and ?n = "rq_content_length (c_req c)" and ?in = "c_in_client c"
  have "?h \<le> length ?in" using parse_request_Ok_facts [of ?in "c_req c"] assms(1) by (simp add: request_read_def)
  moreover have "?n \<le> max_body_bytes cfg" "(?h + ?n) mod 2 ^ 64 \<le> length ?in" using assms(1) by (auto simp: request_read_def)
  ultimately have "?h + ?n \<le> length ?in" using assms(2) by (simp add: mod_less)
  then show "length (request_body c) = ?n" by (simp add: request_body_def)
  show "?in = take ?h ?in @ request_body c @ drop (?h + ?n) ?in"
    by (metis append_take_drop_id drop_drop add.commute request_body_def)
qed

text \<open>
  C2. The origin is sent the rebuilt form of the client's own request and nothing else: a prefix of
  it while the request goes out, all of it once the response is being relayed. The body is the
  \<^verbatim>\<open>Content-Length\<close> bytes that follow the head in what the client sent.
\<close>

theorem upstream_gets_rebuilt_request:
  assumes "fresh_descriptors os" and "finite_interrupts os" and "bounded_io os"
    and "proxy_run os cfg s" and "p_conns s k = Some c" and "c_state c \<in> {SendingUpstream, Relaying}"
    and "length (received_bytes (c_client c) (p_trace s)) + max_body_bytes cfg < 2 ^ 64"
  shows "\<exists>req body rest. parse_request (received_bytes (c_client c) (p_trace s)) init_request = Some (Ok, req) \<and>
    received_bytes (c_client c) (p_trace s) =
      take (rq_header_bytes req) (received_bytes (c_client c) (p_trace s)) @ body @ rest \<and>
    length body = rq_content_length req \<and>
    prefix (sent_bytes (c_upstream c) (p_trace s)) (build_upstream_request req body) \<and>
    (c_state c = Relaying \<longrightarrow> sent_bytes (c_upstream c) (p_trace s) = build_upstream_request req body)"
proof -
  note st = reachable_conn [OF assms(1-5)]
  have rd: "request_read cfg c (p_trace s)" using st assms(6) by (auto simp: state_ok_def Let_def)
  have recv: "received_bytes (c_client c) (p_trace s) = c_in_client c" using rd by (simp add: request_read_def)
  have "prefix (sent_bytes (c_upstream c) (p_trace s)) (request_text c)"
    "c_state c = Relaying \<longrightarrow> sent_bytes (c_upstream c) (p_trace s) = request_text c"
    using st assms(6) by (auto simp: state_ok_def Let_def take_is_prefix)
  moreover have "parse_request (c_in_client c) init_request = Some (Ok, c_req c)" using rd by (simp add: request_read_def)
  moreover note request_body_complete [OF rd assms(7) [unfolded recv]]
  ultimately show ?thesis unfolding recv request_text_def by blast
qed

theorem upstream_gets_rebuilt_request_witness:
  "\<exists>s :: nat proxy. proxy_run demo_kernel demo_cfg s \<and>
     prefix (sent_bytes 4 (p_trace s)) (build_upstream_request plain_parsed []) \<and> sent_bytes 4 (p_trace s) \<noteq> []"
proof -
  obtain c w where r: "conn_steps demo_kernel demo_cfg (Suc (Suc (Suc 0))) (init_connection 3 0) (demo_world None) = Some (c, w)"
    "c_state c = Relaying" "c_client c = 3" "c_upstream c = 4" "received_bytes 3 (w_trace w) = plain_request" "sent_bytes 4 (w_trace w) \<noteq> []"
    using parse_plain by (simp add: demo_defs build_upstream_request_def)
  note run = demo_reached_uncached [OF r(1)]
  have "prefix (sent_bytes 4 (w_trace w)) (build_upstream_request plain_parsed [])"
    using upstream_gets_rebuilt_request [OF demo_os_hypotheses(1,3,2) run, of 0 c] r parse_plain
    by (auto simp: demo_state_def default_config_def plain_lengths plain_parsed_def)
  then show ?thesis using run r(6) by (intro exI [of _ "demo_state c w"]) (simp add: demo_state_def)
qed

text \<open>
  C1. While a response is relayed, what the client has been sent, followed by what is still
  buffered for it, is exactly what the origin has sent, byte for byte and in order.
\<close>

theorem relay_is_exact:
  assumes "fresh_descriptors os" and "finite_interrupts os" and "bounded_io os"
    and "proxy_run os cfg s" and "p_conns s k = Some c" and "c_state c = Relaying"
  shows "sent_bytes (c_client c) (p_trace s) @ drop (c_out_client_off c) (c_out_client c) =
    received_bytes (c_upstream c) (p_trace s)"
  using reachable_conn [OF assms(1-5)] assms(6) by (auto simp: state_ok_def Let_def)

theorem relay_is_exact_witness:
  "\<exists>s :: nat proxy. proxy_run demo_kernel demo_cfg s \<and> sent_bytes 3 (p_trace s) = received_bytes 4 (p_trace s) \<and>
     received_bytes 4 (p_trace s) = plain_response"
proof -
  obtain c w where r: "conn_steps demo_kernel demo_cfg (Suc (Suc (Suc (Suc (Suc 0))))) (init_connection 3 0) (demo_world None) = Some (c, w)"
    "c_state c = Relaying" "c_client c = 3" "c_upstream c = 4" "received_bytes 4 (w_trace w) = plain_response" "c_out_client c = []"
    using parse_plain by (simp add: demo_defs)
  note run = demo_reached_uncached [OF r(1)]
  have "sent_bytes 3 (w_trace w) = received_bytes 4 (w_trace w)"
    using relay_is_exact [OF demo_os_hypotheses(1,3,2) run, of 0 c] r by (simp add: demo_state_def)
  then show ?thesis using run r(5) by (intro exI [of _ "demo_state c w"]) (simp add: demo_state_def)
qed

lemma bytes_fd_destroy [simp]:
  "sent_bytes fd (fd_destroy x t) = sent_bytes fd t" "received_bytes fd (fd_destroy x t) = received_bytes fd t"
  by (simp_all add: fd_destroy_def fd_reset_def)

lemma finish_bytes:
  assumes "c_job c = None"
  shows "sent_bytes fd (w_trace (snd (finish c w))) = sent_bytes fd (w_trace w)"
    "received_bytes fd (w_trace (snd (finish c w))) = received_bytes fd (w_trace w)"
  using assms by (simp_all add: finish_def Let_def drop_job_def release_opt_def)

lemma store_in_cache_trace: "store_in_cache c w = Some w' \<Longrightarrow> w_trace w' = w_trace w \<and> w_res w' = w_res w"
  by (auto simp: store_in_cache_def split: option.splits if_splits bind_splits)

text \<open>
  C6. When a relayed exchange ends because the origin closed its side or failed, the client has
  been sent every byte the origin sent.
\<close>

theorem relay_ends_complete:
  assumes "fresh_descriptors os" and "finite_interrupts os" and "bounded_io os"
    and "proxy_run os cfg s" and "p_conns s k = Some c" and "q < length (p_caches s)"
    and "c_state c = Relaying" and "c_want c = ReadUpstream"
    and "on_ready os cfg c (world_of s q) = Some (c', w)" and "conn_done c'"
  shows "sent_bytes (c_client c) (w_trace w) = received_bytes (c_upstream c) (w_trace w)"
proof -
  note inv = proxy_run_inv [OF assms(1-4)]
  note f = focus [OF inv assms(5,6)]
  have s: "0 \<le> c_upstream c" "c_job c = None" "sent_bytes (c_client c) (p_trace s) = received_bytes (c_upstream c) (p_trace s)"
    "c_out_client c = []" "c_out_client_off c = 0"
    using f(2) assms(7,8) by (auto simp: state_ok_def Let_def)
  have "c_upstream c \<in> cfds c" using s(1) by (simp add: cfds_def)
  from read_step [OF assms(2,3) f(1) this, of "io_chunk cfg"]
  obtain io bs t1 where r: "read_some os (c_upstream c) (io_chunk cfg) (p_trace s) = Some ((io, bs), t1)"
    and sent: "\<forall>fd'. sent_bytes fd' t1 = sent_bytes fd' (p_trace s)"
    and recv: "\<forall>fd'. received_bytes fd' t1 = received_bytes fd' (p_trace s) @ (if fd' = c_upstream c then bs else [])"
    and io: "io = IoOk \<longleftrightarrow> bs \<noteq> []" unfolding world_of_fields by metis
  have eq: "do_read_upstream os cfg c (world_of s q) = Some (c', w)" using assms(8,9) by (simp add: on_ready_def)
  have "io \<noteq> IoOk" "io \<noteq> IoWouldBlock" using eq r assms(7,10) by (auto simp: do_read_upstream_def Let_def conn_done_def)
  then consider "io = IoError" "finish c ((world_of s q)\<lparr>w_trace := t1\<rparr>) = (c', w)"
    | w3 where "io = IoClosed" "finish (c\<lparr>c_upstream_eof := True, c_upstream := -1\<rparr>) w3 = (c', w)" "w_trace w3 = fd_destroy (c_upstream c) t1"
    using eq r s(4,5) by (cases io) (auto simp: do_read_upstream_def Let_def split: bind_splits dest!: store_in_cache_trace)
  then show ?thesis
  proof cases
    case 1
    then have "w = snd (finish c ((world_of s q)\<lparr>w_trace := t1\<rparr>))" by (metis snd_conv)
    then show ?thesis using s(2,3) sent recv io 1(1) by (simp add: finish_bytes)
  next
    case (2 w3)
    then have "w = snd (finish (c\<lparr>c_upstream_eof := True, c_upstream := -1\<rparr>) w3)" by (metis snd_conv)
    then show ?thesis using s(2,3) sent recv io 2(1,3) by (simp add: finish_bytes)
  qed
qed

theorem relay_ends_complete_witness:
  "\<exists>c c' w w'. c_state c = Relaying \<and> on_ready demo_kernel demo_cfg c w = Some (c', w') \<and> conn_done c' \<and>
     sent_bytes 3 (w_trace w') = received_bytes 4 (w_trace w')"
proof -
  obtain c w c' w' where r: "conn_steps demo_kernel demo_cfg (Suc (Suc (Suc (Suc (Suc 0))))) (init_connection 3 0) (demo_world None) = Some (c, w)"
    "c_state c = Relaying" "c_want c = ReadUpstream" "c_client c = 3" "c_upstream c = 4"
    "on_ready demo_kernel demo_cfg c w = Some (c', w')" "c_state c' = Done"
    using parse_plain by (simp add: demo_defs store_in_cache_def finish_def drop_job_def release_opt_def)
  have "sent_bytes 3 (w_trace w') = received_bytes 4 (w_trace w')"
    using relay_ends_complete [OF demo_os_hypotheses(1,3,2) demo_reached_uncached [OF r(1)], of 0 c 0 c' w'] r
    by (simp add: conn_done_def)
  then show ?thesis using r(2,6,7) by (auto simp: conn_done_def)
qed

lemma state_begin_connect: "c_state (fst (begin_connect os err c w)) \<in> {SendingUpstream, Connecting, Failing}"
proof (induction "length (c_endpoints c) - c_endpoint_idx c" arbitrary: err c w rule: less_induct)
  case less
  obtain st fd err' t' where eq: "start_connect os (c_endpoints c ! c_endpoint_idx c) (-1) err (w_trace w) = (st, fd, err', t')"
    by (cases "start_connect os (c_endpoints c ! c_endpoint_idx c) (-1) err (w_trace w)")
  show ?case
    using eq less [of "c\<lparr>c_endpoint_idx := c_endpoint_idx c + 1\<rparr>"]
    by (subst begin_connect.simps) (simp add: Let_def fd_reset_def fail_with_def)
qed

text \<open>
  Before the response is relayed the client is sent nothing but one reply: an operation that ends in the
  state \<^verbatim>\<open>Failing\<close> has only prepared it, and one that ends in \<^verbatim>\<open>Done\<close> has read the end of the
  client's side.
\<close>

definition unanswered :: "connection \<Rightarrow> connection \<times> world \<Rightarrow> bool" where
  "unanswered c x \<longleftrightarrow>
     c_client (fst x) = c_client c \<and> c_state (fst x) \<notin> {Relaying, Done} \<and>
     (c_state (fst x) = Failing \<longrightarrow> c_out_client_off (fst x) = 0)"

lemma unanswered_fail [simp]: "unanswered c (fail_with r c1 w) \<longleftrightarrow> c_client c1 = c_client c"
  by (simp add: unanswered_def fail_with_def set_want_def)

lemma unanswered_begin_connect [simp]: "unanswered c (begin_connect os err c1 w) \<longleftrightarrow> c_client c1 = c_client c"
proof (induction "length (c_endpoints c1) - c_endpoint_idx c1" arbitrary: err c1 w rule: less_induct)
  case less
  obtain st fd err' t' where eq: "start_connect os (c_endpoints c1 ! c_endpoint_idx c1) (-1) err (w_trace w) = (st, fd, err', t')"
    by (cases "start_connect os (c_endpoints c1 ! c_endpoint_idx c1) (-1) err (w_trace w)")
  show ?case
    using eq less [of "c1\<lparr>c_endpoint_idx := c_endpoint_idx c1 + 1\<rparr>"]
    by (subst begin_connect.simps) (simp add: Let_def fd_reset_def unanswered_def set_want_def fail_with_def)
qed

lemma unanswered_begin_resolve: "c_client c1 = c_client c \<Longrightarrow> unanswered c (begin_resolve os cfg c1 w)"
  by (auto simp: begin_resolve_def Let_def split: prod.splits resolve_status.splits)
    (simp_all add: unanswered_def set_want_def)

lemma unanswered_request_complete:
  assumes "request_complete os cfg c1 w = Some x" and "c_client c1 = c_client c"
  shows "unanswered c x"
  using assms unanswered_begin_resolve [of _ c]
  by (auto simp: request_complete_def Let_def split: bind_splits option.splits if_splits prod.splits)

lemma unanswered_read_client:
  assumes "do_read_client os cfg c w = Some x" and "c_state c = ReadingRequest"
  shows "unanswered c x \<or> (\<exists>st t1. read_some os (c_client c) (io_chunk cfg) (w_trace w) = Some (st, t1) \<and> x = finish c (w\<lparr>w_trace := t1\<rparr>))"
proof -
  obtain st bs t1 where r: "read_some os (c_client c) (io_chunk cfg) (w_trace w) = Some ((st, bs), t1)"
    using assms(1) by (auto simp: do_read_client_def split: bind_splits)
  obtain pr req where p: "parse_request (c_in_client c @ bs) (c_req c) = Some (pr, req)"
    using parse_request_returns [of "c_in_client c @ bs" "c_req c"] by auto
  have stay: "c_client c1 = c_client c \<Longrightarrow> c_state c1 = ReadingRequest \<Longrightarrow> unanswered c (c1, w1)" for c1 w1
    by (simp add: unanswered_def)
  note complete = unanswered_request_complete [of os cfg _ _ x c]
  show ?thesis
    using assms r p stay complete
    by (cases st; cases pr; cases "c_parsed c") (auto simp: do_read_client_def Let_def split: if_splits)
qed

lemma unanswered_finish_resolve:
  assumes "finish_resolve os c w = Some x" and "c_state c = Resolving"
  shows "unanswered c x"
proof -
  have "unanswered c (c, w1)" for w1 using assms(2) by (simp add: unanswered_def)
  then show ?thesis using assms(1) by (auto simp: finish_resolve_def Let_def split: option.splits if_splits)
qed

lemma unanswered_finish_connect: "unanswered c (finish_connect os c w)"
proof -
  have "unanswered c (set_want WriteUpstream (c\<lparr>c_state := SendingUpstream\<rparr>), w1)" for w1 by (simp add: unanswered_def set_want_def)
  then show ?thesis by (auto simp: finish_connect_def Let_def split: prod.splits)
qed

lemma unanswered_sent:
  assumes "unanswered c (c', w')" and "state_ok cfg c' w'"
  shows "sent_bytes (c_client c) (w_trace w') = []"
  using assms by (cases "c_state c'") (auto simp: unanswered_def state_ok_def Let_def)

lemma unanswered_silent:
  assumes os: "fresh_descriptors os" "finite_interrupts os" "bounded_io os" and base: "conn_base cfg F E c w" and ok: "state_ok cfg c w"
    and st: "c_state c \<notin> {Relaying, Failing, Done}" and eq: "on_ready os cfg c w = Some (c', w')"
  shows "sent_bytes (c_client c) (w_trace w') = []"
proof -
  have ok': "state_ok cfg c' w'" using on_ready_good [OF os base ok] eq by (simp add: good_def)
  note sent = unanswered_sent [OF _ ok']
  consider "c_state c = ReadingRequest" "c_want c = ReadClient" "c_job c = None" "sent_bytes (c_client c) (w_trace w) = []" "0 \<le> c_client c"
    | "c_state c = Resolving" "c_want c = ReadResolver" | "c_state c = Connecting" "c_want c = WriteUpstream"
    | "c_state c = SendingUpstream" "c_want c = WriteUpstream" "sent_bytes (c_client c) (w_trace w) = []" "0 \<le> c_upstream c"
    using ok st by (cases "c_state c") (auto simp: state_ok_def Let_def)
  then show ?thesis
  proof cases
    case 1
    have "c_client c \<in> cfds c" using 1 by (simp add: cfds_def)
    from read_step [OF os(2,3) base this, of "io_chunk cfg"] obtain x t1 where
      r: "read_some os (c_client c) (io_chunk cfg) (w_trace w) = Some (x, t1)" "sent_bytes (c_client c) t1 = sent_bytes (c_client c) (w_trace w)"
      by metis
    have "unanswered c (c', w') \<or> (c', w') = finish c (w\<lparr>w_trace := t1\<rparr>)"
      using unanswered_read_client [of os cfg c w "(c', w')"] eq 1 r(1) by (auto simp: on_ready_def)
    then show ?thesis
    proof
      assume "(c', w') = finish c (w\<lparr>w_trace := t1\<rparr>)"
      then have "w' = snd (finish c (w\<lparr>w_trace := t1\<rparr>))" by (metis snd_conv)
      then show ?thesis using 1 r(2) by (simp add: finish_bytes)
    qed (rule sent)
  next
    case 2
    then show ?thesis using eq by (intro sent unanswered_finish_resolve) (simp_all add: on_ready_def)
  next
    case 3
    then have "finish_connect os c w = (c', w')" using eq by (simp add: on_ready_def)
    then show ?thesis using unanswered_finish_connect [of c os w] by (intro sent) simp
  next
    case 4
    then have "c_upstream c \<in> cfds c" and ne: "c_client c \<noteq> c_upstream c" using base by (auto simp: cfds_def conn_base_def)
    from write_step [OF os(2,3) base this(1), of "drop (c_out_upstream_off c) (c_out_upstream c)"] obtain io n t1 where
      r: "write_some os (c_upstream c) (drop (c_out_upstream_off c) (c_out_upstream c)) (w_trace w) = Some ((io, n), t1)"
      "\<forall>fd'. sent_bytes fd' t1 = sent_bytes fd' (w_trace w) @
        (if fd' = c_upstream c then take n (drop (c_out_upstream_off c) (c_out_upstream c)) else [])" by metis
    then show ?thesis using eq 4 ne by (auto simp: on_ready_def do_write_upstream_def Let_def fail_with_def split: if_splits)
  qed
qed

lemma write_some_refused:
  assumes "finite_interrupts os" and "write_some os fd bs t = Some ((io, n), t1)" and "io \<noteq> IoOk"
  shows "\<exists>bs e t. t1 = EvSend fd bs (Inl e) # t"
proof -
  obtain k r where "write_some os fd bs t = Some (case r of Inr k \<Rightarrow> (IoOk, k)
      | Inl e \<Rightarrow> (if e = EAGAIN then IoWouldBlock else IoError, 0), EvSend fd bs r # replicate k (EvSend fd bs (Inl EINTR)) @ t)"
    by (rule write_some_last [OF assms(1)])
  with assms(2,3) show ?thesis by (cases r) auto
qed

text \<open>One more piece of the reply goes out; the exchange ends when all of it is sent, or when the kernel refuses.\<close>

lemma failing_step:
  assumes os: "finite_interrupts os" "bounded_io os" and base: "conn_base cfg F E c w" and ok: "state_ok cfg c w"
    and st: "c_state c = Failing" and eq: "on_ready os cfg c w = Some (c', w')"
  shows "prefix (sent_bytes (c_client c) (w_trace w')) (c_out_client c) \<and>
    (conn_done c' \<longrightarrow> sent_bytes (c_client c) (w_trace w') = c_out_client c \<or>
       (\<exists>bs e t. w_trace w' = EvClose (c_client c) # EvSend (c_client c) bs (Inl e) # t))"
proof -
  let ?off = "c_out_client_off c" and ?out = "c_out_client c"
  have s: "0 \<le> c_client c" "c_want c = WriteClient" "c_upstream c = -1" "c_job c = None"
    "sent_bytes (c_client c) (w_trace w) = take ?off ?out" "?off \<le> length ?out"
    using ok st by (auto simp: state_ok_def Let_def)
  have "c_client c \<in> cfds c" using s by (simp add: cfds_def)
  from write_step [OF os base this, of "drop ?off ?out"] obtain io n t1 where
    r: "write_some os (c_client c) (drop ?off ?out) (w_trace w) = Some ((io, n), t1)"
    "\<forall>fd'. sent_bytes fd' t1 = sent_bytes fd' (w_trace w) @ (if fd' = c_client c then take n (drop ?off ?out) else [])" by metis
  then have sent: "sent_bytes (c_client c) t1 = take (?off + n) ?out" using s(5) by (simp add: take_add)
  have err: "\<exists>bs e t. t1 = EvSend (c_client c) bs (Inl e) # t" if "io \<noteq> IoOk"
    using r(1) that by (rule write_some_refused [OF os(1)])
  have fin: "w_trace (snd (finish c1 (w\<lparr>w_trace := t1\<rparr>))) = EvClose (c_client c) # t1"
    if "c_client c1 = c_client c" "c_upstream c1 = -1" "c_job c1 = None" for c1
    using that s(1) by (simp add: finish_def Let_def drop_job_def release_opt_def fd_destroy_def fd_reset_def)
  have w: "w_trace w' = t1 \<and> \<not> conn_done c' \<or> w_trace w' = EvClose (c_client c) # t1 \<and> (io \<noteq> IoOk \<or> length ?out \<le> ?off + n)"
    using eq r(1) s(2-4) st fin
    by (auto simp: on_ready_def do_write_client_def Let_def conn_done_def dest!: arg_cong [of "finish _ _" _ snd] split: if_splits)
  then show ?thesis using sent err by (auto simp: take_is_prefix)
qed

text \<open>
  C7. A client is never shown a mixture. Until the proxy answers (or relays), the client has been sent
  nothing, and the ready event that decides on the answer sends nothing either. Once it answers, what the
  client has been sent is a prefix of one reply, and so it is after the next ready event, the one that
  ends the exchange included: one of the proxy's own error pages, or a cached response which a cacheable
  request with the same key got from its origin, complete. The exchange ends only when the whole reply is
  sent, or with a \<^verbatim>\<open>send\<close> that fails.
\<close>

theorem client_sees_one_reply:
  assumes "fresh_descriptors os" and "finite_interrupts os" and "bounded_io os"
    and "proxy_run os cfg s" and "p_conns s k = Some c" and "c_state c \<notin> {Relaying, Done}"
  shows "if c_state c \<noteq> Failing
    then sent_bytes (c_client c) (p_trace s) = [] \<and>
      (\<forall>q c' w. q < length (p_caches s) \<longrightarrow> on_ready os cfg c (world_of s q) = Some (c', w) \<longrightarrow>
         sent_bytes (c_client c) (w_trace w) = [])
    else \<exists>reply.
      (reply \<in> {error_response 400 ''Bad Request'', error_response 501 ''Not Implemented'',
                 error_response 413 ''Payload Too Large'', error_response 502 ''Bad Gateway''} \<or>
       (\<exists>req. parse_request (received_bytes (c_client c) (p_trace s)) init_request = Some (Ok, req) \<and>
          cacheable_request cfg req \<and> from_origin cfg (p_trace s) (request_key req) reply)) \<and>
      prefix (sent_bytes (c_client c) (p_trace s)) reply \<and>
      (\<forall>q c' w. q < length (p_caches s) \<longrightarrow> on_ready os cfg c (world_of s q) = Some (c', w) \<longrightarrow>
         prefix (sent_bytes (c_client c) (w_trace w)) reply \<and>
         (conn_done c' \<longrightarrow> sent_bytes (c_client c) (w_trace w) = reply \<or>
            (\<exists>bs e t. w_trace w = EvClose (c_client c) # EvSend (c_client c) bs (Inl e) # t)))"
proof (cases "c_state c = Failing")
  case True
  then have st: "sent_bytes (c_client c) (p_trace s) = take (c_out_client_off c) (c_out_client c)" "reply_ok cfg c (p_trace s) (c_out_client c)"
    using reachable_conn [OF assms(1-5)] by (auto simp: state_ok_def Let_def)
  note f = focus [OF proxy_run_inv [OF assms(1-4)] assms(5)]
  have step: "prefix (sent_bytes (c_client c) (w_trace w)) (c_out_client c) \<and>
      (conn_done c' \<longrightarrow> sent_bytes (c_client c) (w_trace w) = c_out_client c \<or>
         (\<exists>bs e t. w_trace w = EvClose (c_client c) # EvSend (c_client c) bs (Inl e) # t))"
    if "q < length (p_caches s)" "on_ready os cfg c (world_of s q) = Some (c', w)" for q c' w
    by (rule failing_step [OF assms(2,3) f [OF that(1)] True that(2)])
  have reply: "c_out_client c \<in> error_pages \<or>
      (\<exists>req. parse_request (received_bytes (c_client c) (p_trace s)) init_request = Some (Ok, req) \<and>
         cacheable_request cfg req \<and> from_origin cfg (p_trace s) (request_key req) (c_out_client c))"
    using st(2) by (auto simp: reply_ok_def request_read_def)
  have pre: "prefix (sent_bytes (c_client c) (p_trace s)) (c_out_client c)" by (simp add: st(1) take_is_prefix)
  show ?thesis
    unfolding error_pages_def [symmetric] using True
    by (simp only: not_True_eq_False if_False simp_thms) (intro exI [of _ "c_out_client c"] conjI allI impI reply pre; simp add: step)
next
  case False
  then have "sent_bytes (c_client c) (p_trace s) = []"
    using reachable_conn [OF assms(1-5)] assms(6) by (cases "c_state c") (auto simp: state_ok_def Let_def)
  moreover have "sent_bytes (c_client c) (w_trace w) = []"
    if "q < length (p_caches s)" "on_ready os cfg c (world_of s q) = Some (c', w)" for q c' w
    using unanswered_silent [OF assms(1-3) focus [OF proxy_run_inv [OF assms(1-4)] assms(5) that(1)] _ that(2)] False assms(6) by simp
  ultimately show ?thesis using False by simp
qed

text \<open>A head that is over its limit after the first read.\<close>

abbreviation tight_cfg :: config where
  "tight_cfg \<equiv> demo_cfg\<lparr>io_chunk_bytes := 4, max_header_bytes := 0\<rparr>"

lemma parse_tight: "parse_request ''GET '' init_request = Some (Incomplete, init_request)"
  by code_simp

lemma tight_read: "take 4 plain_request = ''GET ''"
  by (simp add: plain_request_def)

theorem client_sees_one_reply_witness:
  "\<exists>(s :: nat proxy) c c' w reply. proxy_run demo_kernel tight_cfg s \<and> on_ready demo_kernel tight_cfg c (world_of s 0) = Some (c', w) \<and>
     conn_done c' \<and> sent_bytes 3 (w_trace w) = error_response 400 ''Bad Request'' \<and> prefix (sent_bytes 3 (w_trace w)) reply"
proof -
  obtain c w c' w' where r: "conn_steps demo_kernel tight_cfg (Suc 0) (init_connection 3 0) (demo_world None) = Some (c, w)"
    "c_state c = Failing" "c_client c = 3" "on_ready demo_kernel tight_cfg c w = Some (c', w')" "conn_done c'"
    "sent_bytes 3 (w_trace w') = error_response 400 ''Bad Request''"
    using parse_tight tight_read by (simp add: demo_defs finish_def drop_job_def release_opt_def conn_done_def)
  have run: "proxy_run demo_kernel tight_cfg (demo_state c w)" by (rule demo_reached [OF r(1)]) simp
  have step: "on_ready demo_kernel tight_cfg c (world_of (demo_state c w) 0) = Some (c', w')" using r(4) by simp
  obtain reply where "prefix (sent_bytes 3 (w_trace w')) reply"
    using client_sees_one_reply [OF demo_os_hypotheses(1,3,2) run, of 0 c] r(2,3) step by (auto simp: demo_state_def)
  with run step r(5,6) show ?thesis by blast
qed

text \<open>
  C3. Every entry of every response cache is the complete answer of an origin to a cacheable
  request with that key: the origin was sent the rebuilt request, answered exactly these bytes and
  closed its side, the answer is a 200 with no \<^verbatim>\<open>Set-Cookie:\<close> or \<^verbatim>\<open>set-cookie:\<close> field (other spellings
  of that name are stored), and it is no longer than the limit on an entry.
\<close>

theorem cache_holds_complete_answers:
  assumes "fresh_descriptors os" and "finite_interrupts os" and "bounded_io os"
    and "proxy_run os cfg s" and "Some cache \<in> set (p_caches s)" and "map_of (entries_of cache) key = Some v"
  shows "from_origin cfg (p_trace s) key v"
  using proxy_run_inv [OF assms(1-4)] assms(5,6) by (force simp: proxy_inv_def cache_ok_def)

abbreviation cached_cfg :: config where
  "cached_cfg \<equiv> default_config\<lparr>async_resolve := False\<rparr>"

theorem cache_holds_complete_answers_witness:
  "\<exists>t. from_origin cached_cfg t ''GET h:80/p'' plain_response"
proof -
  obtain c w cache where r: "conn_steps demo_kernel cached_cfg (Suc (Suc (Suc (Suc (Suc (Suc 0)))))) (init_connection 3 0)
      (demo_world (Some (make_cache cached_cfg))) = Some (c, w)" "w_cache w = Some cache" "entries_of cache = [(''GET h:80/p'', plain_response)]"
    using parse_plain
    by (simp add: demo_defs store_in_cache_def finish_def drop_job_def release_opt_def plain_response_def compare_at_def lru_put_def
        evict.simps over_limit_def entries_of_def kv_def cache_key_def)
  have "from_origin cached_cfg (p_trace (demo_state c w)) ''GET h:80/p'' plain_response"
    by (rule cache_holds_complete_answers [OF demo_os_hypotheses(1,3,2) demo_reached [OF r(1)], of cache])
       (use r(2,3) in \<open>simp_all add: demo_state_def\<close>)
  then show ?thesis by blast
qed

text \<open>
  C17. A connection that is not done always waits for a descriptor that is open: the backends never
  poll or register a descriptor that was closed, and never lose a connection for want of one.
\<close>

theorem waits_on_open_descriptor:
  assumes "fresh_descriptors os" and "finite_interrupts os" and "bounded_io os"
    and "proxy_run os cfg s" and "p_conns s k = Some c" and "\<not> conn_done c"
  shows "0 \<le> want_fd c (world_of s q) \<and> want_fd c (world_of s q) \<in> open_fds (p_trace s)"
  using wait_open [OF proxy_run_inv [OF assms(1-4)] assms(5,6)] by blast

theorem waits_on_open_descriptor_witness:
  "want_fd (init_connection 3 0) (demo_world None) \<in> open_fds (w_trace (demo_world None))"
  using waits_on_open_descriptor [OF demo_os_hypotheses(1,3,2) demo_admitted [of None demo_cfg], of 0 "init_connection 3 0" 0]
  by (auto simp: conn_done_def init_connection_def)


section \<open>What the event loop relies on\<close>

definition neutral :: "event \<Rightarrow> bool" where
  "neutral ev \<longleftrightarrow> (\<forall>kq t. registered kq (ev # t) = registered kq t) \<and> (\<forall>t. open_fds (ev # t) = open_fds t)"

lemma neutral_io [simp]: "neutral (EvRecv fd len r)" "neutral (EvSend fd bs n)" "neutral (EvRead fd len r)"
  by (simp_all add: neutral_def)

lemma only_neutral:
  assumes "only_events neutral t t'"
  shows "registered kq t' = registered kq t" and "open_fds t' = open_fds t"
proof -
  from assms obtain evs where "t' = evs @ t" "\<forall>ev\<in>set evs. neutral ev" by (auto simp: only_events_def)
  then have "registered kq t' = registered kq t \<and> open_fds t' = open_fds t"
    by (induction evs arbitrary: t') (simp_all add: neutral_def del: registered.simps open_fds.simps)
  then show "registered kq t' = registered kq t" "open_fds t' = open_fds t" by blast+
qed

lemma read_some_neutral:
  assumes "finite_interrupts os" and "bounded_io os" and "read_some os fd len t = Some (x, t')"
  shows "only_events neutral t t'"
proof -
  obtain st bs t1 where r: "read_some os fd len t = Some ((st, bs), t1)"
    "open_fds t1 = open_fds t" "untouched (- {fd}) t t1" "sent_bytes fd t1 = sent_bytes fd t" "received_bytes fd t1 = received_bytes fd t @ bs"
    "registered 0 t1 = registered 0 t" "length bs \<le> len" "st = IoOk \<longleftrightarrow> bs \<noteq> []"
    "only_events (\<lambda>ev. \<exists>r. ev = EvRecv fd len r) t t1"
    "st = IoClosed \<longrightarrow> (\<exists>t2. t1 = EvRecv fd len (Inr []) # t2 \<and> sent_bytes fd t2 = sent_bytes fd t \<and> received_bytes fd t2 = received_bytes fd t)"
    by (rule read_some_effect [OF assms(1,2)])
  have "only_events neutral t t1" by (rule only_events_mono [OF r(9)]) auto
  then show ?thesis using r(1) assms(3) by simp
qed

lemma write_some_neutral:
  assumes "finite_interrupts os" and "bounded_io os" and "write_some os fd bs t = Some (x, t')"
  shows "only_events neutral t t'"
proof -
  obtain st n t1 where r: "write_some os fd bs t = Some ((st, n), t1)"
    "open_fds t1 = open_fds t" "untouched (- {fd}) t t1" "received_bytes fd t1 = received_bytes fd t" "sent_bytes fd t1 = sent_bytes fd t @ take n bs"
    "registered 0 t1 = registered 0 t" "n \<le> length bs" "st \<noteq> IoOk \<longrightarrow> n = 0"
    "only_events (\<lambda>ev. \<exists>r. ev = EvSend fd bs r) t t1"
    by (rule write_some_effect [OF assms(1,2)])
  have "only_events neutral t t1" by (rule only_events_mono [OF r(9)]) auto
  then show ?thesis using r(1) assms(3) by simp
qed

lemma epoch_ended [simp]:
  "c_epoch (fst (fail_with r c w)) = c_epoch c + 1" "c_epoch (fst (finish c w)) = c_epoch c + 1"
  by (simp_all add: fail_with_def finish_def Let_def)

lemma epoch_begin_connect [simp]: "c_epoch (fst (begin_connect os err c w)) = c_epoch c + 1"
proof (induction "length (c_endpoints c) - c_endpoint_idx c" arbitrary: err c w rule: less_induct)
  case less
  show ?case
  proof (cases "c_endpoint_idx c < length (c_endpoints c)")
    case False
    then show ?thesis by (simp add: begin_connect.simps)
  next
    case True
    obtain st fd err' t' where eq: "start_connect os (c_endpoints c ! c_endpoint_idx c) (-1) err (w_trace w) = (st, fd, err', t')"
      by (cases "start_connect os (c_endpoints c ! c_endpoint_idx c) (-1) err (w_trace w)")
    have "c_epoch (fst (begin_connect os err' (c\<lparr>c_endpoint_idx := c_endpoint_idx c + 1\<rparr>) w')) = c_epoch c + 1" for w'
      using less [of "c\<lparr>c_endpoint_idx := c_endpoint_idx c + 1\<rparr>"] True by simp
    then show ?thesis using True eq by (subst begin_connect.simps) (simp add: Let_def fd_reset_def)
  qed
qed

lemma epoch_begin_resolve [simp]: "c_epoch (fst (begin_resolve os cfg c w)) = c_epoch c + 1"
  by (auto simp: begin_resolve_def Let_def split: prod.splits resolve_status.splits)

lemma epoch_finish_connect [simp]: "c_epoch (fst (finish_connect os c w)) = c_epoch c + 1"
  by (auto simp: finish_connect_def Let_def split: prod.splits)

text \<open>What stays when a call leaves the epoch alone.\<close>

definition stays :: "connection \<Rightarrow> world \<Rightarrow> connection \<times> world \<Rightarrow> bool" where
  "stays c w x \<longleftrightarrow>
     c_epoch (fst x) = c_epoch c \<and> c_state (fst x) = c_state c \<and> c_want (fst x) = c_want c \<and>
     c_client (fst x) = c_client c \<and> c_upstream (fst x) = c_upstream c \<and> c_job (fst x) = c_job c \<and>
     w_res (snd x) = w_res w \<and> only_events neutral (w_trace w) (w_trace (snd x))"

definition epoch_ok :: "connection \<Rightarrow> world \<Rightarrow> (connection \<times> world) option \<Rightarrow> bool" where
  "epoch_ok c w res \<longleftrightarrow> (case res of None \<Rightarrow> True | Some x \<Rightarrow> c_epoch (fst x) = c_epoch c + 1 \<or> stays c w x)"

lemma epoch_ok_simps [simp]:
  "epoch_ok c w None" "epoch_ok c w (Some x) \<longleftrightarrow> c_epoch (fst x) = c_epoch c + 1 \<or> stays c w x"
  by (simp_all add: epoch_ok_def)

lemma epoch_request_complete:
  assumes "request_complete os cfg c w = Some x"
  shows "c_epoch (fst x) = c_epoch c + 1"
  using assms
  by (auto simp: request_complete_def Let_def split: bind_splits option.splits if_splits prod.splits)

lemma epoch_ok_complete: "c_epoch c2 = c_epoch c \<Longrightarrow> epoch_ok c w (request_complete os cfg c2 w1)"
  using epoch_request_complete [of os cfg c2 w1] by (cases "request_complete os cfg c2 w1") simp_all

lemma epoch_do_read_client:
  assumes "finite_interrupts os" and "bounded_io os"
  shows "epoch_ok c w (do_read_client os cfg c w)"
proof (cases "read_some os (c_client c) (io_chunk cfg) (w_trace w)")
  case (Some y)
  obtain st bs t1 where y: "y = ((st, bs), t1)" by (metis surj_pair)
  note n = read_some_neutral [OF assms Some [unfolded y]]
  show ?thesis
  proof (cases "st = IoOk")
    case False
    then show ?thesis using n by (cases st) (simp_all add: do_read_client_def Some y stays_def)
  next
    case ok: True
    show ?thesis
    proof (cases "c_parsed c")
      case True
      then show ?thesis using ok n by (simp add: do_read_client_def Some y Let_def stays_def epoch_ok_complete)
    next
      case False
      obtain pr req where p: "parse_request (c_in_client c @ bs) (c_req c) = Some (pr, req)"
        using parse_request_returns [of "c_in_client c @ bs" "c_req c"] by auto
      show ?thesis
        using ok False n p by (cases pr) (simp_all add: do_read_client_def Some y Let_def stays_def epoch_ok_complete)
    qed
  qed
qed (simp add: do_read_client_def)

lemma epoch_finish_resolve: "epoch_ok c w (finish_resolve os c w)"
proof -
  have n: "only_events neutral t (EvRead fd len r # t)" for t fd len r by (rule only_events_Cons) simp_all
  show ?thesis using n by (cases "c_job c") (simp_all add: finish_resolve_def Let_def stays_def)
qed

lemma epoch_do_write_upstream:
  assumes "finite_interrupts os" and "bounded_io os"
  shows "epoch_ok c w (do_write_upstream os c w)"
proof (cases "write_some os (c_upstream c) (drop (c_out_upstream_off c) (c_out_upstream c)) (w_trace w)")
  case (Some y)
  obtain st n t1 where y: "y = ((st, n), t1)" by (metis surj_pair)
  note n = write_some_neutral [OF assms Some [unfolded y]]
  show ?thesis using n by (simp add: do_write_upstream_def Some y Let_def stays_def)
qed (simp add: do_write_upstream_def)

lemma epoch_do_read_upstream:
  assumes "finite_interrupts os" and "bounded_io os"
  shows "epoch_ok c w (do_read_upstream os cfg c w)"
proof (cases "read_some os (c_upstream c) (io_chunk cfg) (w_trace w)")
  case (Some y)
  obtain st bs t1 where y: "y = ((st, bs), t1)" by (metis surj_pair)
  note n = read_some_neutral [OF assms Some [unfolded y]]
  show ?thesis
  proof (cases st)
    case IoClosed
    let ?c = "c\<lparr>c_upstream_eof := True, c_upstream := -1\<rparr>"
    show ?thesis
      by (cases "store_in_cache ?c (w\<lparr>w_trace := fd_destroy (c_upstream c) t1\<rparr>)") (simp_all add: do_read_upstream_def Some y IoClosed Let_def)
  qed (use n in \<open>simp_all add: do_read_upstream_def Some y Let_def stays_def\<close>)
qed (simp add: do_read_upstream_def)

lemma epoch_do_write_client:
  assumes "finite_interrupts os" and "bounded_io os"
  shows "epoch_ok c w (do_write_client os c w)"
proof (cases "write_some os (c_client c) (drop (c_out_client_off c) (c_out_client c)) (w_trace w)")
  case (Some y)
  obtain st n t1 where y: "y = ((st, n), t1)" by (metis surj_pair)
  note n = write_some_neutral [OF assms Some [unfolded y]]
  show ?thesis using n by (simp add: do_write_client_def Some y Let_def stays_def)
qed (simp add: do_write_client_def)

lemma epoch_on_ready:
  assumes "finite_interrupts os" and "bounded_io os" and "on_ready os cfg c w = Some x"
  shows "c_epoch (fst x) = c_epoch c + 1 \<or> stays c w x"
proof -
  have "epoch_ok c w (on_ready os cfg c w)"
    using epoch_do_read_client epoch_do_write_client epoch_do_read_upstream epoch_do_write_upstream epoch_finish_resolve assms(1,2)
    by (cases "c_want c") (simp_all add: on_ready_def)
  then show ?thesis using assms(3) by simp
qed

lemma stays_registration:
  assumes "stays c w (c', w')"
  shows "want_fd c' w' = want_fd c w" and "want_write c' = want_write c" and "open_fds (w_trace w') = open_fds (w_trace w)"
    and "registered kq (w_trace w') = registered kq (w_trace w)"
proof -
  show "want_fd c' w' = want_fd c w"
    using assms by (cases "c_want c"; cases "c_job c") (simp_all add: stays_def want_fd_def)
qed (use assms only_neutral [of "w_trace w" "w_trace w'"] in \<open>simp_all add: stays_def want_write_def\<close>)

text \<open>
  C16. A call of \<^verbatim>\<open>on_ready\<close> either advances the epoch by one, or it leaves the wait alone: the same
  descriptor in the same direction, with no descriptor opened or closed and every kqueue registration
  as it was. So an unchanged epoch is enough for the event loop to keep its registration, and a
  reused descriptor number can never hide a change.
\<close>

theorem epoch_tracks_registration:
  assumes "finite_interrupts os" and "bounded_io os" and "on_ready os cfg c w = Some (c', w')"
  shows "if c_epoch c' = c_epoch c
    then want_fd c' w' = want_fd c w \<and> want_write c' = want_write c \<and> c_state c' = c_state c \<and>
      open_fds (w_trace w') = open_fds (w_trace w) \<and> (\<forall>kq. registered kq (w_trace w') = registered kq (w_trace w))
    else c_epoch c' = c_epoch c + 1"
proof (cases "c_epoch c' = c_epoch c")
  case True
  then have st: "stays c w (c', w')" using epoch_on_ready [OF assms] by simp
  then have "c_state c' = c_state c" by (simp add: stays_def)
  then show ?thesis using True stays_registration [OF st] by simp
next
  case False
  then show ?thesis using epoch_on_ready [OF assms] by (simp add: stays_def)
qed

theorem epoch_tracks_registration_witness:
  "\<exists>c w. on_ready demo_kernel demo_cfg (init_connection 3 0) (demo_world None) = Some (c, w) \<and> c_epoch c = 1"
proof -
  obtain c w where r: "on_ready demo_kernel demo_cfg (init_connection 3 0) (demo_world None) = Some (c, w)" "c_state c = Connecting"
    using parse_plain by (simp add: demo_defs)
  have "c_epoch c = 1"
    using epoch_tracks_registration [OF demo_os_hypotheses(3,2) r(1)] r(2) by (auto simp: init_connection_def split: if_splits)
  with r show ?thesis by blast
qed


section \<open>Reading a request, choosing an address\<close>

text \<open>The first candidate that does not fail at once, in the order the resolver gave.\<close>

fun first_reachable :: "os \<Rightarrow> endpoint list \<Rightarrow> string \<Rightarrow> trace \<Rightarrow> (endpoint list \<times> connect_status \<times> fd) option \<times> trace" where
  "first_reachable os [] err t = (None, t)"
| "first_reachable os (ep # eps) err t =
     (let (st, fd, err', t') = start_connect os ep (-1) err t in
      if st = ConnectFailed then first_reachable os eps err' t' else (Some (eps, st, fd), t'))"

text \<open>
  C26. Connecting walks the candidate addresses in order and takes the first one that does not fail
  at once: it sends right away when the connect has completed, waits when it is in progress, and
  answers 502 only after every remaining candidate has failed. The index is left behind the one taken, so a
  later failure resumes with the next.
\<close>

theorem begin_connect_first_reachable:
  assumes "fresh_descriptors os" and "c_upstream c = -1" and "c_endpoint_idx c \<le> length (c_endpoints c)"
  shows "begin_connect os err c w =
    (case first_reachable os (drop (c_endpoint_idx c) (c_endpoints c)) err (w_trace w) of
       (None, t) \<Rightarrow> fail_with (error_response 502 ''Bad Gateway'') (c\<lparr>c_endpoint_idx := length (c_endpoints c)\<rparr>) (w\<lparr>w_trace := t\<rparr>)
     | (Some (rest, st, fd), t) \<Rightarrow>
         (set_want WriteUpstream
            (c\<lparr>c_endpoint_idx := length (c_endpoints c) - length rest, c_upstream := fd,
               c_state := (if st = Connected then SendingUpstream else Connecting)\<rparr>),
          w\<lparr>w_trace := t\<rparr>))"
  using assms(2,3)
proof (induction "length (c_endpoints c) - c_endpoint_idx c" arbitrary: err c w rule: less_induct)
  case less
  show ?case
  proof (cases "c_endpoint_idx c < length (c_endpoints c)")
    case False
    then have idx: "c_endpoint_idx c = length (c_endpoints c)" using less.prems by simp
    then have c: "c\<lparr>c_endpoint_idx := length (c_endpoints c)\<rparr> = c" by simp
    show ?thesis using idx by (simp add: begin_connect.simps c)
  next
    case True
    let ?ep = "c_endpoints c ! c_endpoint_idx c" and ?c = "c\<lparr>c_endpoint_idx := c_endpoint_idx c + 1\<rparr>"
    obtain st fd err' t' where eq: "start_connect os ?ep (-1) err (w_trace w) = (st, fd, err', t')"
      and "untouched (open_fds (w_trace w)) (w_trace w) t'" and failed: "st = ConnectFailed \<longrightarrow> fd = -1 \<and> open_fds t' = open_fds (w_trace w)"
      and "st \<noteq> ConnectFailed \<longrightarrow> 0 \<le> fd \<and> fd \<notin> open_fds (w_trace w) \<and> open_fds t' = insert fd (open_fds (w_trace w)) \<and>
        sent_bytes fd t' = [] \<and> received_bytes fd t' = [] \<and> (\<exists>c t2. t' = EvConnect fd (take (ep_len ?ep) (ep_addr ?ep)) c # t2 \<and> (st = Connected \<longleftrightarrow> c = None))"
      by (rule start_connect_effect [OF assms(1)])
    have drop: "drop (c_endpoint_idx c) (c_endpoints c) = ?ep # drop (c_endpoint_idx c + 1) (c_endpoints c)"
      using True by (simp add: Cons_nth_drop_Suc)
    show ?thesis
    proof (cases "st = ConnectFailed")
      case True
      have "begin_connect os err c w = begin_connect os err' ?c (w\<lparr>w_trace := t'\<rparr>)"
        using \<open>c_endpoint_idx c < _\<close> eq True failed by (subst begin_connect.simps) simp
      also note less.hyps [of ?c]
      finally show ?thesis using less.prems \<open>c_endpoint_idx c < _\<close> eq True drop by (simp split: option.splits prod.splits)
    next
      case False
      then show ?thesis using less.prems \<open>c_endpoint_idx c < _\<close> eq drop
        by (subst begin_connect.simps) (auto simp: Let_def fd_reset_def)
    qed
  qed
qed

definition one_candidate :: connection where
  "one_candidate = (init_connection 3 0)\<lparr>c_endpoints := [\<lparr>ep_addr = ''addr'', ep_len = 4, ep_family = 2, ep_socktype = 1, ep_protocol = 6\<rparr>]\<rparr>"

theorem begin_connect_first_reachable_witness:
  "c_state (fst (begin_connect demo_kernel [] one_candidate (demo_world None))) = Connecting \<and>
   c_upstream (fst (begin_connect demo_kernel [] one_candidate (demo_world None))) = 4"
  using begin_connect_first_reachable [OF demo_os_hypotheses(1), of one_candidate demo_script "[]" "demo_world None"]
  by (simp add: one_candidate_def init_connection_def demo_world_def start_connect_def suppress_sigpipe_def set_nonblocking_def
      Let_def fd_reset_def demo_calls)

lemma state_begin_resolve: "c_state (fst (begin_resolve os cfg c w)) \<noteq> ReadingRequest"
proof -
  have "c_state (fst (begin_connect os err c w)) \<noteq> ReadingRequest" for err c w using state_begin_connect [of os err c w] by auto
  then show ?thesis
    by (auto simp: begin_resolve_def Let_def fail_with_def split: prod.splits resolve_status.splits)
qed

lemma state_request_complete:
  assumes "request_complete os cfg c w = Some x"
  shows "c_state (fst x) \<noteq> ReadingRequest"
  using assms state_begin_resolve
  by (auto simp: request_complete_def Let_def fail_with_def split: bind_splits option.splits if_splits prod.splits)

lemma parse_request_init:
  assumes "state_ok cfg c w" and "c_state c = ReadingRequest"
  shows "c_parsed c \<Longrightarrow> parse_request (c_in_client c @ bs) init_request = Some (Ok, c_req c) \<and> rq_content_length (c_req c) \<le> max_body_bytes cfg"
    and "\<not> c_parsed c \<Longrightarrow> c_req c = init_request"
    and "received_bytes (c_client c) (w_trace w) = c_in_client c"
  using assms parse_request_more by (auto simp: state_ok_def Let_def parse_request_Incomplete_iff)



end
