(* ===== verification/Proxy_Progress.thy ===== *)
theory Proxy_Progress
  imports Proxy_Properties
begin

text \<open>
  Liveness of a connection. \<open>remaining\<close> measures how far a connection is from its end, \<open>work\<close> how many
  steps the resolver threads have left; every ready event lowers the first, every step of a thread the
  second. \<open>attended\<close> says that a lookup which is not answered yet is in the queue or in the hands of a
  thread, so that a connection that waits for it is never left alone.
\<close>

section \<open>Every exchange ends\<close>

text \<open>
  A kernel under which peers make progress: receiving yields bytes or the end of the stream, at most
  \<open>N\<close> bytes per descriptor; sending takes at least one byte.
\<close>

definition progressing :: "os \<Rightarrow> nat \<Rightarrow> bool" where
  "progressing os N \<longleftrightarrow>
     (\<forall>t fd len. \<exists>bs. os_recv os t fd len = Inr bs \<and> (bs = [] \<or> length (received_bytes fd t) + length bs \<le> N)) \<and>
     (\<forall>t fd bs. \<exists>n. os_send os t fd bs = Inr n \<and> (bs = [] \<or> 0 < n))"

lemma progress_read:
  assumes "progressing os N"
  obtains bs where "read_some os fd len t = Some ((if bs = [] then IoClosed else IoOk, bs), EvRecv fd len (Inr bs) # t)"
    and "bs = [] \<or> length (received_bytes fd t) + length bs \<le> N"
proof -
  obtain bs where "os_recv os t fd len = Inr bs" "bs = [] \<or> length (received_bytes fd t) + length bs \<le> N"
    using assms unfolding progressing_def by blast
  then show ?thesis by (intro that [of bs]) (subst read_some.simps, simp add: Let_def split: list.splits)
qed

lemma progress_write:
  assumes "progressing os N" and "bounded_io os"
  obtains n where "write_some os fd bs t = Some ((IoOk, n), EvSend fd bs (Inr n) # t)" and "bs = [] \<or> 0 < n" and "n \<le> length bs"
proof -
  obtain n where n: "os_send os t fd bs = Inr n" "bs = [] \<or> 0 < n"
    using assms(1) unfolding progressing_def by blast
  moreover have "n \<le> length bs" using assms(2) n(1) by (simp add: bounded_io_def)
  ultimately show ?thesis by (intro that [of n]) (subst write_some.simps, simp add: Let_def)
qed

definition remaining :: "nat \<Rightarrow> connection \<Rightarrow> trace \<Rightarrow> nat \<times> nat" where
  "remaining N c t =
     (case c_state c of
        ReadingRequest \<Rightarrow> (5, N - length (received_bytes (c_client c) t))
      | Resolving \<Rightarrow> (4, 0)
      | Connecting \<Rightarrow> (3, length (c_endpoints c) - c_endpoint_idx c)
      | SendingUpstream \<Rightarrow> (2, length (c_out_upstream c) - c_out_upstream_off c)
      | Relaying \<Rightarrow> (1, 2 * (N - length (received_bytes (c_upstream c) t)) + (length (c_out_client c) - c_out_client_off c))
      | Failing \<Rightarrow> (0, length (c_out_client c) - c_out_client_off c)
      | Done \<Rightarrow> (0, 0))"

abbreviation closer :: "((nat \<times> nat) \<times> (nat \<times> nat)) set" where
  "closer \<equiv> less_than <*lex*> less_than"

text \<open>The next state is the last one, or nearer to it.\<close>

definition nearer :: "nat \<Rightarrow> connection \<Rightarrow> world \<Rightarrow> (connection \<times> world) option \<Rightarrow> bool" where
  "nearer N c w res \<longleftrightarrow>
     (case res of None \<Rightarrow> False
      | Some x \<Rightarrow> conn_done (fst x) \<or> (remaining N (fst x) (w_trace (snd x)), remaining N c (w_trace w)) \<in> closer)"

lemma nearer_simps [simp]:
  "\<not> nearer N c w None"
  "nearer N c w (Some x) \<longleftrightarrow> conn_done (fst x) \<or> (remaining N (fst x) (w_trace (snd x)), remaining N c (w_trace w)) \<in> closer"
  by (simp_all add: nearer_def)

lemma finish_done [simp]: "conn_done (fst (finish c w))"
  by (simp add: finish_def Let_def conn_done_def)

lemma fail_with_state [simp]: "c_state (fst (fail_with r c w)) = Failing"
  by (simp add: fail_with_def)

lemma begin_connect_idx:
  assumes "c_state (fst (begin_connect os err c w)) = Connecting"
  shows "c_endpoint_idx c < c_endpoint_idx (fst (begin_connect os err c w)) \<and> c_endpoint_idx c < length (c_endpoints c) \<and>
    c_endpoints (fst (begin_connect os err c w)) = c_endpoints c"
  using assms
proof (induction "length (c_endpoints c) - c_endpoint_idx c" arbitrary: err c w rule: less_induct)
  case less
  show ?case
  proof (cases "c_endpoint_idx c < length (c_endpoints c)")
    case False
    then show ?thesis using less.prems by (simp add: begin_connect.simps)
  next
    case True
    obtain st fd err' t' where eq: "start_connect os (c_endpoints c ! c_endpoint_idx c) (-1) err (w_trace w) = (st, fd, err', t')"
      by (cases "start_connect os (c_endpoints c ! c_endpoint_idx c) (-1) err (w_trace w)")
    let ?c = "c\<lparr>c_endpoint_idx := c_endpoint_idx c + 1\<rparr>" and ?w = "w\<lparr>w_trace := fd_destroy fd t'\<rparr>"
    show ?thesis
    proof (cases "st = ConnectFailed")
      case True
      have b: "begin_connect os err c w = begin_connect os err' ?c ?w"
        using \<open>c_endpoint_idx c < _\<close> eq True by (subst begin_connect.simps) simp
      have "length (c_endpoints ?c) - c_endpoint_idx ?c < length (c_endpoints c) - c_endpoint_idx c"
        using \<open>c_endpoint_idx c < _\<close> by simp
      from less.hyps [OF this less.prems [unfolded b]] show ?thesis unfolding b by simp
    next
      case False
      have "c_endpoint_idx (fst (begin_connect os err c w)) = c_endpoint_idx c + 1 \<and> c_endpoints (fst (begin_connect os err c w)) = c_endpoints c"
        using True eq False by (subst (1 2) begin_connect.simps) (simp add: Let_def fd_reset_def)
      then show ?thesis using True by simp
    qed
  qed
qed

lemma begin_connect_nearer:
  assumes "c_state c = Connecting"
  shows "nearer N c w0 (Some (begin_connect os err (c\<lparr>c_upstream := -1\<rparr>) w))"
proof -
  let ?x = "begin_connect os err (c\<lparr>c_upstream := -1\<rparr>) w"
  consider "c_state (fst ?x) = SendingUpstream" | "c_state (fst ?x) = Failing" | "c_state (fst ?x) = Connecting"
    using state_begin_connect [of os err "c\<lparr>c_upstream := -1\<rparr>" w] by auto
  then show ?thesis
  proof cases
    case 3
    from begin_connect_idx [OF 3] show ?thesis using assms 3 by (simp add: remaining_def diff_less_mono2)
  qed (use assms in \<open>simp_all add: remaining_def\<close>)
qed

lemma begin_resolve_nearer:
  assumes "c_state c0 = ReadingRequest"
  shows "nearer N c0 w0 (Some (begin_resolve os cfg c w))"
proof -
  have "c_state (fst (begin_resolve os cfg c w)) \<in> {SendingUpstream, Connecting, Failing, Resolving}"
    using state_begin_connect
    by (auto simp: begin_resolve_def Let_def set_want_def split: prod.splits resolve_status.splits)
  then show ?thesis using assms by (auto simp: remaining_def)
qed

lemma request_complete_nearer:
  assumes "c_state c0 = ReadingRequest" and "request_complete os cfg c w \<noteq> None"
  shows "nearer N c0 w0 (request_complete os cfg c w)"
proof -
  have f: "nearer N c0 w0 (Some (fail_with r c w))" for r c w using assms(1) by (simp add: remaining_def)
  note b = begin_resolve_nearer [OF assms(1)]
  from assms(2) show ?thesis
    using f b by (auto simp del: nearer_simps simp: request_complete_def Let_def split: bind_splits option.splits prod.splits)
qed

lemma more_received:
  assumes "bs \<noteq> []" and "r + length bs \<le> N"
  shows "N - (r + length bs) < N - r" and "2 * (N - (r + length bs)) + length bs < 2 * (N - r)"
  using assms by (cases bs; simp; linarith)+

lemma do_read_client_nearer:
  assumes "progressing os N" and "c_state c = ReadingRequest" and ret: "do_read_client os cfg c w \<noteq> None"
  shows "nearer N c w (do_read_client os cfg c w)"
proof -
  obtain bs where r: "read_some os (c_client c) (io_chunk cfg) (w_trace w) =
      Some ((if bs = [] then IoClosed else IoOk, bs), EvRecv (c_client c) (io_chunk cfg) (Inr bs) # w_trace w)"
    and n: "bs = [] \<or> length (received_bytes (c_client c) (w_trace w)) + length bs \<le> N"
    by (rule progress_read [OF assms(1)])
  show ?thesis
  proof (cases "bs = []")
    case True
    then show ?thesis by (simp add: do_read_client_def r)
  next
    case False
    let ?w = "w\<lparr>w_trace := EvRecv (c_client c) (io_chunk cfg) (Inr bs) # w_trace w\<rparr>"
    have stay: "nearer N c w (Some (c', ?w))" if "c_state c' = ReadingRequest" "c_client c' = c_client c" for c'
      using that False n assms(2) more_received(1) [of bs] by (simp add: remaining_def)
    have fail: "nearer N c w (Some (fail_with x c' w'))" for x c' w' using assms(2) by (simp add: remaining_def)
    note complete = request_complete_nearer [OF assms(2)]
    show ?thesis
    proof (cases "c_parsed c")
      case True
      then show ?thesis using ret False stay complete assms(2)
        by (simp del: nearer_simps add: do_read_client_def r Let_def split: if_splits)
    next
      case unparsed: False
      obtain pr req where p: "parse_request (c_in_client c @ bs) (c_req c) = Some (pr, req)"
        using parse_request_returns [of "c_in_client c @ bs" "c_req c"] by auto
      show ?thesis using ret False unparsed stay complete fail assms(2) p
        by (cases pr) (simp_all del: nearer_simps add: do_read_client_def r Let_def split: if_splits)
    qed
  qed
qed

lemma do_write_upstream_nearer:
  assumes "progressing os N" and "bounded_io os" and "c_state c = SendingUpstream" and "c_out_upstream_off c \<le> length (c_out_upstream c)"
  shows "nearer N c w (do_write_upstream os c w)"
proof -
  obtain n where "write_some os (c_upstream c) (drop (c_out_upstream_off c) (c_out_upstream c)) (w_trace w) =
      Some ((IoOk, n), EvSend (c_upstream c) (drop (c_out_upstream_off c) (c_out_upstream c)) (Inr n) # w_trace w)"
    "drop (c_out_upstream_off c) (c_out_upstream c) = [] \<or> 0 < n" "n \<le> length (drop (c_out_upstream_off c) (c_out_upstream c))"
    by (rule progress_write [OF assms(1,2)])
  then show ?thesis using assms(3,4) by (auto simp: do_write_upstream_def Let_def remaining_def)
qed

lemma do_write_client_nearer:
  assumes "progressing os N" and "bounded_io os" and "c_state c \<in> {Relaying, Failing}" and "c_out_client_off c \<le> length (c_out_client c)"
    and "c_state c = Relaying \<Longrightarrow> c_out_client_off c < length (c_out_client c)"
  shows "nearer N c w (do_write_client os c w)"
proof -
  obtain n where "write_some os (c_client c) (drop (c_out_client_off c) (c_out_client c)) (w_trace w) =
      Some ((IoOk, n), EvSend (c_client c) (drop (c_out_client_off c) (c_out_client c)) (Inr n) # w_trace w)"
    "drop (c_out_client_off c) (c_out_client c) = [] \<or> 0 < n" "n \<le> length (drop (c_out_client_off c) (c_out_client c))"
    by (rule progress_write [OF assms(1,2)])
  then show ?thesis using assms(3-5) by (auto simp: do_write_client_def Let_def remaining_def)
qed

lemma do_read_upstream_nearer:
  assumes "progressing os N" and "c_state c = Relaying" and "c_out_client c = []" and "c_out_client_off c = 0"
    and ret: "do_read_upstream os cfg c w \<noteq> None"
  shows "nearer N c w (do_read_upstream os cfg c w)"
proof -
  obtain bs where r: "read_some os (c_upstream c) (io_chunk cfg) (w_trace w) =
      Some ((if bs = [] then IoClosed else IoOk, bs), EvRecv (c_upstream c) (io_chunk cfg) (Inr bs) # w_trace w)"
    and n: "bs = [] \<or> length (received_bytes (c_upstream c) (w_trace w)) + length bs \<le> N"
    by (rule progress_read [OF assms(1)])
  show ?thesis
  proof (cases "bs = []")
    case True
    then show ?thesis using ret assms(3,4) by (auto simp: do_read_upstream_def r Let_def split: bind_splits)
  next
    case False
    then show ?thesis using n assms(2-4) more_received(2) [of bs] by (simp add: do_read_upstream_def r Let_def remaining_def)
  qed
qed

lemma finish_resolve_nearer:
  assumes "c_state c = Resolving" and "c_job c = Some i" and "j_ready (r_jobs (w_res w) ! i)"
  shows "nearer N c w (finish_resolve os c w)"
proof -
  have "nearer N c w (Some (fail_with r c1 w1))" for r c1 w1 using assms(1) by (simp add: remaining_def)
  moreover have "nearer N c w (Some (begin_connect os err c1 w1))" for err c1 w1
    using state_begin_connect [of os err c1 w1] assms(1) by (auto simp: remaining_def)
  ultimately show ?thesis using assms(2,3) by (simp del: nearer_simps add: finish_resolve_def Let_def)
qed

text \<open>
  A connection that waits for the resolver is woken through the pipe of its job, which is written and
  closed only after the job is marked ready.
\<close>

definition woken :: "connection \<Rightarrow> world \<Rightarrow> bool" where
  "woken c w \<longleftrightarrow> (c_state c = Resolving \<longrightarrow> (\<forall>i. c_job c = Some i \<longrightarrow> j_ready (r_jobs (w_res w) ! i)))"

lemma on_ready_nearer:
  assumes os: "fresh_descriptors os" "finite_interrupts os" "bounded_io os" "progressing os N"
    and base: "conn_base cfg F E c w" and ok: "state_ok cfg c w" and st: "woken c w" "\<not> conn_done c"
  shows "nearer N c w (on_ready os cfg c w)"
proof -
  have ret: "on_ready os cfg c w \<noteq> None" using on_ready_good [OF os(1-3) base ok] by (cases "on_ready os cfg c w") simp_all
  show ?thesis
  proof (cases "c_state c")
    case ReadingRequest
    then have "c_want c = ReadClient" using ok by (simp add: state_ok_def Let_def)
    then show ?thesis using do_read_client_nearer [OF os(4) ReadingRequest] ret by (simp add: on_ready_def)
  next
    case Resolving
    then obtain i where "c_want c = ReadResolver" "c_job c = Some i" using ok by (auto simp: state_ok_def Let_def)
    then show ?thesis using finish_resolve_nearer [OF Resolving, of i w] Resolving st(1) by (simp add: on_ready_def woken_def)
  next
    case Connecting
    then have w: "c_want c = WriteUpstream" using ok by (simp add: state_ok_def Let_def)
    obtain b err t1 where eq: "connect_succeeded os (c_upstream c) [] (w_trace w) = (b, err, t1)"
      by (cases "connect_succeeded os (c_upstream c) [] (w_trace w)")
    have "nearer N c w (Some (finish_connect os c w))"
    proof (cases b)
      case False
      then have "finish_connect os c w = begin_connect os [] (c\<lparr>c_upstream := -1\<rparr>) (w\<lparr>w_trace := fd_destroy (c_upstream c) t1\<rparr>)"
        by (simp add: finish_connect_def eq Let_def)
      then show ?thesis using begin_connect_nearer [OF Connecting] by (simp only:)
    next
      case True
      then show ?thesis by (simp add: finish_connect_def eq Let_def set_want_def remaining_def Connecting)
    qed
    then show ?thesis using w Connecting by (simp del: nearer_simps add: on_ready_def)
  next
    case SendingUpstream
    then have "c_want c = WriteUpstream" "c_out_upstream_off c \<le> length (c_out_upstream c)" using ok by (auto simp: state_ok_def Let_def)
    then show ?thesis using do_write_upstream_nearer [OF os(4,3) SendingUpstream] SendingUpstream by (simp add: on_ready_def)
  next
    case Relaying
    then consider "c_want c = ReadUpstream" "c_out_client c = []" "c_out_client_off c = 0"
      | "c_want c = WriteClient" "c_out_client_off c < length (c_out_client c)"
      using ok by (auto simp: state_ok_def Let_def)
    then show ?thesis
    proof cases
      case 1
      then show ?thesis using do_read_upstream_nearer [OF os(4) Relaying] ret by (simp add: on_ready_def)
    next
      case 2
      then show ?thesis using do_write_client_nearer [OF os(4,3), of c] Relaying by (simp add: on_ready_def)
    qed
  next
    case Failing
    then have "c_want c = WriteClient" "c_out_client_off c \<le> length (c_out_client c)" using ok by (auto simp: state_ok_def Let_def)
    then show ?thesis using do_write_client_nearer [OF os(4,3), of c] Failing by (simp add: on_ready_def)
  qed (use st in \<open>simp_all add: conn_done_def\<close>)
qed


section \<open>Lookups are attended\<close>

text \<open>A lookup that is not answered yet is queued, or a thread works on it.\<close>

definition attended :: "resolver \<Rightarrow> job_id \<Rightarrow> bool" where
  "attended r i \<longleftrightarrow> j_ready (r_jobs r ! i) \<or> 0 < claims r i"

lemma attended_queued: "i \<in> set (r_queue r) \<Longrightarrow> attended r i"
  using count_list_0_iff [of "r_queue r" i] by (simp add: attended_def claims_def)

text \<open>A pool with threads has one that still runs, until it is shut down and its queue is empty.\<close>

definition alive :: "resolver \<Rightarrow> bool" where
  "alive r \<longleftrightarrow> (\<exists>w\<in>set (r_workers r). w \<noteq> WExited) \<or> r_closed r \<and> r_queue r = [] \<or> r_workers r = []"

fun phases_left :: "worker \<Rightarrow> nat" where
  "phases_left (WLookup _) = 8"
| "phases_left (WPublish _ _ _ _) = 7"
| "phases_left (WCachePut _ _) = 6"
| "phases_left (WReady _) = 5"
| "phases_left (WSignal _) = 4"
| "phases_left (WClose _) = 3"
| "phases_left (WRelease _) = 2"
| "phases_left WWait = 1"
| "phases_left WExited = 0"

definition work :: "resolver \<Rightarrow> nat" where
  "work r = 9 * length (r_queue r) + sum_list (map phases_left (r_workers r))"

lemma work_set_worker:
  assumes "k < length (r_workers r)"
  shows "work (set_worker k w r) + phases_left (r_workers r ! k) = work r + phases_left w"
proof -
  have "phases_left (r_workers r ! k) \<le> sum_list (map phases_left (r_workers r))"
    using assms by (intro member_le_sum_list) simp_all
  then show ?thesis
    using assms sum_list_update [of k "map phases_left (r_workers r)" "phases_left w"]
    by (simp add: work_def set_worker_def map_update)
qed

lemma work_fields [simp]:
  "work (update_job i f r) = work r" "work (fst (release_job i r t)) = work r" "work (r\<lparr>r_lookups := n\<rparr>) = work r"
  "work (r\<lparr>r_cache := c\<rparr>) = work r"
  by (simp_all add: work_def update_job_def release_job_def Let_def)

lemma workers_fields [simp]:
  "r_workers (update_job i f r) = r_workers r" "r_workers (fst (release_job i r t)) = r_workers r"
  "r_queue (update_job i f r) = r_queue r" "r_queue (fst (release_job i r t)) = r_queue r"
  "r_closed (update_job i f r) = r_closed r" "r_closed (fst (release_job i r t)) = r_closed r"
  by (simp_all add: update_job_def release_job_def Let_def)

lemma worker_step_work:
  assumes "worker_step os k r t = Some (r', t')"
  shows "work r' < work r"
proof -
  have k: "k < length (r_workers r)" by (rule worker_step_index [OF assms])
  have w: "work (set_worker k w r1) + phases_left (r_workers r ! k) = work r1 + phases_left w" if "r_workers r1 = r_workers r" for w r1
    using work_set_worker [of k r1 w] k that by simp
  from assms show ?thesis
  proof (cases rule: worker_step_cases)
    case (dequeue i q)
    have "work (r\<lparr>r_queue := q\<rparr>) + 9 = work r" by (simp add: work_def dequeue(2))
    then show ?thesis using w [of "r\<lparr>r_queue := q\<rparr>" "WLookup i"] dequeue by simp
  next
    case (store i ok r1)
    obtain c where "r1 = r\<lparr>r_cache := c\<rparr>" using store(4) by blast
    then show ?thesis using w [of r1 "WReady i"] store by simp
  next
    case (exit)
    then show ?thesis using w [of r WExited] by simp
  next
    case (lookup i ok eps err)
    then show ?thesis using w [of "r\<lparr>r_lookups := r_lookups r + 1\<rparr>" "WPublish i ok eps err"] by simp
  next
    case (publish i ok eps err)
    then show ?thesis
      using w [of "update_job i (\<lambda>j. j\<lparr>j_endpoints := eps, j_err := err, j_ok := ok\<rparr>) r" "WCachePut i ok"] by simp
  next
    case (ready i)
    then show ?thesis using w [of "update_job i (\<lambda>j. j\<lparr>j_ready := True\<rparr>) r" "WSignal i"] by simp
  next
    case (signal i)
    then show ?thesis using w [of r "WClose i"] by simp
  next
    case (shut i)
    then show ?thesis using w [of "update_job i (\<lambda>j. j\<lparr>j_write_end := -1\<rparr>) r" "WRelease i"] by simp
  next
    case (release i)
    then show ?thesis using w [of "fst (release_job i r t)" WWait] by simp
  qed
qed

lemma ready_set_worker [simp]: "j_ready (r_jobs (set_worker k w r) ! i) = j_ready (r_jobs r ! i)"
  by (simp add: set_worker_def)

lemma ready_update_job:
  "(\<And>j. j_ready (f j) = j_ready j) \<Longrightarrow> j_ready (r_jobs (update_job i f r) ! n) = j_ready (r_jobs r ! n)"
  by (simp add: nth_update_job)

lemma worker_step_attended:
  assumes inv: "resolver_inv E r t" and step: "worker_step os k r t = Some (r', t')" and att: "attended r n"
  shows "attended r' n"
proof -
  have k: "k < length (r_workers r)" by (rule worker_step_index [OF step])
  have ph: "phase_ok (r_jobs r) t (r_workers r ! k)"
    using inv nth_mem [OF k] by (auto simp: resolver_inv_def published_def)
  have c: "claims (set_worker k w r1) n + (if worker_job (r_workers r ! k) = Some n then 1 else 0) =
      claims r n + (if worker_job w = Some n then 1 else 0)" if "r_workers r1 = r_workers r" "r_queue r1 = r_queue r" for w r1
    using claims_set_worker [of k r1 w n] k that by (simp add: claims_def holders_def)
  have same: "attended (set_worker k w r1) n"
    if "r_workers r1 = r_workers r" "r_queue r1 = r_queue r" "worker_job w = worker_job (r_workers r ! k)"
      "j_ready (r_jobs r ! n) \<Longrightarrow> j_ready (r_jobs r1 ! n)" for w r1
    using c [OF that(1,2), of w] that(3,4) att by (auto simp: attended_def)
  from step show ?thesis
  proof (cases rule: worker_step_cases)
    case (dequeue i q)
    have "claims r' n = claims r n"
      using claims_set_worker [of k "r\<lparr>r_queue := q\<rparr>" "WLookup i" n] k dequeue(1,2) by (auto simp: dequeue(3) claims_def holders_def)
    then show ?thesis using att by (simp add: attended_def dequeue(3))
  next
    case (store i ok r1)
    have "r_workers r1 = r_workers r" "r_queue r1 = r_queue r" "r_jobs r1 = r_jobs r" by (subst store(4), simp)+
    then show ?thesis using store(1,2) same [of r1 "WReady i"] by simp
  next
    case (ready i)
    then show ?thesis by (simp add: same nth_update_job)
  next
    case (release i)
    have "j_ready (r_jobs (fst (release_job i r t)) ! n) = j_ready (r_jobs r ! n)"
      by (simp add: release_job_def Let_def nth_update_job)
    moreover have "j_ready (r_jobs r ! i)" using ph release(1) by simp
    ultimately show ?thesis
      using att c [of "fst (release_job i r t)" WWait] release(1,2) by (cases "n = i") (auto simp: attended_def)
  qed (simp_all add: same ready_update_job)
qed

lemma worker_step_alive:
  assumes "worker_step os k r t = Some (r', t')" and "alive r"
  shows "alive r'" and "r_workers r' = [] \<longleftrightarrow> r_workers r = []"
proof -
  have k: "k < length (r_workers r)" by (rule worker_step_index [OF assms(1)])
  have w: "alive (set_worker k w r1)" if "r_workers r1 = r_workers r" "w \<noteq> WExited" for w r1
    using k that by (auto simp: alive_def set_worker_def set_update_memI)
  from assms(1) show "alive r'"
  proof (cases rule: worker_step_cases)
    case exit
    then show ?thesis by (simp add: alive_def set_worker_def)
  next
    case (store i ok r1)
    have "r_workers r1 = r_workers r" by (subst store(4)) simp
    then show ?thesis by (simp add: store(2) w)
  qed (simp_all add: w)
  show "r_workers r' = [] \<longleftrightarrow> r_workers r = []"
    using assms(1)
  proof (cases rule: worker_step_cases)
    case (store i ok r1)
    have "r_workers r1 = r_workers r" by (subst store(4)) simp
    then show ?thesis by (simp add: store(2) set_worker_def)
  qed (simp_all add: set_worker_def)
qed

text \<open>As long as a lookup is open, some thread can step.\<close>

lemma worker_enabled:
  assumes "k < length (r_workers r)" and "r_workers r ! k \<noteq> WExited" and "r_workers r ! k = WWait \<Longrightarrow> r_queue r \<noteq> []"
  shows "worker_step os k r t \<noteq> None"
  using assms by (cases "r_workers r ! k") (auto simp: worker_step_def Let_def split: list.splits prod.splits)

lemma attended_enabled:
  assumes "alive r" and "r_workers r \<noteq> []" and "attended r i" and "\<not> j_ready (r_jobs r ! i)"
  shows "\<exists>k. worker_step os k r t \<noteq> None"
proof (cases "r_queue r = []")
  case True
  then have "holders r i \<noteq> 0" using assms(3,4) by (simp add: attended_def claims_def)
  then obtain w where "w \<in> set (r_workers r)" "worker_job w = Some i" by (auto simp: holders_def filter_empty_conv)
  moreover from this have "w \<noteq> WExited" "w \<noteq> WWait" by auto
  ultimately obtain k where "k < length (r_workers r)" "r_workers r ! k \<noteq> WExited" "r_workers r ! k \<noteq> WWait"
    by (metis in_set_conv_nth)
  then show ?thesis using worker_enabled [of k r os t] by blast
next
  case False
  then obtain k where "k < length (r_workers r)" "r_workers r ! k \<noteq> WExited"
    using assms(1,2) by (auto simp: alive_def in_set_conv_nth)
  then show ?thesis using worker_enabled [of k r os t] False by blast
qed

text \<open>What a connection does to the resolver: it may add lookups, and it touches no thread and no answer.\<close>

definition res_kept :: "resolver \<Rightarrow> resolver \<Rightarrow> bool" where
  "res_kept r r' \<longleftrightarrow>
     r_workers r' = r_workers r \<and> r_closed r' = r_closed r \<and>
     (\<exists>q. r_queue r' = r_queue r @ q \<and> (r_closed r \<longrightarrow> q = [])) \<and>
     length (r_jobs r) \<le> length (r_jobs r') \<and> (\<forall>i<length (r_jobs r). j_ready (r_jobs r' ! i) = j_ready (r_jobs r ! i))"

lemma res_kept_refl [simp]: "res_kept r r"
  by (simp add: res_kept_def)

lemma res_kept_trans:
  assumes "res_kept r r'" and "res_kept r' r''"
  shows "res_kept r r''"
  using assms unfolding res_kept_def by (elim conjE exE) (auto simp: append_assoc)

lemma res_kept_fields: "r_workers r' = r_workers r \<Longrightarrow> r_closed r' = r_closed r \<Longrightarrow> r_queue r' = r_queue r \<Longrightarrow>
    map j_ready (r_jobs r') = map j_ready (r_jobs r) \<Longrightarrow> res_kept r r'"
  unfolding res_kept_def by (metis append_Nil2 dual_order.refl length_map nth_map)

lemma res_kept_attended: "res_kept r r' \<Longrightarrow> i < length (r_jobs r) \<Longrightarrow> attended r i \<Longrightarrow> attended r' i"
  by (auto simp: res_kept_def attended_def claims_def holders_def)

lemma res_kept_alive: "res_kept r r' \<Longrightarrow> alive r \<Longrightarrow> alive r'"
  by (auto simp: res_kept_def alive_def)

lemma res_kept_release [simp]: "res_kept r (fst (release_job i r t))"
  by (rule res_kept_fields) (auto simp: release_job_def Let_def update_job_def map_update)

lemma res_kept_clear [simp]: "res_kept r (update_job i (\<lambda>j. j\<lparr>j_endpoints := []\<rparr>) r)"
  by (rule res_kept_fields) (auto simp: update_job_def map_update)

lemma res_kept_blocking:
  assumes "resolve_blocking os host port out err r t = (ok, out', err', r', t')"
  shows "res_kept r r'"
  by (subst resolve_blocking_effect(2) [OF assms]) (rule res_kept_fields, simp_all)

lemma res_kept_start:
  assumes "start os host port out None err r t = (st, out', jo, err', r', t')"
  shows "res_kept r r' \<and> (st = ResolvePending \<longrightarrow> (\<exists>i. jo = Some i \<and> i \<in> set (r_queue r')))"
proof -
  obtain hit out1 r1 t1 where g: "cache_get os (dns_key host port) out r t = (hit, out1, r1, t1)"
    by (metis prod_cases4)
  obtain ok re we t2 where p: "make_pipe os (-1) (-1) t1 = (ok, re, we, t2)" by (metis prod_cases4)
  note G = cache_get_effect(2) [OF g]
  have k1: "res_kept r r1" by (subst G) (rule res_kept_fields, simp_all)
  let ?r2 = "r1\<lparr>r_jobs := r_jobs r1 @ [new_job host port re we 1]\<rparr>" and ?n = "length (r_jobs r1)"
  have k2: "res_kept r1 ?r2" by (simp add: res_kept_def nth_append)
  have k3: "\<not> r_closed r1 \<Longrightarrow> res_kept r1 (update_job ?n (\<lambda>j. j\<lparr>j_refs := j_refs j + 1\<rparr>) (?r2\<lparr>r_queue := r_queue r1 @ [?n]\<rparr>))"
    by (simp add: res_kept_def nth_update_job nth_append)
  have hit: "res_kept r (r1\<lparr>r_hits := r_hits r1 + 1\<rparr>)" by (rule res_kept_trans [OF k1]) (rule res_kept_fields, simp_all)
  note undo = res_kept_trans [OF k1 res_kept_trans [OF k2 res_kept_release [of _ ?n t2]]] and queue = res_kept_trans [OF k1 k3]
  show ?thesis
    using assms hit undo queue
    by (auto simp: start_def g p Let_def release_opt_def split: if_splits prod.splits dest!: arg_cong [of "release_job _ _ _" _ fst])
qed

definition asks :: "config \<Rightarrow> world \<Rightarrow> connection \<times> world \<Rightarrow> bool" where
  "asks cfg w x \<longleftrightarrow>
     res_kept (w_res w) (w_res (snd x)) \<and>
     (c_state (fst x) = Resolving \<longrightarrow>
        async_resolve cfg \<and> (\<exists>i. c_job (fst x) = Some i \<and> i \<in> set (r_queue (w_res (snd x)))))"

lemma res_kept_drop_job [simp]: "res_kept (w_res w) (w_res (drop_job jo w))"
  by (cases jo) (auto simp: drop_job_def release_opt_def split: prod.splits dest!: arg_cong [of "release_job _ _ _" _ fst] intro: res_kept_release)

lemma asks_finish [simp]: "asks cfg w (finish c w)"
  by (simp add: asks_def finish_def Let_def set_want_def)

lemma asks_fail [simp]: "asks cfg w0 (fail_with rep c w) \<longleftrightarrow> res_kept (w_res w0) (w_res w)"
  by (simp add: asks_def fail_with_def set_want_def)

lemma begin_connect_res [simp]: "w_res (snd (begin_connect os err c w)) = w_res w"
proof (induction "length (c_endpoints c) - c_endpoint_idx c" arbitrary: err c w rule: less_induct)
  case less
  obtain st fd err' t' where eq: "start_connect os (c_endpoints c ! c_endpoint_idx c) (-1) err (w_trace w) = (st, fd, err', t')"
    by (cases "start_connect os (c_endpoints c ! c_endpoint_idx c) (-1) err (w_trace w)")
  show ?case
    using eq less [of "c\<lparr>c_endpoint_idx := c_endpoint_idx c + 1\<rparr>"]
    by (subst begin_connect.simps) (simp add: Let_def fd_reset_def fail_with_def)
qed

lemma asks_begin_connect [simp]: "asks cfg w0 (begin_connect os err c w) \<longleftrightarrow> res_kept (w_res w0) (w_res w)"
  using state_begin_connect [of os err c w] by (auto simp: asks_def)

lemma asks_begin_resolve:
  assumes "c_job c = None" and "w_res w = w_res w0"
  shows "asks cfg w0 (begin_resolve os cfg c w)"
proof (cases "async_resolve cfg")
  case False
  then show ?thesis using assms(2) by (auto simp: begin_resolve_def Let_def split: prod.splits dest: res_kept_blocking)
next
  case True
  obtain st eps jo err r t where eq: "start os (rq_host (c_req c)) (rq_port (c_req c)) (c_endpoints c) None [] (w_res w) (w_trace w) = (st, eps, jo, err, r, t)"
    by (metis prod_cases6)
  note S = res_kept_start [OF eq]
  show ?thesis
    using True S assms eq by (cases st) (auto simp: begin_resolve_def Let_def asks_def [of cfg w0 "(_, _)"] set_want_def)
qed

lemma asks_request_complete:
  assumes "request_complete os cfg c w = Some x" and "c_job c = None" and "w_res w = w_res w0"
  shows "asks cfg w0 x"
  using assms asks_begin_resolve
  by (auto simp: request_complete_def Let_def split: bind_splits option.splits if_splits prod.splits)

lemma asks_read_client:
  assumes "do_read_client os cfg c w = Some x" and "c_state c = ReadingRequest" and "c_job c = None"
  shows "asks cfg w x"
proof -
  obtain st bs t1 where r: "read_some os (c_client c) (io_chunk cfg) (w_trace w) = Some ((st, bs), t1)"
    using assms(1) by (auto simp: do_read_client_def split: bind_splits)
  obtain pr req where p: "parse_request (c_in_client c @ bs) (c_req c) = Some (pr, req)"
    using parse_request_returns [of "c_in_client c @ bs" "c_req c"] by auto
  have stay: "c_state c1 = ReadingRequest \<Longrightarrow> w_res w1 = w_res w \<Longrightarrow> asks cfg w (c1, w1)" for c1 w1
    by (simp add: asks_def)
  have fin: "asks cfg w (finish c (w\<lparr>w_trace := t1\<rparr>))" using asks_finish [of cfg "w\<lparr>w_trace := t1\<rparr>" c] by (simp add: asks_def)
  note complete = asks_request_complete [of os cfg _ _ x w]
  show ?thesis
    using assms r p stay complete fin
    by (cases st; cases pr; cases "c_parsed c") (auto simp: do_read_client_def Let_def split: if_splits)
qed

lemma asks_finish_resolve:
  assumes "finish_resolve os c w = Some x"
  shows "asks cfg w x \<or> fst x = c \<and> w_res (snd x) = w_res w"
proof -
  have drop: "res_kept (w_res w) (w_res (drop_job jo w1))" if "res_kept (w_res w) (w_res w1)" for jo w1
    by (rule res_kept_trans [OF that res_kept_drop_job])
  show ?thesis using assms by (auto simp: finish_resolve_def Let_def drop split: option.splits if_splits)
qed

lemma store_in_cache_res: "store_in_cache c w = Some w' \<Longrightarrow> w_res w' = w_res w"
  using store_in_cache_trace by blast

lemma asks_io:
  assumes "on_ready os cfg c w = Some x" and "c_want c \<in> {WriteClient, ReadUpstream, WriteUpstream, WantNone}" and "c_state c \<noteq> Resolving"
  shows "asks cfg w x"
proof -
  have fin: "asks cfg w (finish c1 w1)" if "w_res w1 = w_res w" for c1 w1 using asks_finish [of cfg w1 c1] that by (simp add: asks_def)
  have stay: "c_state c1 \<noteq> Resolving \<Longrightarrow> w_res w1 = w_res w \<Longrightarrow> asks cfg w (c1, w1)" for c1 w1 by (simp add: asks_def)
  have connect: "asks cfg w (finish_connect os c w)"
    using stay by (auto simp: finish_connect_def Let_def set_want_def split: prod.splits)
  from assms(2) consider "c_want c = WriteClient" | "c_want c = ReadUpstream" | "c_want c = WriteUpstream" | "c_want c = WantNone" by blast
  then show ?thesis
    using assms(1,3) fin stay connect
    by cases (auto simp: on_ready_def do_write_client_def do_read_upstream_def do_write_upstream_def Let_def set_want_def accumulate_def
      split: bind_splits if_splits io_status.splits dest!: store_in_cache_res)
qed

lemma on_ready_asks:
  assumes "state_ok cfg c w" and "on_ready os cfg c w = Some x"
  shows "asks cfg w x \<or> fst x = c \<and> w_res (snd x) = w_res w"
proof -
  consider "c_state c = ReadingRequest" "c_want c = ReadClient" "c_job c = None" | "c_state c = Resolving" "c_want c = ReadResolver"
    | "c_want c \<in> {WriteClient, ReadUpstream, WriteUpstream, WantNone}" "c_state c \<noteq> Resolving"
    using assms(1) by (cases "c_state c") (auto simp: state_ok_def Let_def)
  then show ?thesis
  proof cases
    case 1
    then show ?thesis using asks_read_client [of os cfg c w x] assms(2) by (simp add: on_ready_def)
  next
    case 2
    then show ?thesis using asks_finish_resolve [of os c w x] assms(2) by (simp add: on_ready_def)
  next
    case 3
    then show ?thesis using asks_io [OF assms(2)] by blast
  qed
qed

text \<open>A connection in the state \<^verbatim>\<open>Resolving\<close> waits for a lookup that is attended.\<close>

definition waiting :: "config \<Rightarrow> connection \<Rightarrow> resolver \<Rightarrow> bool" where
  "waiting cfg c r \<longleftrightarrow> (c_state c = Resolving \<longrightarrow> async_resolve cfg \<and> (\<forall>i. c_job c = Some i \<longrightarrow> attended r i))"

lemma waiting_kept:
  assumes "waiting cfg c r" and "res_kept r r'" and "\<And>i. c_job c = Some i \<Longrightarrow> i < length (r_jobs r)"
  shows "waiting cfg c r'"
  using assms res_kept_attended unfolding waiting_def by blast

lemma waiting_step:
  assumes "state_ok cfg c w" and "on_ready os cfg c w = Some (c', w')" and "waiting cfg c (w_res w)"
  shows "waiting cfg c' (w_res w')" and "res_kept (w_res w) (w_res w')"
  using on_ready_asks [OF assms(1,2)] assms(3)
  by (auto simp: waiting_def asks_def attended_queued)

lemma waiting_worker:
  assumes "resolver_inv E r t" and "worker_step os n r t = Some (r', t')" and "waiting cfg c r"
  shows "waiting cfg c r'"
  using worker_step_attended [OF assms(1,2)] assms(3) unfolding waiting_def by blast

lemma conn_job_id:
  assumes "proxy_inv cfg s" and "p_conns s k = Some c" and "c_job c = Some i"
  shows "i < length (r_jobs (p_res s))"
proof -
  have "held (p_conns s) i = 1" using assms(2,3) by (auto simp: held_def)
  then show ?thesis by (rule resolver_inv_ids [OF proxy_inv_parts(2) [OF assms(1)]])
qed

lemma proxy_waiting:
  assumes os: "fresh_descriptors os" "finite_interrupts os" "bounded_io os"
  shows "proxy_run os cfg s \<Longrightarrow> alive (p_res s) \<and> (\<forall>k c. p_conns s k = Some c \<longrightarrow> waiting cfg c (p_res s))"
proof (induction rule: proxy_run.induct)
  case (run_init caches t n ttl delay)
  show ?case by (cases n) (simp_all add: alive_def new_resolver_def)
next
  case (run_admit s fd k q cid c w)
  then have "c_state c = ReadingRequest" "w_res w = p_res s"
    by (auto simp: new_connection_def init_connection_def)
  then show ?case using run_admit.IH by (auto simp: waiting_def)
next
  case (run_ready s k c q c' w)
  note inv = proxy_run_inv [OF os run_ready.hyps(1)]
  note ids = conn_job_id [OF inv]
  note st = waiting_step [OF focus(2) [OF inv run_ready.hyps(2,3)] run_ready.hyps(4)]
  have "waiting cfg c (p_res s)" using run_ready.IH run_ready.hyps(2) by blast
  then have w: "waiting cfg c' (w_res w)" "res_kept (p_res s) (w_res w)" using st by simp_all
  then show ?case using run_ready.IH waiting_kept [OF _ w(2)] ids res_kept_alive [OF w(2)] by auto
next
  case (run_destroy s k c q)
  note inv = proxy_run_inv [OF os run_destroy.hyps(1)]
  note ids = conn_job_id [OF inv]
  have r: "res_kept (p_res s) (w_res (destroy_connection c (world_of s q)))"
    using res_kept_drop_job [of "world_of s q" "c_job c"] by (simp add: destroy_connection_def Let_def)
  then show ?case using run_destroy.IH waiting_kept [OF _ r] ids res_kept_alive [OF r] by auto
next
  case (run_worker s n r t)
  note inv = proxy_inv_parts(2) [OF proxy_run_inv [OF os run_worker.hyps(1)]]
  show ?case using run_worker.IH waiting_worker [OF inv run_worker.hyps(2)] worker_step_alive(1) [OF run_worker.hyps(2)] by simp
next
  case (run_shutdown s)
  then show ?case by (auto simp: close_resolver_def alive_def waiting_def attended_def claims_def holders_def)
qed auto


section \<open>Every schedule ends\<close>

text \<open>
  One connection and the resolver threads: the next step is a ready event of the connection or a step of
  any thread.
\<close>

inductive serve :: "os \<Rightarrow> config \<Rightarrow> connection \<times> world \<Rightarrow> connection \<times> world \<Rightarrow> bool" for os cfg where
  serve_ready: "woken c w \<Longrightarrow> on_ready os cfg c w = Some x \<Longrightarrow> serve os cfg (c, w) x"
| serve_thread: "worker_step os n (w_res w) (w_trace w) = Some (r, t) \<Longrightarrow> serve os cfg (c, w) (c, w\<lparr>w_res := r, w_trace := t\<rparr>)"

lemma serve_cases:
  assumes "serve os cfg (c, w) y"
  obtains (ready) "woken c w" "on_ready os cfg c w = Some y"
  | (thread) n r t where "y = (c, w\<lparr>w_res := r, w_trace := t\<rparr>)" "worker_step os n (w_res w) (w_trace w) = Some (r, t)"
  using assms by (auto elim: serve.cases)

text \<open>Whatever steps are taken, there is a next one until the connection is done, and it is done after finitely many.\<close>

inductive settles :: "os \<Rightarrow> config \<Rightarrow> connection \<times> world \<Rightarrow> bool" for os cfg where
  settled: "conn_done (fst x) \<Longrightarrow> settles os cfg x"
| settling: "\<exists>y. serve os cfg x y \<Longrightarrow> (\<And>y. serve os cfg x y \<Longrightarrow> settles os cfg y) \<Longrightarrow> settles os cfg x"

lemma worker_conn_frame:
  assumes base: "conn_base cfg F E c w" and ok: "state_ok cfg c w" and step: "worker_step os n (w_res w) (w_trace w) = Some (r, t)"
  shows "conn_base cfg F E c (w\<lparr>w_res := r, w_trace := t\<rparr>)" and "state_ok cfg c (w\<lparr>w_res := r, w_trace := t\<rparr>)"
    and "remaining N c t = remaining N c (w_trace w)" and "resolver_inv (hold E (c_job c)) (w_res w) (w_trace w)"
proof -
  have own: "owned cfg (F \<union> cfds c) E (c_job c) w" using base by (simp add: conn_base_def)
  then have inv: "resolver_inv (hold E (c_job c)) (w_res w) (w_trace w)" and o: "jobs_own (F \<union> cfds c) (w_res w) (w_trace w)"
    and c: "cache_ok cfg w" by (auto simp: owned_def)
  note f = worker_step_frame [OF inv o step]
  have "cache_ok cfg (w\<lparr>w_res := r, w_trace := t\<rparr>)"
    using c from_origin_mono [OF _ f(5)] by (fastforce simp: cache_ok_def split: option.splits)
  then have "owned cfg (F \<union> cfds c) E (c_job c) (w\<lparr>w_res := r, w_trace := t\<rparr>)" using own f(1,3) by (simp add: owned_def)
  then show "conn_base cfg F E c (w\<lparr>w_res := r, w_trace := t\<rparr>)" using base by (simp add: conn_base_def)
  have b: "bytes_kept (cfds c) (w_trace w) t" by (rule bytes_kept_mono [OF bytes_kept_untouched [OF f(2)]]) simp
  show "state_ok cfg c (w\<lparr>w_res := r, w_trace := t\<rparr>)"
    by (rule state_ok_frame [OF ok]) (use b f(4,5) in \<open>auto simp: jobs_kept_def hold_def\<close>)
  show "remaining N c t = remaining N c (w_trace w)"
    using b ok by (cases "c_state c") (auto simp: remaining_def bytes_kept_def cfds_def state_ok_def Let_def)
  show "resolver_inv (hold E (c_job c)) (w_res w) (w_trace w)" by (rule inv)
qed

definition ticking :: "config \<Rightarrow> fd set \<Rightarrow> (job_id \<Rightarrow> nat) \<Rightarrow> connection \<times> world \<Rightarrow> bool" where
  "ticking cfg F E x \<longleftrightarrow>
     (let (c, w) = x in
      conn_base cfg F E c w \<and> state_ok cfg c w \<and> waiting cfg c (w_res w) \<and> alive (w_res w) \<and>
      (async_resolve cfg \<longrightarrow> r_workers (w_res w) \<noteq> []))"

definition distance :: "nat \<Rightarrow> connection \<times> world \<Rightarrow> (nat \<times> nat) \<times> nat" where
  "distance N x = (remaining N (fst x) (w_trace (snd x)), work (w_res (snd x)))"

lemma serve_exists:
  assumes os: "fresh_descriptors os" "finite_interrupts os" "bounded_io os" and inv: "ticking cfg F E (c, w)"
  shows "\<exists>y. serve os cfg (c, w) y"
proof (cases "woken c w")
  case True
  moreover obtain x where "on_ready os cfg c w = Some x"
    using on_ready_good [OF os, of cfg F E c w] inv by (cases "on_ready os cfg c w") (auto simp: ticking_def)
  ultimately show ?thesis by (blast intro: serve_ready)
next
  case False
  then obtain i where "c_state c = Resolving" "c_job c = Some i" "\<not> j_ready (r_jobs (w_res w) ! i)" by (auto simp: woken_def)
  then have "\<exists>k. worker_step os k (w_res w) (w_trace w) \<noteq> None"
    using inv by (intro attended_enabled) (auto simp: waiting_def ticking_def)
  then show ?thesis by (fastforce intro: serve_thread)
qed

lemma serve_nearer:
  assumes os: "fresh_descriptors os" "finite_interrupts os" "bounded_io os" "progressing os N" and inv: "ticking cfg F E (c, w)"
    and step: "serve os cfg (c, w) y" and st: "\<not> conn_done c"
  shows "ticking cfg F E y" and "conn_done (fst y) \<or> (distance N y, distance N (c, w)) \<in> closer <*lex*> less_than"
proof -
  have i: "conn_base cfg F E c w" "state_ok cfg c w" "waiting cfg c (w_res w)" "alive (w_res w)"
    "async_resolve cfg \<longrightarrow> r_workers (w_res w) \<noteq> []" using inv by (auto simp: ticking_def)
  have "ticking cfg F E y \<and> (conn_done (fst y) \<or> (distance N y, distance N (c, w)) \<in> closer <*lex*> less_than)"
    using step
  proof (cases rule: serve_cases)
    case ready
    obtain c1 w1 where y: "y = (c1, w1)" by fastforce
    have "good cfg F E w (c1, w1)" using on_ready_good [OF os(1-3) i(1,2)] ready(2) y by simp
    moreover note k = waiting_step [OF i(2) ready(2) [unfolded y] i(3)]
    moreover have "r_workers (w_res w1) = r_workers (w_res w)" using k(2) by (simp add: res_kept_def)
    moreover have "conn_done c1 \<or> (remaining N c1 (w_trace w1), remaining N c (w_trace w)) \<in> closer"
      using on_ready_nearer [OF os i(1,2) ready(1) st] ready(2) y by simp
    ultimately show ?thesis
      using res_kept_alive [OF k(2) i(4)] i(5) by (auto simp: y ticking_def distance_def good_def)
  next
    case (thread n r t)
    note f = worker_conn_frame [OF i(1,2) thread(2)]
    show ?thesis
      using f(1,2) f(3) [of N] waiting_worker [OF f(4) thread(2) i(3)] worker_step_alive [OF thread(2) i(4)] i(5)
        worker_step_work [OF thread(2)]
      by (simp add: thread(1) ticking_def distance_def)
  qed
  then show "ticking cfg F E y" "conn_done (fst y) \<or> (distance N y, distance N (c, w)) \<in> closer <*lex*> less_than" by blast+
qed

lemma conn_settles:
  assumes os: "fresh_descriptors os" "finite_interrupts os" "bounded_io os" "progressing os N"
  shows "ticking cfg F E x \<Longrightarrow> settles os cfg x"
proof (induction "distance N x" arbitrary: x
    rule: wf_induct_rule [OF wf_lex_prod [OF wf_lex_prod [OF wf_less_than wf_less_than] wf_less_than]])
  case (1 x)
  obtain c w where x: "x = (c, w)" by fastforce
  show ?case
  proof (cases "conn_done c")
    case True
    then show ?thesis by (intro settled) (simp add: x)
  next
    case False
    note near = serve_nearer [OF os 1(2) [unfolded x] _ False]
    show ?thesis
      unfolding x
      by (rule settling [OF serve_exists [OF os(1-3) 1(2) [unfolded x]]])
         (use near 1(1) [unfolded x] settled in blast)
  qed
qed

text \<open>
  C9. No connection hangs by the proxy's own doing. Suppose every read yields bytes or the end of a
  stream of bounded length and every write takes at least one byte, and resolver threads exist when
  resolution is asynchronous. Then from any reachable state, however the ready events of a connection
  are interleaved with the steps of the resolver threads, one of them is possible until the connection is
  done, and after finitely many it is. A connection that waits for a lookup is woken once that lookup is
  ready.
\<close>

theorem connection_finishes:
  assumes "fresh_descriptors os" and "finite_interrupts os" and "bounded_io os" and "progressing os N"
    and "proxy_run os cfg s" and "p_conns s k = Some c" and "q < length (p_caches s)"
    and "async_resolve cfg \<longrightarrow> r_workers (p_res s) \<noteq> []"
  shows "settles os cfg (c, world_of s q)"
  using conn_settles [OF assms(1-4)] focus [OF proxy_run_inv [OF assms(1-3,5)] assms(6,7)]
    proxy_waiting [OF assms(1-3,5)] assms(6,8) by (auto simp: ticking_def)

lemma demo_progressing: "progressing demo_kernel 27"
proof -
  have "take len (drop n (demo_script fd)) = [] \<or> n + length (take len (drop n (demo_script fd))) \<le> 27" for len n fd
    by (auto simp: demo_script_def plain_lengths)
  then show ?thesis by (auto simp: progressing_def demo_os_def)
qed

theorem connection_finishes_witness:
  "settles demo_kernel default_config (init_connection 3 0, (demo_world None)\<lparr>w_res := new_resolver 1 60 0\<rparr>)"
proof -
  let ?w = "(demo_world None)\<lparr>w_res := new_resolver 1 60 0\<rparr>"
  have run: "proxy_run demo_kernel default_config (demo_state (init_connection 3 0) ?w)" by (rule demo_admitted_pool) simp
  show ?thesis
    using connection_finishes [OF demo_os_hypotheses(1,3,2) demo_progressing run, of 0 "init_connection 3 0" 0]
    by (simp add: demo_state_def new_resolver_def world_of_def demo_world_def)
qed

end
