(* ===== verification/Backend.thy ===== *)
theory Backend
  imports Proxy "HOL-Library.Multiset"
begin

text \<open>
  What the three backends share (\<^verbatim>\<open>src/src/backend/backend.hpp\<close>): each is a system of threads whose
  steps are taken in any order, and each drives connections by steps of the process described in
  theory \<open>Proxy\<close>. The locale \<open>proxy_backend\<close> states that contract as a simulation. The loop that serves one
  connection on a thread of its own, the same text in the thread-per-connection backend and in the
  thread pool, is \<open>serve_step\<close>.
\<close>

section \<open>Systems of threads\<close>

inductive reaches :: "('s \<Rightarrow> bool) \<Rightarrow> ('a \<Rightarrow> 's \<Rightarrow> 's option) \<Rightarrow> 's \<Rightarrow> bool" for init step where
  reaches_init: "init s \<Longrightarrow> reaches init step s"
| reaches_step: "reaches init step s \<Longrightarrow> step a s = Some s' \<Longrightarrow> reaches init step s'"

fun run_schedule :: "('a \<Rightarrow> 's \<Rightarrow> 's option) \<Rightarrow> 'a list \<Rightarrow> 's \<Rightarrow> 's option" where
  "run_schedule step [] s = Some s"
| "run_schedule step (a # as) s = (case step a s of None \<Rightarrow> None | Some s' \<Rightarrow> run_schedule step as s')"

lemma reaches_schedule:
  "reaches init step s \<Longrightarrow> run_schedule step as s = Some s' \<Longrightarrow> reaches init step s'"
  by (induction as arbitrary: s) (auto split: option.splits intro: reaches_step)

locale proxy_backend =
  fixes init :: "os \<Rightarrow> config \<Rightarrow> 's \<Rightarrow> bool"
    and step :: "os \<Rightarrow> config \<Rightarrow> 'a \<Rightarrow> 's \<Rightarrow> 's option"
    and models :: "config \<Rightarrow> 's \<Rightarrow> 'k proxy \<Rightarrow> bool"
  assumes init_models: "init os cfg s \<Longrightarrow> \<exists>p. models cfg s p \<and> proxy_run os cfg p"
    and step_models: "fresh_descriptors os \<Longrightarrow> finite_interrupts os \<Longrightarrow> bounded_io os \<Longrightarrow>
      models cfg s p \<Longrightarrow> proxy_run os cfg p \<Longrightarrow> step os cfg a s = Some s' \<Longrightarrow> \<exists>p'. models cfg s' p' \<and> proxy_run os cfg p'"
begin

lemma simulated:
  assumes os: "fresh_descriptors os" "finite_interrupts os" "bounded_io os" and "reaches (init os cfg) (step os cfg) s"
  shows "\<exists>p. models cfg s p \<and> proxy_run os cfg p"
  using assms(4)
proof (induction rule: reaches.induct)
  case (reaches_init s)
  then show ?case by (rule init_models)
next
  case (reaches_step s a s')
  then show ?case using step_models [OF os] by blast
qed

lemma models_inv:
  assumes os: "fresh_descriptors os" "finite_interrupts os" "bounded_io os" and "reaches (init os cfg) (step os cfg) s"
  obtains p where "models cfg s p" and "proxy_run os cfg p" and "proxy_inv cfg p"
  using simulated [OF assms] proxy_run_inv [OF os] by blast

end


section \<open>Small steps of the process\<close>

lemma run_quiet:
  assumes "proxy_run os cfg s" and q: "only_events quiet (p_trace s) t"
  shows "proxy_run os cfg (s\<lparr>p_trace := t\<rparr>)"
proof -
  have "proxy_run os cfg (s\<lparr>p_trace := t, p_other := p_other s - {} \<union> {}\<rparr>)"
    using only_events_quiet [OF q] only_events_suffix [OF q]
    by (intro run_other [OF assms(1)]) (auto intro!: bytes_kept_untouched)
  then show ?thesis by simp
qed

lemma run_accept_failed:
  assumes os: "finite_interrupts os" "fresh_descriptors os" and s: "proxy_run os cfg s"
    and eq: "accept_one os l (p_trace s) = Some ((st, fd), t)" and st: "st \<noteq> AcceptOk"
  shows "proxy_run os cfg (s\<lparr>p_trace := t\<rparr>)"
proof -
  have "untouched (open_fds (p_trace s)) (p_trace s) t" "open_fds t = open_fds (p_trace s)"
    by (rule accept_one_effect [OF os, of l "p_trace s"], use eq st in auto)+
  then have "proxy_run os cfg (s\<lparr>p_trace := t, p_other := p_other s - {} \<union> {}\<rparr>)"
    using accept_one_suffix [OF os(1) eq] by (intro run_other [OF s]) (auto intro!: bytes_kept_untouched)
  then show ?thesis by simp
qed

lemma accept_fresh:
  assumes os: "finite_interrupts os" "fresh_descriptors os" and inv: "proxy_inv cfg s"
    and eq: "accept_one os l (p_trace s) = Some ((AcceptOk, fd), t)"
  shows "fd \<notin> p_accepted s" and "0 \<le> fd"
proof -
  have "fd \<notin> open_fds (p_trace s)" "0 \<le> fd" by (rule accept_one_effect [OF os, of l "p_trace s"], use eq in auto)+
  then show "fd \<notin> p_accepted s" "0 \<le> fd" using proxy_inv_parts(5) [OF inv] by auto
qed

lemma set_world_same: "q < length (p_caches s) \<Longrightarrow> set_world q (world_of s q) s = s"
  by (simp add: set_world_def world_of_def)

lemma set_world_trace: "q < length (p_caches s) \<Longrightarrow> set_world q ((world_of s q)\<lparr>w_trace := t\<rparr>) s = s\<lparr>p_trace := t\<rparr>"
  by (simp add: set_world_def world_of_def)


section \<open>Descriptors in the hands of threads\<close>

text \<open>Accepted descriptors travel through queues and local variables. Each is in one place only.\<close>

lemma mset_concat_update:
  assumes "i < length xs"
  shows "mset (concat (map f (xs[i := x]))) + mset (f (xs ! i)) = mset (concat (map f xs)) + mset (f x)"
proof -
  have "xs = take i xs @ xs ! i # drop (Suc i) xs" by (rule id_take_nth_drop [OF assms])
  then have "mset (concat (map f xs)) = mset (concat (map f (take i xs))) + mset (f (xs ! i)) + mset (concat (map f (drop (Suc i) xs)))"
    by (metis concat.simps(2) concat_append list.simps(9) map_append mset_append union_assoc)
  then show ?thesis using assms by (simp add: upd_conv_take_nth_drop)
qed

lemma distinct_moved: "mset ys = mset xs \<Longrightarrow> distinct xs \<Longrightarrow> set ys = set xs \<and> distinct ys"
  using mset_eq_setD mset_eq_imp_distinct_iff by blast

lemma distinct_taken:
  assumes "mset xs = add_mset x (mset ys)" and "distinct xs"
  shows "distinct ys" and "x \<in> set xs" and "set ys = set xs - {x}"
proof -
  have "mset xs = mset (x # ys)" using assms(1) by simp
  then have d: "distinct (x # ys)" and e: "set xs = set (x # ys)" using assms(2) mset_eq_imp_distinct_iff mset_eq_setD by blast+
  then show "distinct ys" "x \<in> set xs" "set ys = set xs - {x}" by auto
qed

lemma distinct_given:
  assumes "mset ys = add_mset x (mset xs)" and "distinct xs" and "x \<notin> set xs"
  shows "distinct ys" and "set ys = insert x (set xs)"
proof -
  have "mset ys = mset (x # xs)" using assms(1) by simp
  then have "distinct ys = distinct (x # xs)" "set ys = set (x # xs)" using mset_eq_imp_distinct_iff mset_eq_setD by blast+
  then show "distinct ys" "set ys = insert x (set xs)" using assms(2,3) by simp_all
qed


section \<open>Serving one connection on a thread\<close>

datatype serving = ServeTop | ServeReady | ServeLeave

definition serve_step :: "os \<Rightarrow> config \<Rightarrow> serving \<Rightarrow> connection \<Rightarrow> world \<Rightarrow> (serving \<times> connection \<times> world) option" where
  "serve_step os cfg pc c w =
     (case pc of
        ServeTop \<Rightarrow>
          if conn_done c then Some (ServeLeave, c, w)
          else
            let fd = want_fd c w in
            if fd < 0 then Some (ServeLeave, c, w)
            else do {
              (ready, t) \<leftarrow> wait_ready os fd (want_write c) (poll_timeout_ms cfg) (w_trace w);
              Some (if ready then ServeReady else ServeLeave, c, w\<lparr>w_trace := t\<rparr>)
            }
      | ServeReady \<Rightarrow> do { (c', w') \<leftarrow> on_ready os cfg c w; Some (ServeTop, c', w') }
      | ServeLeave \<Rightarrow> None)"

lemma serve_step_cases:
  assumes "finite_interrupts os" and "serve_step os cfg pc c w = Some (pc', c', w')"
  obtains (poll) t where "pc = ServeTop" "c' = c" "w' = w\<lparr>w_trace := t\<rparr>" "only_events quiet (w_trace w) t"
  | (ready) "pc = ServeReady" "pc' = ServeTop" "on_ready os cfg c w = Some (c', w')"
proof (cases pc)
  case ServeTop
  obtain b t where wr: "wait_ready os (want_fd c w) (want_write c) (poll_timeout_ms cfg) (w_trace w) = Some (b, t)"
    "only_events quiet (w_trace w) t"
    by (rule wait_ready_effect [OF assms(1)])
  show ?thesis
    using assms(2) wr poll [OF ServeTop, of t] poll [OF ServeTop, of "w_trace w"] by (auto simp: serve_step_def ServeTop Let_def split: if_splits)
next
  case ServeReady
  then show ?thesis using assms(2) ready by (auto simp: serve_step_def split: bind_splits)
qed (use assms(2) in \<open>simp add: serve_step_def\<close>)

lemma serve_step_run:
  assumes "finite_interrupts os" and s: "proxy_run os cfg s" "p_conns s k = Some c" "q < length (p_caches s)"
    and "serve_step os cfg pc c (world_of s q) = Some (pc', c', w)"
  shows "proxy_run os cfg (set_world q w (s\<lparr>p_conns := (p_conns s)(k \<mapsto> c')\<rparr>))"
  using assms(1,5)
proof (cases rule: serve_step_cases)
  case (poll t)
  have "s\<lparr>p_conns := (p_conns s)(k \<mapsto> c')\<rparr> = s" using s(2) poll(2) by (simp add: fun_upd_idem)
  moreover have "proxy_run os cfg (s\<lparr>p_trace := t\<rparr>)" using run_quiet [OF s(1)] poll(4) by simp
  ultimately show ?thesis by (simp only: poll(3) set_world_trace [OF s(3)])
next
  case ready
  then show ?thesis by (intro run_ready [OF s])
qed

lemma serve_step_returns:
  assumes os: "fresh_descriptors os" "finite_interrupts os" "bounded_io os" and inv: "proxy_inv cfg s"
    and s: "p_conns s k = Some c" "q < length (p_caches s)" and pc: "pc \<noteq> ServeLeave"
  shows "serve_step os cfg pc c (world_of s q) \<noteq> None"
proof (cases pc)
  case ServeTop
  obtain b t where "wait_ready os (want_fd c (world_of s q)) (want_write c) (poll_timeout_ms cfg) (w_trace (world_of s q)) = Some (b, t)"
    by (rule wait_ready_effect [OF os(2)])
  then show ?thesis by (simp add: serve_step_def ServeTop Let_def)
next
  case ServeReady
  obtain c' w where "on_ready os cfg c (world_of s q) = Some (c', w)" by (rule inv_ready [OF os inv s])
  then show ?thesis by (simp add: serve_step_def ServeReady)
qed (use pc in simp)

end
