(* ===== verification/Conn_Queue.thy ===== *)
theory Conn_Queue
  imports Socket
begin

text \<open>
  Model of \<^verbatim>\<open>src/src/conn_queue.hpp\<close> and \<^verbatim>\<open>src/src/conn_queue.cpp\<close>: the bounded queue between the
  acceptor and the workers of the thread pool. Every operation runs under the mutex, and a wait on a
  condition variable leaves it only with the predicate true (or, for \<^verbatim>\<open>push_for\<close>, after the timeout), so
  each call takes effect at one instant. A call whose predicate is false at that instant is still
  blocked: the result is \<open>None\<close> and nothing changes. The locale \<open>handoff\<close> is the contract of this
  queue and of the inbox of an event-loop shard.
\<close>

section \<open>The contract of a hand-off queue\<close>

datatype 'a handoff_op = Put 'a | Take | Close

locale handoff =
  fixes contents :: "'q \<Rightarrow> 'a list"
    and put :: "'a \<Rightarrow> 'q \<Rightarrow> 'q option"
    and take_some :: "'q \<Rightarrow> 'a list \<times> 'q"
    and close_it :: "'q \<Rightarrow> 'q"
  assumes put_contents: "put x q = Some q' \<Longrightarrow> contents q' = contents q @ [x]"
    and take_contents: "take_some q = (xs, q') \<Longrightarrow> contents q = xs @ contents q'"
    and take_progress: "take_some q = ([], q') \<Longrightarrow> contents q = []"
    and close_contents: "contents (close_it q) = contents q"
begin

text \<open>A sequence of operations: what went in (refused items left out), what came out, and the queue.\<close>

fun exchange :: "'a handoff_op list \<Rightarrow> 'q \<Rightarrow> 'a list \<times> 'a list \<times> 'q" where
  "exchange [] q = ([], [], q)"
| "exchange (Put x # ops) q =
     (case put x q of
        None \<Rightarrow> exchange ops q
      | Some q' \<Rightarrow> let (ins, outs, q'') = exchange ops q' in (x # ins, outs, q''))"
| "exchange (Take # ops) q =
     (let (xs, q') = take_some q; (ins, outs, q'') = exchange ops q' in (ins, xs @ outs, q''))"
| "exchange (Close # ops) q = exchange ops (close_it q)"

lemma exchange_order: "exchange ops q = (ins, outs, q') \<Longrightarrow> contents q @ ins = outs @ contents q'"
proof (induction ops arbitrary: q ins outs)
  case (Cons op ops)
  show ?case
  proof (cases op)
    case (Put x)
    show ?thesis
    proof (cases "put x q")
      case None
      then show ?thesis using Cons Put by simp
    next
      case (Some q1)
      obtain ins1 where "ins = x # ins1" "exchange ops q1 = (ins1, outs, q')"
        using Cons.prems Put Some by (auto split: prod.splits)
      then show ?thesis using Cons.IH [of q1] put_contents [OF Some] by simp
    qed
  next
    case Take
    obtain xs q1 outs1 where t: "take_some q = (xs, q1)" "exchange ops q1 = (ins, outs1, q')" "outs = xs @ outs1"
      using Cons.prems Take by (auto split: prod.splits)
    then show ?thesis using Cons.IH [of q1] take_contents [OF t(1)] by simp
  next
    case Close
    then show ?thesis using Cons.IH [of "close_it q"] Cons.prems close_contents by simp
  qed
qed simp

text \<open>What every operation keeps, every sequence keeps.\<close>

lemma exchange_keeps:
  assumes "\<And>x q q'. I q \<Longrightarrow> put x q = Some q' \<Longrightarrow> I q'" and "\<And>q xs q'. I q \<Longrightarrow> take_some q = (xs, q') \<Longrightarrow> I q'"
    and "\<And>q. I q \<Longrightarrow> I (close_it q)"
  shows "I q \<Longrightarrow> exchange ops q = (ins, outs, q') \<Longrightarrow> I q'"
proof (induction ops arbitrary: q ins outs)
  case (Cons op ops)
  show ?case
  proof (cases op)
    case (Put x)
    show ?thesis
    proof (cases "put x q")
      case None
      then show ?thesis using Cons Put by simp
    next
      case (Some q1)
      obtain ins1 where "exchange ops q1 = (ins1, outs, q')" using Cons.prems(2) Put Some by (auto split: prod.splits)
      then show ?thesis by (rule Cons.IH [OF assms(1) [OF Cons.prems(1) Some]])
    qed
  next
    case Take
    obtain xs q1 outs1 where t: "take_some q = (xs, q1)" "exchange ops q1 = (ins, outs1, q')"
      using Cons.prems(2) Take by (auto split: prod.splits)
    show ?thesis by (rule Cons.IH [OF assms(2) [OF Cons.prems(1) t(1)] t(2)])
  next
    case Close
    then show ?thesis using Cons.IH [OF assms(3) [OF Cons.prems(1)]] Cons.prems(2) by simp
  qed
qed simp

text \<open>Enough takes empty the queue.\<close>

lemma takes_drain:
  "length (contents q) \<le> n \<Longrightarrow> \<exists>q'. exchange (replicate n Take) q = ([], contents q, q') \<and> contents q' = []"
proof (induction n arbitrary: q)
  case (Suc n)
  obtain xs q1 where t: "take_some q = (xs, q1)" by (cases "take_some q")
  have len: "length (contents q1) \<le> n"
    using take_contents [OF t] take_progress [of q q1] t Suc.prems by (cases xs) auto
  from Suc.IH [OF this] obtain q' where "exchange (replicate n Take) q1 = ([], contents q1, q')" "contents q' = []" by blast
  then show ?case using t take_contents [OF t] by simp
qed simp

end


section \<open>The queue\<close>

datatype push_status = Pushed | TimedOut | QueueClosed

record conn_queue =
  q_queue :: "fd list"
  q_capacity :: size_t
  q_closed :: bool

definition new_conn_queue :: "size_t \<Rightarrow> conn_queue" where
  "new_conn_queue capacity = \<lparr>q_queue = [], q_capacity = (if capacity \<noteq> 0 then capacity else 1), q_closed = False\<rparr>"

definition push_for :: "bool \<Rightarrow> fd \<Rightarrow> conn_queue \<Rightarrow> (push_status \<times> fd \<times> conn_queue) option" where
  "push_for expired fd q =
     (let ready = (q_closed q \<or> length (q_queue q) < q_capacity q) in
      if \<not> ready \<and> \<not> expired then None
      else if q_closed q then Some (QueueClosed, fd, q)
      else if \<not> ready then Some (TimedOut, fd, q)
      else Some (Pushed, -1, q\<lparr>q_queue := q_queue q @ [fd]\<rparr>))"

definition pop :: "fd \<Rightarrow> conn_queue \<Rightarrow> trace \<Rightarrow> (bool \<times> fd \<times> conn_queue \<times> trace) option" where
  "pop out q t =
     (if \<not> (q_closed q \<or> q_queue q \<noteq> []) then None
      else case q_queue q of
        [] \<Rightarrow> Some (False, out, q, t)
      | fd # rest \<Rightarrow> let (out', t') = fd_reset out fd t in Some (True, out', q\<lparr>q_queue := rest\<rparr>, t'))"

definition close_queue :: "conn_queue \<Rightarrow> conn_queue" where
  "close_queue q = (if q_closed q then q else q\<lparr>q_closed := True\<rparr>)"

definition depth :: "conn_queue \<Rightarrow> size_t" where
  "depth q = length (q_queue q)"


section \<open>What the pool relies on\<close>

definition queue_ok :: "conn_queue \<Rightarrow> bool" where
  "queue_ok q \<longleftrightarrow> 0 < q_capacity q \<and> depth q \<le> q_capacity q"

lemma new_conn_queue_ok [simp]: "queue_ok (new_conn_queue n)"
  by (simp add: queue_ok_def new_conn_queue_def depth_def)

lemma close_queue_fields [simp]:
  "q_queue (close_queue q) = q_queue q" "q_capacity (close_queue q) = q_capacity q" "q_closed (close_queue q)"
  by (simp_all add: close_queue_def)

lemma close_queue_ok [simp]: "queue_ok (close_queue q) = queue_ok q"
  by (simp add: queue_ok_def depth_def)

lemma push_for_cases:
  assumes "push_for expired fd q = Some (st, fd', q')"
  obtains (pushed) "st = Pushed" "\<not> q_closed q" "length (q_queue q) < q_capacity q" "fd' = -1" "q' = q\<lparr>q_queue := q_queue q @ [fd]\<rparr>"
  | (closed) "st = QueueClosed" "q_closed q" "fd' = fd" "q' = q"
  | (full) "st = TimedOut" "\<not> q_closed q" "q_capacity q \<le> length (q_queue q)" "expired" "fd' = fd" "q' = q"
  using assms by (auto simp: push_for_def Let_def split: if_splits)

lemma push_for_ok: "queue_ok q \<Longrightarrow> push_for expired fd q = Some (st, fd', q') \<Longrightarrow> queue_ok q'"
  by (erule push_for_cases) (simp_all add: queue_ok_def depth_def)

lemma pop_cases:
  assumes "pop (-1) q t = Some (ok, fd, q', t')"
  obtains (item) rest where "ok" "q_queue q = fd # rest" "q' = q\<lparr>q_queue := rest\<rparr>" "t' = t"
  | (ended) "\<not> ok" "q_closed q" "q_queue q = []" "q' = q" "t' = t"
proof (cases "q_queue q")
  case Nil
  then show ?thesis using assms ended by (simp add: pop_def split: if_splits)
next
  case (Cons x rest)
  then show ?thesis using assms item [of rest] by (simp add: pop_def fd_reset_def)
qed

lemma pop_ok: "queue_ok q \<Longrightarrow> pop (-1) q t = Some (ok, fd, q', t') \<Longrightarrow> queue_ok q'"
  by (erule pop_cases) (simp_all add: queue_ok_def depth_def)

text \<open>The queue as a hand-off: a push that returns something else than \<open>Pushed\<close> changes nothing.\<close>

definition cq_put :: "fd \<Rightarrow> conn_queue \<Rightarrow> conn_queue option" where
  "cq_put fd q = (case push_for True fd q of Some (Pushed, _, q') \<Rightarrow> Some q' | _ \<Rightarrow> None)"

definition cq_take :: "conn_queue \<Rightarrow> fd list \<times> conn_queue" where
  "cq_take q = (case pop (-1) q [] of Some (True, fd, q', _) \<Rightarrow> ([fd], q') | _ \<Rightarrow> ([], q))"

lemma cq_put_cases: "cq_put x q = Some q' \<longleftrightarrow> \<not> q_closed q \<and> length (q_queue q) < q_capacity q \<and> q' = q\<lparr>q_queue := q_queue q @ [x]\<rparr>"
  by (auto simp: cq_put_def push_for_def Let_def)

lemma cq_take_cases: "cq_take q = (case q_queue q of [] \<Rightarrow> ([], q) | fd # rest \<Rightarrow> ([fd], q\<lparr>q_queue := rest\<rparr>))"
  by (simp add: cq_take_def pop_def fd_reset_def split: list.splits)

interpretation cq: handoff q_queue cq_put cq_take close_queue
  by unfold_locales (auto simp: cq_put_cases cq_take_cases split: list.splits)

text \<open>
  C31. Whatever the producer and the workers do to the queue, and whenever it is closed, clients leave it in the
  order in which they were accepted, none lost and none twice, and never more of them wait than the
  capacity (at least one).
\<close>

theorem conn_queue_fifo:
  assumes "cq.exchange ops (new_conn_queue n) = (ins, outs, q)"
  shows "ins = outs @ q_queue q \<and> depth q \<le> max 1 n"
proof -
  define I where "I q \<longleftrightarrow> queue_ok q \<and> q_capacity q = max 1 n" for q
  have "I (new_conn_queue n)" by (simp add: I_def new_conn_queue_def queue_ok_def depth_def)
  moreover have "I q \<Longrightarrow> cq_put x q = Some q' \<Longrightarrow> I q'" for x q q' by (auto simp: I_def cq_put_cases queue_ok_def depth_def)
  moreover have "I q \<Longrightarrow> cq_take q = (xs, q') \<Longrightarrow> I q'" for q xs q'
    by (auto simp: I_def cq_take_cases queue_ok_def depth_def split: list.splits)
  moreover have "I q \<Longrightarrow> I (close_queue q)" for q by (simp add: I_def)
  ultimately have "I q" using cq.exchange_keeps [of I, OF _ _ _ _ assms] by blast
  then show ?thesis using cq.exchange_order [OF assms] by (simp add: I_def queue_ok_def new_conn_queue_def)
qed

theorem conn_queue_fifo_witness:
  "\<exists>q. cq.exchange [Put 7, Put 8, Put 9, Take, Put 9, Close, Put 10, Take] (new_conn_queue 2) = ([7, 8, 9], [7, 8], q) \<and>
     [7, 8, 9] = [7, 8] @ q_queue q \<and> depth q \<le> 2"
proof -
  obtain q where "cq.exchange [Put 7, Put 8, Put 9, Take, Put 9, Close, Put 10, Take] (new_conn_queue 2) = ([7, 8, 9], [7, 8], q)"
    by (simp add: cq_put_def push_for_def cq_take_def pop_def fd_reset_def new_conn_queue_def close_queue_def)
  with conn_queue_fifo [OF this] show ?thesis by auto
qed

end
