(* ===== verification/Pool_Backend.thy ===== *)
theory Pool_Backend
  imports Backend Conn_Queue
begin

text \<open>
  Model of \<^verbatim>\<open>src/src/backend/thread_pool.cpp\<close>. The thread that called \<^verbatim>\<open>run\<close> accepts and pushes; the
  workers pop and serve. Each is a program counter with its local variables, and a step runs it from
  one access to shared state to the next; the scheduler picks who moves. A step is \<open>None\<close> while the thread is
  blocked and after it has returned. Log messages are left out.
\<close>

section \<open>State\<close>

text \<open>The thread in \<^verbatim>\<open>run\<close>: the head of the accept loop, the accept call, the retry loop with the accepted
  client, then closing the queue, joining, and the return.\<close>

datatype acceptor = AccTop | AccAccept | AccPush fd | AccClose | AccJoin | AccReturned

datatype pool_worker = WkPop | WkNew fd | WkServe serving connection | WkExit

record pool =
  tp_trace :: trace
  tp_res :: resolver
  tp_cache :: "lru option"
  tp_queue :: conn_queue
  tp_listener :: fd
  tp_stop :: bool
  tp_next_id :: uint64
  tp_accepted :: uint64
  tp_acceptor :: acceptor
  tp_workers :: "pool_worker list"

definition pool_start :: "os \<Rightarrow> config \<Rightarrow> fd \<Rightarrow> world \<Rightarrow> pool" where
  "pool_start os cfg listener w =
     \<lparr>tp_trace = snd (set_nonblocking os listener (w_trace w)), tp_res = w_res w, tp_cache = w_cache w,
      tp_queue = new_conn_queue (job_queue_capacity cfg), tp_listener = listener, tp_stop = False, tp_next_id = 0,
      tp_accepted = 0, tp_acceptor = AccTop,
      tp_workers = replicate (if thread_pool_size cfg \<noteq> 0 then thread_pool_size cfg else 1) WkPop\<rparr>"

definition pool_world :: "pool \<Rightarrow> world" where
  "pool_world p = \<lparr>w_trace = tp_trace p, w_res = tp_res p, w_cache = tp_cache p\<rparr>"

definition set_pool_world :: "world \<Rightarrow> pool \<Rightarrow> pool" where
  "set_pool_world w p = p\<lparr>tp_trace := w_trace w, tp_res := w_res w, tp_cache := w_cache w\<rparr>"


section \<open>Threads\<close>

definition pool_accept_step :: "os \<Rightarrow> bool \<Rightarrow> pool \<Rightarrow> pool option" where
  "pool_accept_step os expired p =
     (case tp_acceptor p of
        AccTop \<Rightarrow>
          if tp_stop p then Some (p\<lparr>tp_acceptor := AccClose\<rparr>)
          else do {
            (ready, t) \<leftarrow> wait_ready os (tp_listener p) False 200 (tp_trace p);
            Some (p\<lparr>tp_trace := t, tp_acceptor := (if ready then AccAccept else AccTop)\<rparr>)
          }
      | AccAccept \<Rightarrow> do {
          ((st, fd), t) \<leftarrow> accept_one os (tp_listener p) (tp_trace p);
          if st = AcceptOk then Some (p\<lparr>tp_trace := t, tp_accepted := tp_accepted p + 1, tp_acceptor := AccPush fd\<rparr>)
          else Some (p\<lparr>tp_trace := t, tp_acceptor := AccTop\<rparr>)
        }
      | AccPush fd \<Rightarrow> do {
          (st, fd', q) \<leftarrow> push_for expired fd (tp_queue p);
          let p1 = p\<lparr>tp_queue := q\<rparr>;
          (case st of
             Pushed \<Rightarrow> Some (p1\<lparr>tp_trace := fd_destroy fd' (tp_trace p1), tp_acceptor := AccTop\<rparr>)
           | QueueClosed \<Rightarrow> Some (p1\<lparr>tp_trace := fd_destroy fd' (tp_trace p1), tp_acceptor := AccClose\<rparr>)
           | TimedOut \<Rightarrow>
               if tp_stop p1 then Some (p1\<lparr>tp_trace := fd_destroy fd' (tp_trace p1), tp_acceptor := AccClose\<rparr>)
               else Some (p1\<lparr>tp_acceptor := AccPush fd'\<rparr>))
        }
      | AccClose \<Rightarrow> Some (p\<lparr>tp_queue := close_queue (tp_queue p), tp_acceptor := AccJoin\<rparr>)
      | AccJoin \<Rightarrow> if list_all (\<lambda>wk. wk = WkExit) (tp_workers p) then Some (p\<lparr>tp_acceptor := AccReturned\<rparr>) else None
      | AccReturned \<Rightarrow> None)"

definition pool_worker_step :: "os \<Rightarrow> config \<Rightarrow> nat \<Rightarrow> pool \<Rightarrow> pool option" where
  "pool_worker_step os cfg i p =
     (if length (tp_workers p) \<le> i then None
      else case tp_workers p ! i of
        WkPop \<Rightarrow> do {
          (ok, client, q, t) \<leftarrow> pop (-1) (tp_queue p) (tp_trace p);
          Some (p\<lparr>tp_queue := q, tp_trace := t, tp_workers := (tp_workers p)[i := (if ok then WkNew client else WkExit)]\<rparr>)
        }
      | WkNew client \<Rightarrow>
          let (c, w) = new_connection os client (tp_next_id p) (pool_world p) in
          Some ((set_pool_world w p)\<lparr>tp_next_id := tp_next_id p + 1, tp_workers := (tp_workers p)[i := WkServe ServeTop c]\<rparr>)
      | WkServe pc c \<Rightarrow>
          if pc = ServeLeave then
            Some ((set_pool_world (destroy_connection c (pool_world p)) p)\<lparr>tp_workers := (tp_workers p)[i := WkPop]\<rparr>)
          else do {
            (pc', c', w) \<leftarrow> serve_step os cfg pc c (pool_world p);
            Some ((set_pool_world w p)\<lparr>tp_workers := (tp_workers p)[i := WkServe pc' c']\<rparr>)
          }
      | WkExit \<Rightarrow> None)"

text \<open>Who moves: \<^verbatim>\<open>stop\<close> called by the signal handler, the accepting thread (told whether its wait for
  space has run out), a worker, a resolver thread.\<close>

datatype pool_action = PoolStop | PoolAccept bool | PoolWorker nat | PoolResolver nat

definition pool_step :: "os \<Rightarrow> config \<Rightarrow> pool_action \<Rightarrow> pool \<Rightarrow> pool option" where
  "pool_step os cfg a p =
     (case a of
        PoolStop \<Rightarrow> Some (p\<lparr>tp_stop := True\<rparr>)
      | PoolAccept expired \<Rightarrow> pool_accept_step os expired p
      | PoolWorker i \<Rightarrow> pool_worker_step os cfg i p
      | PoolResolver n \<Rightarrow> do {
          (r, t) \<leftarrow> worker_step os n (tp_res p) (tp_trace p);
          Some (p\<lparr>tp_res := r, tp_trace := t\<rparr>)
        })"

text \<open>The process as \<^verbatim>\<open>main\<close> sets it up before it calls \<^verbatim>\<open>run\<close>, with the descriptors \<open>F\<close> open.\<close>

definition pool_init :: "fd set \<Rightarrow> os \<Rightarrow> config \<Rightarrow> pool \<Rightarrow> bool" where
  "pool_init F os cfg p \<longleftrightarrow>
     (\<exists>listener t n ttl delay cache. open_fds t = F \<and> cache \<in> {None, Some (make_cache cfg)} \<and>
        p = pool_start os cfg listener \<lparr>w_trace = t, w_res = new_resolver n ttl delay, w_cache = cache\<rparr>)"


section \<open>The pool is a schedule of the process\<close>

fun wk_conn :: "pool_worker \<Rightarrow> connection option" where
  "wk_conn (WkServe _ c) = Some c"
| "wk_conn _ = None"

fun wk_fds :: "pool_worker \<Rightarrow> fd list" where
  "wk_fds (WkNew fd) = [fd]"
| "wk_fds _ = []"

fun acc_fds :: "acceptor \<Rightarrow> fd list" where
  "acc_fds (AccPush fd) = [fd]"
| "acc_fds _ = []"

definition pool_conns :: "pool \<Rightarrow> nat \<rightharpoonup> connection" where
  "pool_conns p i = (if i < length (tp_workers p) then wk_conn (tp_workers p ! i) else None)"

definition pool_held :: "pool \<Rightarrow> fd list" where
  "pool_held p = acc_fds (tp_acceptor p) @ q_queue (tp_queue p) @ concat (map wk_fds (tp_workers p))"

definition pool_ok :: "config \<Rightarrow> pool \<Rightarrow> bool" where
  "pool_ok cfg p \<longleftrightarrow>
     queue_ok (tp_queue p) \<and> q_capacity (tp_queue p) = max 1 (job_queue_capacity cfg) \<and>
     length (tp_workers p) = max 1 (thread_pool_size cfg) \<and>
     (q_closed (tp_queue p) \<longleftrightarrow> tp_acceptor p \<in> {AccJoin, AccReturned}) \<and>
     (WkExit \<in> set (tp_workers p) \<longrightarrow> q_closed (tp_queue p) \<and> q_queue (tp_queue p) = []) \<and>
     (tp_acceptor p = AccReturned \<longrightarrow> set (tp_workers p) \<subseteq> {WkExit})"

definition pool_models :: "fd set \<Rightarrow> config \<Rightarrow> pool \<Rightarrow> nat proxy \<Rightarrow> bool" where
  "pool_models F cfg p s \<longleftrightarrow>
     p_other s = F \<and> p_trace s = tp_trace p \<and> p_res s = tp_res p \<and> p_caches s = [tp_cache p] \<and> p_conns s = pool_conns p \<and>
     p_accepted s = set (pool_held p) \<and> distinct (pool_held p) \<and> pool_ok cfg p"

lemma pool_conns_update:
  "i < length (tp_workers p) \<Longrightarrow> tp_workers p' = (tp_workers p)[i := wk] \<Longrightarrow> pool_conns p' = (pool_conns p)(i := wk_conn wk)"
  by (auto simp: pool_conns_def fun_eq_iff nth_list_update)

lemma pool_held_update:
  assumes "i < length (tp_workers p)" and "tp_workers p' = (tp_workers p)[i := wk]" and "tp_acceptor p' = tp_acceptor p"
  shows "mset (pool_held p') + mset (wk_fds (tp_workers p ! i)) + mset (q_queue (tp_queue p)) =
    mset (pool_held p) + mset (wk_fds wk) + mset (q_queue (tp_queue p'))"
  using mset_concat_update [OF assms(1), of wk_fds wk] assms(2,3) by (simp add: pool_held_def)

lemma pool_world_of: "pool_models F cfg p s \<Longrightarrow> world_of s 0 = pool_world p"
  by (simp add: pool_models_def world_of_def pool_world_def)

lemma init_pool_models:
  assumes "pool_init F os cfg p"
  shows "\<exists>s. pool_models F cfg p s \<and> proxy_run os cfg s"
proof -
  obtain listener t n ttl delay cache where F: "open_fds t = F" and c: "cache \<in> {None, Some (make_cache cfg)}"
    and p: "p = pool_start os cfg listener \<lparr>w_trace = t, w_res = new_resolver n ttl delay, w_cache = cache\<rparr>"
    using assms unfolding pool_init_def by blast
  let ?t = "snd (set_nonblocking os listener t)"
  have t: "open_fds ?t = F" using only_events_quiet(1) [OF set_nonblocking_quiet] F by simp
  let ?s = "\<lparr>p_conns = Map.empty, p_accepted = {}, p_other = open_fds ?t, p_trace = ?t, p_res = new_resolver n ttl delay, p_caches = [cache]\<rparr>"
  have "proxy_run os cfg (?s :: nat proxy)" using c by (intro run_init) auto
  moreover have "pool_models F cfg p ?s"
    by (auto simp: t pool_models_def p pool_start_def pool_conns_def pool_held_def pool_ok_def new_conn_queue_def queue_ok_def depth_def fun_eq_iff)
  ultimately show ?thesis by blast
qed

lemma pool_conns_same [simp]:
  "pool_conns (p\<lparr>tp_acceptor := a\<rparr>) = pool_conns p" "pool_conns (p\<lparr>tp_trace := t\<rparr>) = pool_conns p" "pool_conns (p\<lparr>tp_queue := q\<rparr>) = pool_conns p"
  "pool_conns (p\<lparr>tp_accepted := n\<rparr>) = pool_conns p" "pool_conns (p\<lparr>tp_stop := b\<rparr>) = pool_conns p" "pool_conns (p\<lparr>tp_res := r\<rparr>) = pool_conns p"
  by (simp_all add: pool_conns_def fun_eq_iff)

lemma pool_accept_cases:
  assumes os: "finite_interrupts os" and step: "pool_accept_step os expired p = Some p'"
  obtains (stop) "tp_acceptor p = AccTop" "p' = p\<lparr>tp_acceptor := AccClose\<rparr>"
  | (wait) b t where "tp_acceptor p = AccTop" "only_events quiet (tp_trace p) t"
      "p' = p\<lparr>tp_trace := t, tp_acceptor := (if b then AccAccept else AccTop)\<rparr>"
  | (accepted) fd t where "tp_acceptor p = AccAccept" "accept_one os (tp_listener p) (tp_trace p) = Some ((AcceptOk, fd), t)"
      "p' = p\<lparr>tp_trace := t, tp_accepted := tp_accepted p + 1, tp_acceptor := AccPush fd\<rparr>"
  | (refused) st fd t where "tp_acceptor p = AccAccept" "accept_one os (tp_listener p) (tp_trace p) = Some ((st, fd), t)" "st \<noteq> AcceptOk"
      "p' = p\<lparr>tp_trace := t, tp_acceptor := AccTop\<rparr>"
  | (pushed) fd q where "tp_acceptor p = AccPush fd" "push_for expired fd (tp_queue p) = Some (Pushed, -1, q)"
      "\<not> q_closed (tp_queue p)" "q = (tp_queue p)\<lparr>q_queue := q_queue (tp_queue p) @ [fd]\<rparr>" "p' = p\<lparr>tp_queue := q, tp_acceptor := AccTop\<rparr>"
  | (dropped) fd where "tp_acceptor p = AccPush fd" "p' = p\<lparr>tp_trace := fd_destroy fd (tp_trace p), tp_acceptor := AccClose\<rparr>"
  | (retry) fd where "tp_acceptor p = AccPush fd" "p' = p"
  | (close) "tp_acceptor p = AccClose" "p' = p\<lparr>tp_queue := close_queue (tp_queue p), tp_acceptor := AccJoin\<rparr>"
  | (join) "tp_acceptor p = AccJoin" "set (tp_workers p) \<subseteq> {WkExit}" "p' = p\<lparr>tp_acceptor := AccReturned\<rparr>"
proof (cases "tp_acceptor p")
  case AccTop
  obtain b t where w: "wait_ready os (tp_listener p) False 200 (tp_trace p) = Some (b, t)" "only_events quiet (tp_trace p) t"
    by (rule wait_ready_effect [OF os])
  show ?thesis
  proof (cases "tp_stop p")
    case True
    then show ?thesis using stop AccTop step by (simp add: pool_accept_step_def)
  next
    case False
    then show ?thesis using wait [OF AccTop w(2), of b] AccTop step w(1) by (simp add: pool_accept_step_def)
  qed
next
  case AccAccept
  obtain st fd t where a: "accept_one os (tp_listener p) (tp_trace p) = Some ((st, fd), t)"
    using step by (auto simp: pool_accept_step_def AccAccept split: bind_splits)
  show ?thesis
  proof (cases "st = AcceptOk")
    case True
    then show ?thesis using accepted [OF AccAccept, of fd t] a AccAccept step by (simp add: pool_accept_step_def)
  next
    case False
    then show ?thesis using refused [OF AccAccept a] a AccAccept step by (simp add: pool_accept_step_def)
  qed
next
  case (AccPush fd)
  obtain st fd' q where pf: "push_for expired fd (tp_queue p) = Some (st, fd', q)"
    using step by (auto simp: pool_accept_step_def AccPush split: bind_splits)
  have id: "p\<lparr>tp_queue := tp_queue p\<rparr> = p" "p\<lparr>tp_acceptor := AccPush fd\<rparr> = p" using AccPush by simp_all
  from pf show ?thesis
  proof (cases rule: push_for_cases)
    case p: pushed
    then show ?thesis using pushed [OF AccPush, of q] pf AccPush step by (simp add: pool_accept_step_def)
  next
    case closed
    then show ?thesis using dropped [OF AccPush] pf AccPush step by (simp add: pool_accept_step_def)
  next
    case full
    then show ?thesis using dropped [OF AccPush] retry [OF AccPush] pf AccPush step id by (auto simp: pool_accept_step_def split: if_splits)
  qed
next
  case AccClose
  then show ?thesis using close step by (simp add: pool_accept_step_def)
next
  case AccJoin
  then show ?thesis using join step by (auto simp: pool_accept_step_def list_all_iff split: if_splits)
qed (use step in \<open>simp add: pool_accept_step_def\<close>)

lemma pool_accept_models:
  assumes os: "fresh_descriptors os" "finite_interrupts os" "bounded_io os" and m: "pool_models F cfg p s" and run: "proxy_run os cfg s"
    and step: "pool_accept_step os expired p = Some p'"
  shows "\<exists>s'. pool_models F cfg p' s' \<and> proxy_run os cfg s'"
proof -
  note inv = proxy_run_inv [OF os run] and defs = pool_models_def pool_held_def pool_ok_def
  have same: "pool_models F cfg p' s \<Longrightarrow> ?thesis" using run by blast
  have tr: "p_trace s = tp_trace p" using m by (simp add: pool_models_def)
  from os(2) step show ?thesis
  proof (cases rule: pool_accept_cases)
    case (wait b t)
    have "pool_models F cfg p' (s\<lparr>p_trace := t\<rparr>)" unfolding wait(3) using m wait(1) by (clarsimp simp: defs)
    then show ?thesis using run_quiet [OF run, of t] wait(2) tr by auto
  next
    case (accepted fd t)
    have a: "accept_one os (tp_listener p) (p_trace s) = Some ((AcceptOk, fd), t)" using accepted(2) tr by simp
    have "pool_models F cfg p' (s\<lparr>p_trace := t, p_accepted := insert fd (p_accepted s)\<rparr>)"
      unfolding accepted(3) using m accepted(1) accept_fresh(1) [OF os(2,1) inv a] by (clarsimp simp: defs)
    then show ?thesis using run_accept [OF run a] by blast
  next
    case (refused st fd t)
    have "pool_models F cfg p' (s\<lparr>p_trace := t\<rparr>)" unfolding refused(4) using m refused(1) by (clarsimp simp: defs)
    then show ?thesis using run_accept_failed [OF os(2,1) run _ refused(3)] refused(2) tr by auto
  next
    case (pushed fd q)
    show ?thesis
      by (rule same, unfold pushed(5)) (use m pushed(1,3,4) push_for_ok [OF _ pushed(2)] in \<open>clarsimp simp: defs\<close>)
  next
    case (dropped fd)
    let ?s = "s\<lparr>p_accepted := p_accepted s - {fd}, p_trace := fd_destroy fd (p_trace s)\<rparr>"
    have "fd \<in> p_accepted s" using m dropped(1) by (clarsimp simp: defs)
    moreover have "pool_models F cfg p' ?s" unfolding dropped(2) using m dropped(1) by (clarsimp simp: defs)
    ultimately show ?thesis using run_drop [OF run] by blast
  qed (rule same, use m in \<open>clarsimp simp: defs\<close>)+
qed

lemma pool_worker_cases:
  assumes step: "pool_worker_step os cfg i p = Some p'"
  obtains (pop) fd rest where "i < length (tp_workers p)" "tp_workers p ! i = WkPop" "q_queue (tp_queue p) = fd # rest"
      "p' = p\<lparr>tp_queue := (tp_queue p)\<lparr>q_queue := rest\<rparr>, tp_workers := (tp_workers p)[i := WkNew fd]\<rparr>"
  | (ended) "i < length (tp_workers p)" "tp_workers p ! i = WkPop" "q_closed (tp_queue p)" "q_queue (tp_queue p) = []"
      "p' = p\<lparr>tp_workers := (tp_workers p)[i := WkExit]\<rparr>"
  | (admit) fd c w where "i < length (tp_workers p)" "tp_workers p ! i = WkNew fd" "new_connection os fd (tp_next_id p) (pool_world p) = (c, w)"
      "p' = (set_pool_world w p)\<lparr>tp_next_id := tp_next_id p + 1, tp_workers := (tp_workers p)[i := WkServe ServeTop c]\<rparr>"
  | (serve) pc c pc' c' w where "i < length (tp_workers p)" "tp_workers p ! i = WkServe pc c"
      "serve_step os cfg pc c (pool_world p) = Some (pc', c', w)"
      "p' = (set_pool_world w p)\<lparr>tp_workers := (tp_workers p)[i := WkServe pc' c']\<rparr>"
  | (leave) c where "i < length (tp_workers p)" "tp_workers p ! i = WkServe ServeLeave c"
      "p' = (set_pool_world (destroy_connection c (pool_world p)) p)\<lparr>tp_workers := (tp_workers p)[i := WkPop]\<rparr>"
proof -
  have i: "i < length (tp_workers p)" using step by (simp add: pool_worker_step_def split: if_splits)
  show ?thesis
  proof (cases "tp_workers p ! i")
    case WkPop
    obtain ok fd q t where pp: "Conn_Queue.pop (-1) (tp_queue p) (tp_trace p) = Some (ok, fd, q, t)"
      using step i by (auto simp: pool_worker_step_def WkPop split: bind_splits)
    from pp show ?thesis
    proof (cases rule: pop_cases)
      case (item rest)
      then show ?thesis using pop [OF i WkPop] pp i WkPop step by (simp add: pool_worker_step_def)
    next
      case e: ended
      then show ?thesis using ended [OF i WkPop] pp i WkPop step by (simp add: pool_worker_step_def)
    qed
  next
    case (WkNew fd)
    obtain c w where "new_connection os fd (tp_next_id p) (pool_world p) = (c, w)" by fastforce
    then show ?thesis using admit [OF i WkNew] i WkNew step by (simp add: pool_worker_step_def)
  next
    case (WkServe pc c)
    show ?thesis
    proof (cases "pc = ServeLeave")
      case True
      then show ?thesis using leave [OF i] i WkServe step by (simp add: pool_worker_step_def)
    next
      case False
      then show ?thesis using serve [OF i WkServe] i WkServe step by (auto simp: pool_worker_step_def split: bind_splits)
    qed
  qed (use step i in \<open>simp add: pool_worker_step_def\<close>)
qed

lemma set_pool_world_fields [simp]:
  "tp_trace (set_pool_world w p) = w_trace w" "tp_res (set_pool_world w p) = w_res w" "tp_cache (set_pool_world w p) = w_cache w"
  "tp_queue (set_pool_world w p) = tp_queue p" "tp_workers (set_pool_world w p) = tp_workers p"
  "tp_acceptor (set_pool_world w p) = tp_acceptor p"
  by (simp_all add: set_pool_world_def)

text \<open>A worker that moves, but not to its exit, keeps the rest of the invariant.\<close>

lemma pool_ok_worker:
  assumes "pool_ok cfg p" and "i < length (tp_workers p)" and "tp_workers p ! i \<noteq> WkExit" and "wk \<noteq> WkExit"
    and "tp_workers p' = (tp_workers p)[i := wk]" and "tp_acceptor p' = tp_acceptor p" and "tp_queue p' = tp_queue p"
  shows "pool_ok cfg p'"
proof -
  have "WkExit \<in> set ((tp_workers p)[i := wk]) \<Longrightarrow> WkExit \<in> set (tp_workers p)"
    using assms(4) set_update_subset_insert [of "tp_workers p" i wk] by auto
  moreover have "\<not> set (tp_workers p) \<subseteq> {WkExit}" using nth_mem [OF assms(2)] assms(3) by auto
  ultimately show ?thesis using assms by (auto simp: pool_ok_def)
qed

lemma pool_worker_models:
  assumes os: "fresh_descriptors os" "finite_interrupts os" "bounded_io os" and m: "pool_models F cfg p s" and run: "proxy_run os cfg s"
    and step: "pool_worker_step os cfg i p = Some p'"
  shows "\<exists>s'. pool_models F cfg p' s' \<and> proxy_run os cfg s'"
proof -
  have m': "p_trace s = tp_trace p" "p_res s = tp_res p" "p_caches s = [tp_cache p]" "p_conns s = pool_conns p"
      "p_accepted s = set (pool_held p)" "distinct (pool_held p)" "pool_ok cfg p" "p_other s = F"
    using m by (simp_all add: pool_models_def)
  have q: "0 < length (p_caches s)" using m' by simp
  note w = pool_world_of [OF m]
  have conns: "tp_workers p' = (tp_workers p)[i := wk] \<Longrightarrow> i < length (tp_workers p) \<Longrightarrow> pool_conns p' = (pool_conns p)(i := wk_conn wk)" for wk
    by (rule pool_conns_update)
  from step show ?thesis
  proof (cases rule: pool_worker_cases)
    case (pop fd rest)
    have "mset (pool_held p') = mset (pool_held p)" using pool_held_update [of i p p' "WkNew fd"] pop by simp
    note held = distinct_moved [OF this m'(6)]
    have "pool_conns p i = None" using pop(1,2) by (simp add: pool_conns_def)
    then have c: "pool_conns p' = pool_conns p" using conns [of "WkNew fd"] pop by (simp add: fun_upd_idem)
    have "WkExit \<notin> set (tp_workers p)" using m'(7) pop(3) by (auto simp: pool_ok_def)
    then have "WkExit \<notin> set ((tp_workers p)[i := WkNew fd])" using set_update_subset_insert [of "tp_workers p" i "WkNew fd"] by auto
    moreover have "\<not> set (tp_workers p) \<subseteq> {WkExit}" using nth_mem [OF pop(1)] pop(2) by auto
    ultimately have "pool_ok cfg p'"
      using m'(7) pop(1,3,4) \<open>WkExit \<notin> set (tp_workers p)\<close> by (auto simp: pool_ok_def queue_ok_def depth_def)
    then have "pool_models F cfg p' s" using m' held c pop(4) by (simp add: pool_models_def)
    then show ?thesis using run by blast
  next
    case ended
    have "mset (pool_held p') = mset (pool_held p)" using pool_held_update [of i p p' WkExit] ended by simp
    note held = distinct_moved [OF this m'(6)]
    have "pool_conns p i = None" using ended(1,2) by (simp add: pool_conns_def)
    then have c: "pool_conns p' = pool_conns p" using conns [of WkExit] ended by (simp add: fun_upd_idem)
    have "\<not> set (tp_workers p) \<subseteq> {WkExit}" using nth_mem [OF ended(1)] ended(2) by auto
    then have "pool_ok cfg p'" using m'(7) ended by (auto simp: pool_ok_def)
    then have "pool_models F cfg p' s" using m' held c ended(5) by (simp add: pool_models_def)
    then show ?thesis using run by blast
  next
    case (admit fd c w')
    have "add_mset fd (mset (pool_held p')) = mset (pool_held p)"
      using pool_held_update [of i p p' "WkServe ServeTop c"] admit by simp
    note held = distinct_taken [OF this [symmetric] m'(6)]
    have n: "pool_conns p i = None" using admit(1,2) by (simp add: pool_conns_def)
    have ok: "pool_ok cfg p'" by (rule pool_ok_worker [OF m'(7) admit(1)]) (use admit in simp_all)
    let ?s = "set_world 0 w' (s\<lparr>p_accepted := p_accepted s - {fd}, p_conns := (p_conns s)(i \<mapsto> c)\<rparr>)"
    have "pool_models F cfg p' ?s" using m' held ok conns [of "WkServe ServeTop c"] admit by (simp add: pool_models_def)
    moreover have "proxy_run os cfg ?s"
      using admit(3) n m' held(2) q w by (intro run_admit [OF run, where cid = "tp_next_id p"]) simp_all
    ultimately show ?thesis by blast
  next
    case (serve pc c pc' c' w')
    have k: "p_conns s i = Some c" using m'(4) serve(1,2) by (simp add: pool_conns_def)
    have "mset (pool_held p') = mset (pool_held p)" using pool_held_update [of i p p' "WkServe pc' c'"] serve by simp
    note held = distinct_moved [OF this m'(6)]
    have ok: "pool_ok cfg p'" by (rule pool_ok_worker [OF m'(7) serve(1)]) (use serve in simp_all)
    let ?s = "set_world 0 w' (s\<lparr>p_conns := (p_conns s)(i \<mapsto> c')\<rparr>)"
    have "pool_models F cfg p' ?s" using m' held ok conns [of "WkServe pc' c'"] serve by (simp add: pool_models_def)
    moreover have "proxy_run os cfg ?s" using serve(3) w by (intro serve_step_run [OF os(2) run k q]) simp
    ultimately show ?thesis by blast
  next
    case (leave c)
    have k: "p_conns s i = Some c" using m'(4) leave(1,2) by (simp add: pool_conns_def)
    have "mset (pool_held p') = mset (pool_held p)" using pool_held_update [of i p p' WkPop] leave by simp
    note held = distinct_moved [OF this m'(6)]
    have ok: "pool_ok cfg p'" by (rule pool_ok_worker [OF m'(7) leave(1)]) (use leave in simp_all)
    let ?s = "set_world 0 (destroy_connection c (world_of s 0)) (s\<lparr>p_conns := (p_conns s)(i := None)\<rparr>)"
    have "pool_models F cfg p' ?s" using m' held ok conns [of WkPop] leave w by (simp add: pool_models_def)
    moreover have "proxy_run os cfg ?s" by (rule run_destroy [OF run k q])
    ultimately show ?thesis by blast
  qed
qed

lemma pool_step_models:
  assumes os: "fresh_descriptors os" "finite_interrupts os" "bounded_io os" and m: "pool_models F cfg p s" and run: "proxy_run os cfg s"
    and step: "pool_step os cfg a p = Some p'"
  shows "\<exists>s'. pool_models F cfg p' s' \<and> proxy_run os cfg s'"
proof (cases a)
  case PoolStop
  then have "p' = p\<lparr>tp_stop := True\<rparr>" using step by (simp add: pool_step_def)
  then have "pool_models F cfg p' s" using m by (clarsimp simp: pool_models_def pool_held_def pool_ok_def)
  then show ?thesis using run by blast
next
  case (PoolResolver n)
  obtain r t where w: "worker_step os n (tp_res p) (tp_trace p) = Some (r, t)" and p': "p' = p\<lparr>tp_res := r, tp_trace := t\<rparr>"
    using step by (auto simp: pool_step_def PoolResolver split: bind_splits)
  have "proxy_run os cfg (s\<lparr>p_res := r, p_trace := t\<rparr>)" using w m by (intro run_worker [OF run, of n]) (simp add: pool_models_def)
  moreover have "pool_models F cfg p' (s\<lparr>p_res := r, p_trace := t\<rparr>)"
    unfolding p' using m by (clarsimp simp: pool_models_def pool_held_def pool_ok_def)
  ultimately show ?thesis by blast
qed (use step pool_accept_models [OF os m run] pool_worker_models [OF os m run] in \<open>simp_all add: pool_step_def\<close>)

interpretation tp: proxy_backend "pool_init F" pool_step "pool_models F" for F
  using init_pool_models pool_step_models by unfold_locales blast+


section \<open>Properties\<close>

text \<open>
  C10. The thread pool, with acceptor, workers and resolver threads interleaved in any way and stopped
  at any moment, only ever does what the process of theory \<open>Proxy\<close> may do: a reachable state of the pool is a
  reachable state of the process whose connections are those the workers serve and whose accepted
  clients are those in the queue and in the threads' hands. So everything proved of the process holds of
  the pool.
\<close>

theorem pool_refines_process:
  assumes "fresh_descriptors os" and "finite_interrupts os" and "bounded_io os" and "reaches (pool_init F os cfg) (pool_step os cfg) p"
  shows "\<exists>s. proxy_run os cfg s \<and> p_conns s = pool_conns p \<and> p_accepted s = set (pool_held p) \<and> distinct (pool_held p) \<and>
    p_other s = F \<and> p_trace s = tp_trace p \<and> p_res s = tp_res p \<and> p_caches s = [tp_cache p]"
  using tp.simulated [OF assms] by (auto simp: pool_models_def)

text \<open>A pool of one worker whose clients hang up at once.\<close>

abbreviation small_pool :: config where
  "small_pool \<equiv> default_config\<lparr>thread_pool_size := 1, job_queue_capacity := 1\<rparr>"

abbreviation silent :: os where
  "silent \<equiv> demo_os (\<lambda>_. [])"

definition small_start :: pool where
  "small_start = pool_start silent small_pool 9 \<lparr>w_trace = [], w_res = new_resolver 0 60 0, w_cache = None\<rparr>"

lemma small_reached:
  assumes "run_schedule (pool_step silent small_pool) as small_start = Some p"
  shows "reaches (pool_init {} silent small_pool) (pool_step silent small_pool) p"
proof (rule reaches_schedule [OF reaches_init assms])
  show "pool_init {} silent small_pool small_start"
    unfolding pool_init_def small_start_def by (metis insertI1 open_fds.simps(1))
qed

lemmas pool_run_defs =
  small_start_def pool_start_def pool_step_def pool_accept_step_def pool_worker_step_def demo_calls push_for_def pop_def
  new_conn_queue_def new_resolver_def new_connection_def init_connection_def set_nonblocking_def fd_reset_def fd_destroy_def serve_step_def
  pool_world_def set_pool_world_def want_fd_def conn_done_def on_ready_def do_read_client_def finish_def set_want_def drop_job_def
  release_opt_def destroy_connection_def close_queue_def Let_def default_config_def

theorem pool_refines_process_witness:
  "\<exists>p (s :: nat proxy). run_schedule (pool_step silent small_pool) [PoolAccept False, PoolAccept False, PoolAccept False, PoolWorker 0, PoolWorker 0] small_start = Some p \<and>
     proxy_run silent small_pool s \<and> p_conns s 0 = Some (init_connection 3 0)"
proof -
  obtain p where r: "run_schedule (pool_step silent small_pool) [PoolAccept False, PoolAccept False, PoolAccept False, PoolWorker 0, PoolWorker 0] small_start = Some p"
      "tp_workers p = [WkServe ServeTop (init_connection 3 0)]"
    by (simp add: pool_run_defs)
  from pool_refines_process [OF demo_os_hypotheses(1,3,2) small_reached [OF r(1)]]
  obtain s where "proxy_run silent small_pool s" "p_conns s = pool_conns p" by blast
  moreover have "pool_conns p 0 = Some (init_connection 3 0)" using r(2) by (simp add: pool_conns_def)
  ultimately show ?thesis using r(1) by auto
qed

text \<open>
  C14. The ceilings: never more connections in flight than workers, never more clients in the queue than
  its capacity, and all in all never more clients in the process than workers, queue places and the one
  the acceptor holds. Beyond that it stops accepting and they wait in the kernel's backlog.
\<close>

theorem pool_ceiling:
  assumes "fresh_descriptors os" and "finite_interrupts os" and "bounded_io os" and "reaches (pool_init F os cfg) (pool_step os cfg) p"
  shows "card (dom (pool_conns p)) \<le> max 1 (thread_pool_size cfg) \<and> depth (tp_queue p) \<le> max 1 (job_queue_capacity cfg) \<and>
    length (pool_held p) + card (dom (pool_conns p)) \<le> max 1 (thread_pool_size cfg) + max 1 (job_queue_capacity cfg) + 1"
proof -
  obtain s where m: "pool_models F cfg p s" using tp.simulated [OF assms] by blast
  then have ok: "length (tp_workers p) = max 1 (thread_pool_size cfg)" "depth (tp_queue p) \<le> max 1 (job_queue_capacity cfg)"
    by (auto simp: pool_models_def pool_ok_def queue_ok_def)
  let ?busy = "filter (\<lambda>wk. wk_conn wk \<noteq> None) (tp_workers p)"
  have "dom (pool_conns p) = {i. i < length (tp_workers p) \<and> wk_conn (tp_workers p ! i) \<noteq> None}"
    by (auto simp: pool_conns_def split: if_splits)
  then have c: "card (dom (pool_conns p)) = length ?busy" by (simp add: length_filter_conv_card)
  have "length (concat (map wk_fds ws)) + length (filter (\<lambda>wk. wk_conn wk \<noteq> None) ws) \<le> length ws" for ws
  proof (induction ws)
    case (Cons wk ws)
    then show ?case by (cases wk) auto
  qed simp
  from this [of "tp_workers p"] have "length (concat (map wk_fds (tp_workers p))) + length ?busy \<le> length (tp_workers p)" .
  moreover have "length (acc_fds (tp_acceptor p)) \<le> 1" by (cases "tp_acceptor p") simp_all
  ultimately show ?thesis using ok c by (simp add: pool_held_def depth_def)
qed

theorem pool_ceiling_witness:
  "\<exists>p. run_schedule (pool_step silent small_pool) [PoolAccept False, PoolAccept False, PoolAccept False, PoolWorker 0, PoolWorker 0,
       PoolAccept False, PoolAccept False, PoolAccept False, PoolAccept False, PoolAccept False] small_start = Some p \<and>
     length (pool_held p) + card (dom (pool_conns p)) = 3 \<and> depth (tp_queue p) \<le> 1"
proof -
  obtain p where r: "run_schedule (pool_step silent small_pool) [PoolAccept False, PoolAccept False, PoolAccept False, PoolWorker 0, PoolWorker 0,
       PoolAccept False, PoolAccept False, PoolAccept False, PoolAccept False, PoolAccept False] small_start = Some p"
      "tp_workers p = [WkServe ServeTop (init_connection 3 0)]" "tp_acceptor p = AccPush 5" "q_queue (tp_queue p) = [4]"
    by (simp add: pool_run_defs)
  have "dom (pool_conns p) = {0}" using r(2) by (auto simp: pool_conns_def split: if_splits)
  then have "length (pool_held p) + card (dom (pool_conns p)) = 3" using r by (simp add: pool_held_def)
  moreover have "depth (tp_queue p) \<le> 1"
    using pool_ceiling [OF demo_os_hypotheses(1,3,2) small_reached [OF r(1)]] by simp
  ultimately show ?thesis using r(1) by blast
qed

text \<open>
  C13. When \<^verbatim>\<open>run\<close> returns, every accepted client has been dealt with: no connection is alive, no client is
  left in the queue or in a thread's hands, and once the resolver is idle exactly the descriptors that were open
  before are open.
\<close>

theorem pool_shutdown_clean:
  assumes "fresh_descriptors os" and "finite_interrupts os" and "bounded_io os" and "reaches (pool_init F os cfg) (pool_step os cfg) p"
    and "tp_acceptor p = AccReturned"
  shows "pool_conns p = Map.empty \<and> pool_held p = [] \<and> (open_fds (tp_trace p) = F \<or> \<not> resolver_idle (tp_res p))"
proof -
  obtain s where m: "pool_models F cfg p s" and inv: "proxy_inv cfg s"
    by (rule tp.models_inv [OF assms(1-4)])
  have ok: "set (tp_workers p) \<subseteq> {WkExit}" "tp_workers p \<noteq> []" "WkExit \<in> set (tp_workers p) \<longrightarrow> q_queue (tp_queue p) = []"
    using m assms(5) by (auto simp: pool_models_def pool_ok_def)
  have ex: "tp_workers p ! i = WkExit" if "i < length (tp_workers p)" for i using ok(1) nth_mem [OF that] by blast
  then have c: "pool_conns p = Map.empty" by (simp add: pool_conns_def fun_eq_iff)
  have "WkExit \<in> set (tp_workers p)" using ok(1,2) by (cases "tp_workers p") auto
  moreover have "wk_fds wk = []" if "wk \<in> set (tp_workers p)" for wk using ok(1) that by auto
  ultimately have h: "pool_held p = []" using ok(3) assms(5) by (simp add: pool_held_def)
  have "open_fds (tp_trace p) = F" if "resolver_idle (tp_res p)"
    using all_closed [OF inv] m c h that by (simp add: pool_models_def)
  then show ?thesis using c h by blast
qed

theorem pool_shutdown_clean_witness:
  "\<exists>p. run_schedule (pool_step silent small_pool) [PoolAccept False, PoolAccept False, PoolStop, PoolAccept False, PoolAccept False, PoolAccept False,
       PoolWorker 0, PoolWorker 0, PoolWorker 0, PoolWorker 0, PoolWorker 0, PoolWorker 0, PoolWorker 0, PoolAccept False] small_start = Some p \<and>
     tp_accepted p = 1 \<and> tp_acceptor p = AccReturned \<and> open_fds (tp_trace p) = {}"
proof -
  obtain p where r: "run_schedule (pool_step silent small_pool) [PoolAccept False, PoolAccept False, PoolStop, PoolAccept False, PoolAccept False, PoolAccept False,
       PoolWorker 0, PoolWorker 0, PoolWorker 0, PoolWorker 0, PoolWorker 0, PoolWorker 0, PoolWorker 0, PoolAccept False] small_start = Some p"
      "tp_accepted p = 1" "tp_acceptor p = AccReturned" "resolver_idle (tp_res p)"
    by (simp add: pool_run_defs resolver_idle_def)
  then show ?thesis
    using pool_shutdown_clean [OF demo_os_hypotheses(1,3,2) small_reached [OF r(1)] r(3)] by auto
qed

text \<open>
  C15. The pool never deadlocks: until \<^verbatim>\<open>run\<close> has returned, the acceptor (at the latest when its wait for space times
  out) or one of the workers can move. In particular a full queue cannot block shutdown, and after the
  queue is closed no worker waits for ever.
\<close>

theorem pool_never_stuck:
  assumes "fresh_descriptors os" and "finite_interrupts os" and "bounded_io os" and "reaches (pool_init F os cfg) (pool_step os cfg) p"
    and "tp_acceptor p \<noteq> AccReturned"
  shows "pool_step os cfg (PoolAccept True) p \<noteq> None \<or> (\<exists>i. pool_step os cfg (PoolWorker i) p \<noteq> None)"
proof -
  obtain s where m: "pool_models F cfg p s" and inv: "proxy_inv cfg s"
    by (rule tp.models_inv [OF assms(1-4)])
  have q: "0 < length (p_caches s)" and w: "world_of s 0 = pool_world p" using m pool_world_of [OF m] by (auto simp: pool_models_def)
  show ?thesis
  proof (cases "tp_acceptor p")
    case AccTop
    obtain b t where "wait_ready os (tp_listener p) False 200 (tp_trace p) = Some (b, t)" by (rule wait_ready_effect [OF assms(2)])
    then show ?thesis by (simp add: pool_step_def pool_accept_step_def AccTop)
  next
    case AccAccept
    obtain st fd t where "accept_one os (tp_listener p) (tp_trace p) = Some ((st, fd), t)" by (rule accept_one_effect [OF assms(2,1)])
    then show ?thesis by (simp add: pool_step_def pool_accept_step_def AccAccept)
  next
    case (AccPush fd)
    then show ?thesis by (simp add: pool_step_def pool_accept_step_def push_for_def Let_def)
  next
    case AccJoin
    show ?thesis
    proof (cases "list_all (\<lambda>wk. wk = WkExit) (tp_workers p)")
      case True
      then show ?thesis by (simp add: pool_step_def pool_accept_step_def AccJoin)
    next
      case False
      then obtain i where i: "i < length (tp_workers p)" "tp_workers p ! i \<noteq> WkExit" by (auto simp: list_all_length)
      have "q_closed (tp_queue p)" using m AccJoin by (auto simp: pool_models_def pool_ok_def)
      moreover have "pc = ServeLeave \<or> serve_step os cfg pc c (pool_world p) \<noteq> None" if "tp_workers p ! i = WkServe pc c" for pc c
      proof -
        have "p_conns s i = Some c" using m i that by (simp add: pool_models_def pool_conns_def)
        from serve_step_returns [OF assms(1-3) inv this q, of pc] show ?thesis unfolding w by blast
      qed
      ultimately have "pool_worker_step os cfg i p \<noteq> None"
        using i by (cases "tp_workers p ! i") (auto simp: pool_worker_step_def pop_def split: list.splits prod.splits bind_splits)
      then show ?thesis by (auto simp: pool_step_def)
    qed
  qed (use assms(5) in \<open>simp_all add: pool_step_def pool_accept_step_def\<close>)
qed

theorem pool_never_stuck_witness:
  "\<exists>p. run_schedule (pool_step silent small_pool) [PoolAccept False, PoolAccept False, PoolAccept False, PoolAccept False, PoolAccept False, PoolStop] small_start = Some p \<and>
     tp_acceptor p = AccPush 4 \<and> pool_step silent small_pool (PoolAccept False) p = None \<and>
     (pool_step silent small_pool (PoolAccept True) p \<noteq> None \<or> (\<exists>i. pool_step silent small_pool (PoolWorker i) p \<noteq> None))"
proof -
  obtain p where r: "run_schedule (pool_step silent small_pool) [PoolAccept False, PoolAccept False, PoolAccept False, PoolAccept False, PoolAccept False, PoolStop] small_start = Some p"
      "tp_acceptor p = AccPush 4" "pool_step silent small_pool (PoolAccept False) p = None"
    by (simp add: pool_run_defs)
  then show ?thesis using pool_never_stuck [OF demo_os_hypotheses(1,3,2) small_reached [OF r(1)]] by simp
qed

end
