(* ===== verification/Thread_Backend.thy ===== *)
theory Thread_Backend
  imports Backend Proxy_Properties
begin

text \<open>
  Model of \<^verbatim>\<open>src/src/backend/thread_per_conn.cpp\<close>: the thread in \<^verbatim>\<open>run\<close> accepts and starts one detached
  thread per client; a counter of live threads is the only barrier at shutdown. Threads are program
  counters as in theory \<open>Pool_Backend\<close>; the list of threads only grows. Starting a thread succeeds.
\<close>

section \<open>State\<close>

text \<open>The thread in \<^verbatim>\<open>run\<close>: head of the loop, accept, count the client, start its thread, then the wait for the
  counter with the milliseconds waited so far, and the return with the number of threads left.\<close>

datatype tpc_main = McTop | McAccept | McCount fd | McSpawn fd | McDrain int | McRemaining | McReturned int

datatype tpc_thread = TtNew fd uint64 | TtServe serving connection | TtDec | TtEnded

record tpc =
  tc_trace :: trace
  tc_res :: resolver
  tc_cache :: "lru option"
  tc_listener :: fd
  tc_stop :: bool
  tc_live :: int
  tc_next_id :: uint64
  tc_main :: tpc_main
  tc_threads :: "tpc_thread list"

definition tpc_start :: "os \<Rightarrow> fd \<Rightarrow> world \<Rightarrow> tpc" where
  "tpc_start os listener w =
     \<lparr>tc_trace = snd (set_nonblocking os listener (w_trace w)), tc_res = w_res w, tc_cache = w_cache w, tc_listener = listener,
      tc_stop = False, tc_live = 0, tc_next_id = 0, tc_main = McTop, tc_threads = []\<rparr>"

definition tpc_world :: "tpc \<Rightarrow> world" where
  "tpc_world p = \<lparr>w_trace = tc_trace p, w_res = tc_res p, w_cache = tc_cache p\<rparr>"

definition set_tpc_world :: "world \<Rightarrow> tpc \<Rightarrow> tpc" where
  "set_tpc_world w p = p\<lparr>tc_trace := w_trace w, tc_res := w_res w, tc_cache := w_cache w\<rparr>"


section \<open>Threads\<close>

definition tpc_main_step :: "os \<Rightarrow> tpc \<Rightarrow> tpc option" where
  "tpc_main_step os p =
     (case tc_main p of
        McTop \<Rightarrow>
          if tc_stop p then Some (p\<lparr>tc_main := McDrain 0\<rparr>)
          else do {
            (ready, t) \<leftarrow> wait_ready os (tc_listener p) False 200 (tc_trace p);
            Some (p\<lparr>tc_trace := t, tc_main := (if ready then McAccept else McTop)\<rparr>)
          }
      | McAccept \<Rightarrow> do {
          ((st, fd), t) \<leftarrow> accept_one os (tc_listener p) (tc_trace p);
          Some (p\<lparr>tc_trace := t, tc_main := (if st = AcceptOk then McCount fd else McTop)\<rparr>)
        }
      | McCount fd \<Rightarrow> Some (p\<lparr>tc_live := tc_live p + 1, tc_main := McSpawn fd\<rparr>)
      | McSpawn fd \<Rightarrow>
          Some (p\<lparr>tc_threads := tc_threads p @ [TtNew fd (tc_next_id p)], tc_next_id := tc_next_id p + 1, tc_main := McTop\<rparr>)
      | McDrain waited \<Rightarrow>
          if tc_live p > 0 \<and> waited < 30000
          then Some (p\<lparr>tc_trace := EvSleep 20 # tc_trace p, tc_main := McDrain (waited + 20)\<rparr>)
          else Some (p\<lparr>tc_main := McRemaining\<rparr>)
      | McRemaining \<Rightarrow> Some (p\<lparr>tc_main := McReturned (tc_live p)\<rparr>)
      | McReturned _ \<Rightarrow> None)"

definition tpc_thread_step :: "os \<Rightarrow> config \<Rightarrow> nat \<Rightarrow> tpc \<Rightarrow> tpc option" where
  "tpc_thread_step os cfg i p =
     (if length (tc_threads p) \<le> i then None
      else case tc_threads p ! i of
        TtNew client cid \<Rightarrow>
          let (c, w) = new_connection os client cid (tpc_world p) in
          Some ((set_tpc_world w p)\<lparr>tc_threads := (tc_threads p)[i := TtServe ServeTop c]\<rparr>)
      | TtServe pc c \<Rightarrow>
          if pc = ServeLeave then
            Some ((set_tpc_world (destroy_connection c (tpc_world p)) p)\<lparr>tc_threads := (tc_threads p)[i := TtDec]\<rparr>)
          else do {
            (pc', c', w) \<leftarrow> serve_step os cfg pc c (tpc_world p);
            Some ((set_tpc_world w p)\<lparr>tc_threads := (tc_threads p)[i := TtServe pc' c']\<rparr>)
          }
      | TtDec \<Rightarrow> Some (p\<lparr>tc_live := tc_live p - 1, tc_threads := (tc_threads p)[i := TtEnded]\<rparr>)
      | TtEnded \<Rightarrow> None)"

datatype tpc_action = TpcStop | TpcMain | TpcThread nat | TpcResolver nat

definition tpc_step :: "os \<Rightarrow> config \<Rightarrow> tpc_action \<Rightarrow> tpc \<Rightarrow> tpc option" where
  "tpc_step os cfg a p =
     (case a of
        TpcStop \<Rightarrow> Some (p\<lparr>tc_stop := True\<rparr>)
      | TpcMain \<Rightarrow> tpc_main_step os p
      | TpcThread i \<Rightarrow> tpc_thread_step os cfg i p
      | TpcResolver n \<Rightarrow> do {
          (r, t) \<leftarrow> worker_step os n (tc_res p) (tc_trace p);
          Some (p\<lparr>tc_res := r, tc_trace := t\<rparr>)
        })"

definition tpc_init :: "fd set \<Rightarrow> os \<Rightarrow> config \<Rightarrow> tpc \<Rightarrow> bool" where
  "tpc_init F os cfg p \<longleftrightarrow>
     (\<exists>listener t n ttl delay cache. open_fds t = F \<and> cache \<in> {None, Some (make_cache cfg)} \<and>
        p = tpc_start os listener \<lparr>w_trace = t, w_res = new_resolver n ttl delay, w_cache = cache\<rparr>)"


section \<open>The backend is a schedule of the process\<close>

fun tt_conn :: "tpc_thread \<Rightarrow> connection option" where
  "tt_conn (TtServe _ c) = Some c"
| "tt_conn _ = None"

fun tt_fds :: "tpc_thread \<Rightarrow> fd list" where
  "tt_fds (TtNew fd _) = [fd]"
| "tt_fds _ = []"

fun mc_fds :: "tpc_main \<Rightarrow> fd list" where
  "mc_fds (McCount fd) = [fd]"
| "mc_fds (McSpawn fd) = [fd]"
| "mc_fds _ = []"

definition tpc_conns :: "tpc \<Rightarrow> nat \<rightharpoonup> connection" where
  "tpc_conns p i = (if i < length (tc_threads p) then tt_conn (tc_threads p ! i) else None)"

definition tpc_held :: "tpc \<Rightarrow> fd list" where
  "tpc_held p = mc_fds (tc_main p) @ concat (map tt_fds (tc_threads p))"

text \<open>The counter is the number of threads that have not taken themselves off it, and it never lets \<^verbatim>\<open>run\<close> report
  fewer than there are.\<close>

definition running :: "tpc_thread list \<Rightarrow> int" where
  "running ts = int (length (filter (\<lambda>t. t \<noteq> TtEnded) ts))"

definition tpc_ok :: "tpc \<Rightarrow> bool" where
  "tpc_ok p \<longleftrightarrow>
     tc_live p = running (tc_threads p) + (case tc_main p of McSpawn _ \<Rightarrow> 1 | _ \<Rightarrow> 0) \<and>
     (\<forall>n. tc_main p = McReturned n \<longrightarrow> tc_live p \<le> n)"

definition tpc_models :: "fd set \<Rightarrow> config \<Rightarrow> tpc \<Rightarrow> nat proxy \<Rightarrow> bool" where
  "tpc_models F cfg p s \<longleftrightarrow>
     p_other s = F \<and> p_trace s = tc_trace p \<and> p_res s = tc_res p \<and> p_caches s = [tc_cache p] \<and> p_conns s = tpc_conns p \<and>
     p_accepted s = set (tpc_held p) \<and> distinct (tpc_held p) \<and> tpc_ok p"

lemma tpc_conns_same [simp]:
  "tpc_conns (p\<lparr>tc_main := a\<rparr>) = tpc_conns p" "tpc_conns (p\<lparr>tc_trace := t\<rparr>) = tpc_conns p" "tpc_conns (p\<lparr>tc_live := n\<rparr>) = tpc_conns p"
  "tpc_conns (p\<lparr>tc_next_id := k\<rparr>) = tpc_conns p" "tpc_conns (p\<lparr>tc_stop := b\<rparr>) = tpc_conns p" "tpc_conns (p\<lparr>tc_res := r\<rparr>) = tpc_conns p"
  by (simp_all add: tpc_conns_def fun_eq_iff)

lemma set_tpc_world_fields [simp]:
  "tc_trace (set_tpc_world w p) = w_trace w" "tc_res (set_tpc_world w p) = w_res w" "tc_cache (set_tpc_world w p) = w_cache w"
  "tc_threads (set_tpc_world w p) = tc_threads p" "tc_main (set_tpc_world w p) = tc_main p" "tc_live (set_tpc_world w p) = tc_live p"
  by (simp_all add: set_tpc_world_def)

lemma tpc_conns_update:
  "i < length (tc_threads p) \<Longrightarrow> tc_threads p' = (tc_threads p)[i := x] \<Longrightarrow> tpc_conns p' = (tpc_conns p)(i := tt_conn x)"
  by (auto simp: tpc_conns_def fun_eq_iff nth_list_update)

lemma tpc_conns_spawn: "tt_conn x = None \<Longrightarrow> tc_threads p' = tc_threads p @ [x] \<Longrightarrow> tpc_conns p' = tpc_conns p"
  by (auto simp: tpc_conns_def fun_eq_iff nth_append less_Suc_eq)

lemma tpc_held_update:
  assumes "i < length (tc_threads p)" and "tc_threads p' = (tc_threads p)[i := x]" and "tc_main p' = tc_main p"
  shows "mset (tpc_held p') + mset (tt_fds (tc_threads p ! i)) = mset (tpc_held p) + mset (tt_fds x)"
  using mset_concat_update [OF assms(1), of tt_fds x] assms(2,3) by (simp add: tpc_held_def)

lemma running_update:
  assumes "i < length ts"
  shows "running (ts[i := x]) = running ts - (if ts ! i = TtEnded then 0 else 1) + (if x = TtEnded then 0 else 1)"
proof -
  let ?n = "\<lambda>ts. length (filter (\<lambda>t. t \<noteq> TtEnded) ts)"
  have ts: "ts = take i ts @ ts ! i # drop (Suc i) ts" by (rule id_take_nth_drop [OF assms])
  have "?n ts = ?n (take i ts) + ?n [ts ! i] + ?n (drop (Suc i) ts)"
    by (subst ts, simp only: filter_append length_append filter.simps) simp
  moreover have "?n (ts[i := x]) = ?n (take i ts) + ?n [x] + ?n (drop (Suc i) ts)"
    using assms by (simp add: upd_conv_take_nth_drop)
  ultimately show ?thesis by (simp add: running_def)
qed

lemma running_nonneg [simp]: "0 \<le> running ts"
  by (simp add: running_def)

lemma running_append [simp]: "running (ts @ [x]) = running ts + (if x = TtEnded then 0 else 1)"
  by (simp add: running_def)

lemma tpc_world_of: "tpc_models F cfg p s \<Longrightarrow> world_of s 0 = tpc_world p"
  by (simp add: tpc_models_def world_of_def tpc_world_def)

lemma init_tpc_models:
  assumes "tpc_init F os cfg p"
  shows "\<exists>s. tpc_models F cfg p s \<and> proxy_run os cfg s"
proof -
  obtain listener t n ttl delay cache where F: "open_fds t = F" and c: "cache \<in> {None, Some (make_cache cfg)}"
    and p: "p = tpc_start os listener \<lparr>w_trace = t, w_res = new_resolver n ttl delay, w_cache = cache\<rparr>"
    using assms unfolding tpc_init_def by blast
  let ?t = "snd (set_nonblocking os listener t)"
  have t: "open_fds ?t = F" using only_events_quiet(1) [OF set_nonblocking_quiet] F by simp
  let ?s = "\<lparr>p_conns = Map.empty, p_accepted = {}, p_other = open_fds ?t, p_trace = ?t, p_res = new_resolver n ttl delay, p_caches = [cache]\<rparr>"
  have "proxy_run os cfg (?s :: nat proxy)" using c by (intro run_init) auto
  moreover have "tpc_models F cfg p ?s"
    by (simp add: t tpc_models_def p tpc_start_def tpc_conns_def tpc_held_def tpc_ok_def running_def fun_eq_iff)
  ultimately show ?thesis by blast
qed

lemma tpc_main_cases:
  assumes os: "finite_interrupts os" and step: "tpc_main_step os p = Some p'"
  obtains (stop) "tc_main p = McTop" "p' = p\<lparr>tc_main := McDrain 0\<rparr>"
  | (wait) b t where "tc_main p = McTop" "only_events quiet (tc_trace p) t"
      "p' = p\<lparr>tc_trace := t, tc_main := (if b then McAccept else McTop)\<rparr>"
  | (accepted) fd t where "tc_main p = McAccept" "accept_one os (tc_listener p) (tc_trace p) = Some ((AcceptOk, fd), t)"
      "p' = p\<lparr>tc_trace := t, tc_main := McCount fd\<rparr>"
  | (refused) st fd t where "tc_main p = McAccept" "accept_one os (tc_listener p) (tc_trace p) = Some ((st, fd), t)" "st \<noteq> AcceptOk"
      "p' = p\<lparr>tc_trace := t, tc_main := McTop\<rparr>"
  | (count) fd where "tc_main p = McCount fd" "p' = p\<lparr>tc_live := tc_live p + 1, tc_main := McSpawn fd\<rparr>"
  | (spawn) fd where "tc_main p = McSpawn fd"
      "p' = p\<lparr>tc_threads := tc_threads p @ [TtNew fd (tc_next_id p)], tc_next_id := tc_next_id p + 1, tc_main := McTop\<rparr>"
  | (sleep) n where "tc_main p = McDrain n" "p' = p\<lparr>tc_trace := EvSleep 20 # tc_trace p, tc_main := McDrain (n + 20)\<rparr>"
  | (waited) n where "tc_main p = McDrain n" "p' = p\<lparr>tc_main := McRemaining\<rparr>"
  | (ret) "tc_main p = McRemaining" "p' = p\<lparr>tc_main := McReturned (tc_live p)\<rparr>"
proof (cases "tc_main p")
  case McTop
  obtain b t where w: "wait_ready os (tc_listener p) False 200 (tc_trace p) = Some (b, t)" "only_events quiet (tc_trace p) t"
    by (rule wait_ready_effect [OF os])
  show ?thesis
  proof (cases "tc_stop p")
    case True
    then show ?thesis using stop McTop step by (simp add: tpc_main_step_def)
  next
    case False
    then show ?thesis using wait [OF McTop w(2), of b] McTop step w(1) by (simp add: tpc_main_step_def)
  qed
next
  case McAccept
  obtain st fd t where a: "accept_one os (tc_listener p) (tc_trace p) = Some ((st, fd), t)"
    using step by (auto simp: tpc_main_step_def McAccept split: bind_splits)
  show ?thesis
  proof (cases "st = AcceptOk")
    case True
    then show ?thesis using accepted [OF McAccept, of fd t] a McAccept step by (simp add: tpc_main_step_def)
  next
    case False
    then show ?thesis using refused [OF McAccept a] a McAccept step by (simp add: tpc_main_step_def)
  qed
next
  case (McDrain n)
  then show ?thesis using sleep [OF McDrain] waited [OF McDrain] step by (auto simp: tpc_main_step_def split: if_splits)
qed (use step count spawn ret in \<open>simp_all add: tpc_main_step_def\<close>)

lemma tpc_main_models:
  assumes os: "fresh_descriptors os" "finite_interrupts os" "bounded_io os" and m: "tpc_models F cfg p s" and run: "proxy_run os cfg s"
    and step: "tpc_main_step os p = Some p'"
  shows "\<exists>s'. tpc_models F cfg p' s' \<and> proxy_run os cfg s'"
proof -
  note inv = proxy_run_inv [OF os run] and defs = tpc_models_def tpc_held_def tpc_ok_def
  have same: "tpc_models F cfg p' s \<Longrightarrow> ?thesis" using run by blast
  have tr: "p_trace s = tc_trace p" using m by (simp add: tpc_models_def)
  from os(2) step show ?thesis
  proof (cases rule: tpc_main_cases)
    case (wait b t)
    have "tpc_models F cfg p' (s\<lparr>p_trace := t\<rparr>)" unfolding wait(3) using m wait(1) by (clarsimp simp: defs)
    then show ?thesis using run_quiet [OF run, of t] wait(2) tr by auto
  next
    case (accepted fd t)
    have a: "accept_one os (tc_listener p) (p_trace s) = Some ((AcceptOk, fd), t)" using accepted(2) tr by simp
    have "tpc_models F cfg p' (s\<lparr>p_trace := t, p_accepted := insert fd (p_accepted s)\<rparr>)"
      unfolding accepted(3) using m accepted(1) accept_fresh(1) [OF os(2,1) inv a] by (clarsimp simp: defs)
    then show ?thesis using run_accept [OF run a] by blast
  next
    case (refused st fd t)
    have "tpc_models F cfg p' (s\<lparr>p_trace := t\<rparr>)" unfolding refused(4) using m refused(1) by (clarsimp simp: defs)
    then show ?thesis using run_accept_failed [OF os(2,1) run _ refused(3)] refused(2) tr by auto
  next
    case (spawn fd)
    have "tpc_conns p' = tpc_conns p" using tpc_conns_spawn [of "TtNew fd (tc_next_id p)" p' p] spawn(2) by simp
    moreover have "mset (tpc_held p') = mset (tpc_held p)" using spawn by (simp add: tpc_held_def)
    then have "set (tpc_held p') = set (tpc_held p)" "distinct (tpc_held p')" using distinct_moved m by (auto simp: tpc_models_def)
    ultimately show ?thesis using m spawn by (intro same) (simp add: tpc_models_def tpc_ok_def)
  next
    case (sleep n)
    have "tpc_models F cfg p' (s\<lparr>p_trace := EvSleep 20 # tc_trace p\<rparr>)" unfolding sleep(2) using m sleep(1) by (clarsimp simp: defs)
    moreover have "only_events quiet (p_trace s) (EvSleep 20 # tc_trace p)" unfolding tr by (rule only_events_Cons) simp_all
    ultimately show ?thesis using run_quiet [OF run] by blast
  qed (rule same, use m in \<open>clarsimp simp: defs\<close>)+
qed

text \<open>A client thread that moves on, keeping or dropping its place on the counter.\<close>

lemma tpc_ok_thread:
  assumes "tpc_ok p" and "i < length (tc_threads p)" and "tc_threads p' = (tc_threads p)[i := x]" and "tc_main p' = tc_main p"
    and "tc_threads p ! i \<noteq> TtEnded" and "tc_live p' = tc_live p - (if x = TtEnded then 1 else 0)"
  shows "tpc_ok p'"
  using assms running_update [OF assms(2), of x] by (auto simp: tpc_ok_def)

lemma tpc_thread_models:
  assumes os: "fresh_descriptors os" "finite_interrupts os" "bounded_io os" and m: "tpc_models F cfg p s" and run: "proxy_run os cfg s"
    and step: "tpc_thread_step os cfg i p = Some p'"
  shows "\<exists>s'. tpc_models F cfg p' s' \<and> proxy_run os cfg s'"
proof -
  have i: "i < length (tc_threads p)" using step by (simp add: tpc_thread_step_def split: if_splits)
  have m': "p_trace s = tc_trace p" "p_res s = tc_res p" "p_caches s = [tc_cache p]" "p_conns s = tpc_conns p"
      "p_accepted s = set (tpc_held p)" "distinct (tpc_held p)" "tpc_ok p" "p_other s = F"
    using m by (simp_all add: tpc_models_def)
  have q: "0 < length (p_caches s)" using m' by simp
  note w = tpc_world_of [OF m]
  have conn: "p_conns s i = tt_conn (tc_threads p ! i)" using m'(4) i by (simp add: tpc_conns_def)
  show ?thesis
  proof (cases "tc_threads p ! i")
    case (TtNew fd cid)
    obtain c w' where n: "new_connection os fd cid (tpc_world p) = (c, w')" by fastforce
    have p': "p' = (set_tpc_world w' p)\<lparr>tc_threads := (tc_threads p)[i := TtServe ServeTop c]\<rparr>"
      using step i by (simp add: tpc_thread_step_def TtNew n)
    have "add_mset fd (mset (tpc_held p')) = mset (tpc_held p)" using tpc_held_update [OF i, of p' "TtServe ServeTop c"] TtNew p' by simp
    note held = distinct_taken [OF this [symmetric] m'(6)]
    let ?s = "set_world 0 w' (s\<lparr>p_accepted := p_accepted s - {fd}, p_conns := (p_conns s)(i \<mapsto> c)\<rparr>)"
    have "tpc_ok p'" by (rule tpc_ok_thread [OF m'(7) i, of p' "TtServe ServeTop c"]) (use p' TtNew in simp_all)
    then have "tpc_models F cfg p' ?s" using m' held tpc_conns_update [OF i, of p' "TtServe ServeTop c"] p' by (simp add: tpc_models_def)
    moreover have "proxy_run os cfg ?s" using n conn TtNew m' held(2) q w by (intro run_admit [OF run, where cid = cid]) simp_all
    ultimately show ?thesis by blast
  next
    case (TtServe pc c)
    then have k: "p_conns s i = Some c" using conn by simp
    show ?thesis
    proof (cases "pc = ServeLeave")
      case True
      have p': "p' = (set_tpc_world (destroy_connection c (tpc_world p)) p)\<lparr>tc_threads := (tc_threads p)[i := TtDec]\<rparr>"
        using step i True by (simp add: tpc_thread_step_def TtServe)
      have "mset (tpc_held p') = mset (tpc_held p)" using tpc_held_update [OF i, of p' TtDec] TtServe p' by simp
      note held = distinct_moved [OF this m'(6)]
      have "tpc_ok p'" by (rule tpc_ok_thread [OF m'(7) i, of p' TtDec]) (use p' TtServe in simp_all)
      then have "tpc_models F cfg p' (set_world 0 (destroy_connection c (world_of s 0)) (s\<lparr>p_conns := (p_conns s)(i := None)\<rparr>))"
        using m' held tpc_conns_update [OF i, of p' TtDec] p' w by (simp add: tpc_models_def)
      then show ?thesis using run_destroy [OF run k q] by blast
    next
      case False
      obtain pc' c' w' where sv: "serve_step os cfg pc c (tpc_world p) = Some (pc', c', w')"
        and p': "p' = (set_tpc_world w' p)\<lparr>tc_threads := (tc_threads p)[i := TtServe pc' c']\<rparr>"
        using step i False by (auto simp: tpc_thread_step_def TtServe split: bind_splits)
      have "mset (tpc_held p') = mset (tpc_held p)" using tpc_held_update [OF i, of p' "TtServe pc' c'"] TtServe p' by simp
      note held = distinct_moved [OF this m'(6)]
      let ?s = "set_world 0 w' (s\<lparr>p_conns := (p_conns s)(i \<mapsto> c')\<rparr>)"
      have "tpc_ok p'" by (rule tpc_ok_thread [OF m'(7) i, of p' "TtServe pc' c'"]) (use p' TtServe in simp_all)
      then have "tpc_models F cfg p' ?s" using m' held tpc_conns_update [OF i, of p' "TtServe pc' c'"] p' by (simp add: tpc_models_def)
      moreover have "proxy_run os cfg ?s" using sv w by (intro serve_step_run [OF os(2) run k q]) simp
      ultimately show ?thesis by blast
    qed
  next
    case TtDec
    have p': "p' = p\<lparr>tc_live := tc_live p - 1, tc_threads := (tc_threads p)[i := TtEnded]\<rparr>"
      using step i by (simp add: tpc_thread_step_def TtDec)
    have "mset (tpc_held p') = mset (tpc_held p)" using tpc_held_update [OF i, of p' TtEnded] TtDec p' by simp
    note held = distinct_moved [OF this m'(6)]
    have "tpc_conns p' = tpc_conns p" using tpc_conns_update [OF i, of p' TtEnded] p' conn TtDec m'(4) by (simp add: fun_upd_idem)
    moreover have "tpc_ok p'" by (rule tpc_ok_thread [OF m'(7) i, of p' TtEnded]) (use p' TtDec in simp_all)
    ultimately have "tpc_models F cfg p' s" using m' held p' by (simp add: tpc_models_def)
    then show ?thesis using run by blast
  qed (use step i in \<open>simp add: tpc_thread_step_def\<close>)
qed

lemma tpc_step_models:
  assumes os: "fresh_descriptors os" "finite_interrupts os" "bounded_io os" and m: "tpc_models F cfg p s" and run: "proxy_run os cfg s"
    and step: "tpc_step os cfg a p = Some p'"
  shows "\<exists>s'. tpc_models F cfg p' s' \<and> proxy_run os cfg s'"
proof (cases a)
  case TpcStop
  then have "p' = p\<lparr>tc_stop := True\<rparr>" using step by (simp add: tpc_step_def)
  then have "tpc_models F cfg p' s" using m by (clarsimp simp: tpc_models_def tpc_held_def tpc_ok_def)
  then show ?thesis using run by blast
next
  case (TpcResolver n)
  obtain r t where w: "worker_step os n (tc_res p) (tc_trace p) = Some (r, t)" and p': "p' = p\<lparr>tc_res := r, tc_trace := t\<rparr>"
    using step by (auto simp: tpc_step_def TpcResolver split: bind_splits)
  have "proxy_run os cfg (s\<lparr>p_res := r, p_trace := t\<rparr>)" using w m by (intro run_worker [OF run, of n]) (simp add: tpc_models_def)
  moreover have "tpc_models F cfg p' (s\<lparr>p_res := r, p_trace := t\<rparr>)"
    unfolding p' using m by (clarsimp simp: tpc_models_def tpc_held_def tpc_ok_def)
  ultimately show ?thesis by blast
qed (use step tpc_main_models [OF os m run] tpc_thread_models [OF os m run] in \<open>simp_all add: tpc_step_def\<close>)

interpretation tc: proxy_backend "tpc_init F" tpc_step "tpc_models F" for F
  using init_tpc_models tpc_step_models by unfold_locales blast+


section \<open>Properties\<close>

text \<open>
  C12. The counter is a sound barrier. It is never negative and every connection is counted. When
  \<^verbatim>\<open>run\<close> returns, the value \<open>n\<close> it found then bounds the threads that have not ended, which from
  there on the counter counts exactly.
  When \<open>n\<close> is zero no thread uses a connection any more: none is alive, none will be, and once the
  resolver is idle exactly the descriptors that were open before are open, so the resolver may be
  destroyed.
\<close>

theorem live_counter_barrier:
  assumes "fresh_descriptors os" and "finite_interrupts os" and "bounded_io os" and "reaches (tpc_init F os cfg) (tpc_step os cfg) p"
  shows "int (card (dom (tpc_conns p))) \<le> tc_live p \<and>
    (\<forall>n. tc_main p = McReturned n \<longrightarrow>
       tc_live p = int (length (filter (\<lambda>t. t \<noteq> TtEnded) (tc_threads p))) \<and> tc_live p \<le> n \<and>
       (n = 0 \<longrightarrow>
          tc_live p = 0 \<and> tpc_conns p = Map.empty \<and> tpc_held p = [] \<and> (open_fds (tc_trace p) = F \<or> \<not> resolver_idle (tc_res p))))"
proof -
  obtain s where m: "tpc_models F cfg p s" and inv: "proxy_inv cfg s" by (rule tc.models_inv [OF assms])
  have ok: "tc_live p = running (tc_threads p) + (case tc_main p of McSpawn _ \<Rightarrow> 1 | _ \<Rightarrow> 0)" "tc_main p = McReturned n \<Longrightarrow> tc_live p \<le> n" for n
    using m by (auto simp: tpc_models_def tpc_ok_def)
  have "dom (tpc_conns p) = {i. i < length (tc_threads p) \<and> tt_conn (tc_threads p ! i) \<noteq> None}"
    by (auto simp: tpc_conns_def split: if_splits)
  then have "card (dom (tpc_conns p)) = length (filter (\<lambda>t. tt_conn t \<noteq> None) (tc_threads p))" by (simp add: length_filter_conv_card)
  moreover have "length (filter (\<lambda>t. tt_conn t \<noteq> None) ts) \<le> length (filter (\<lambda>t. t \<noteq> TtEnded) ts)" for ts
    by (induction ts) auto
  ultimately have c: "int (card (dom (tpc_conns p))) \<le> running (tc_threads p)" by (simp add: running_def)
  have "tc_live p = 0 \<and> tpc_conns p = Map.empty \<and> tpc_held p = [] \<and> (open_fds (tc_trace p) = F \<or> \<not> resolver_idle (tc_res p))"
    if r: "tc_main p = McReturned 0"
  proof -
    have z: "running (tc_threads p) = 0" "tc_live p = 0" using ok(1) ok(2) [OF r] running_nonneg [of "tc_threads p"] r by simp_all
    then have e: "t = TtEnded" if "t \<in> set (tc_threads p)" for t using that by (auto simp: running_def filter_empty_conv)
    have "tc_threads p ! i = TtEnded" if "i < length (tc_threads p)" for i using e nth_mem [OF that] by blast
    then have cs: "tpc_conns p = Map.empty" by (simp add: tpc_conns_def fun_eq_iff)
    have "tt_fds t = []" if "t \<in> set (tc_threads p)" for t using e [OF that] by simp
    then have h: "tpc_held p = []" using r by (simp add: tpc_held_def)
    have "open_fds (tc_trace p) = F" if "resolver_idle (tc_res p)"
      using all_closed [OF inv] m cs h that by (simp add: tpc_models_def)
    then show ?thesis using z cs h by blast
  qed
  moreover have "running (tc_threads p) \<le> tc_live p" using ok(1) by (cases "tc_main p") simp_all
  then have "int (card (dom (tpc_conns p))) \<le> tc_live p" using c by linarith
  moreover have "tc_live p = int (length (filter (\<lambda>t. t \<noteq> TtEnded) (tc_threads p))) \<and> tc_live p \<le> n" if "tc_main p = McReturned n" for n
    using ok(1) ok(2) [OF that] that by (simp add: running_def)
  ultimately show ?thesis by blast
qed

definition quiet_start :: tpc where
  "quiet_start = tpc_start (demo_os (\<lambda>_. [])) 9 \<lparr>w_trace = [], w_res = new_resolver 0 60 0, w_cache = None\<rparr>"

theorem live_counter_barrier_witness:
  "\<exists>p. run_schedule (tpc_step (demo_os (\<lambda>_. [])) default_config) [TpcMain, TpcMain, TpcMain, TpcMain, TpcStop, TpcMain, TpcMain, TpcThread 0, TpcThread 0,
       TpcThread 0, TpcThread 0, TpcThread 0, TpcMain, TpcThread 0, TpcMain, TpcMain] quiet_start = Some p \<and>
     length (tc_threads p) = 1 \<and> tc_main p = McReturned 0 \<and> open_fds (tc_trace p) = {}"
proof -
  obtain p where r: "run_schedule (tpc_step (demo_os (\<lambda>_. [])) default_config) [TpcMain, TpcMain, TpcMain, TpcMain, TpcStop, TpcMain, TpcMain, TpcThread 0, TpcThread 0,
       TpcThread 0, TpcThread 0, TpcThread 0, TpcMain, TpcThread 0, TpcMain, TpcMain] quiet_start = Some p"
      "length (tc_threads p) = 1" "tc_main p = McReturned 0" "resolver_idle (tc_res p)"
    by (simp add: quiet_start_def tpc_start_def tpc_step_def tpc_main_step_def tpc_thread_step_def demo_calls new_resolver_def
        new_connection_def init_connection_def set_nonblocking_def fd_reset_def fd_destroy_def serve_step_def tpc_world_def
        set_tpc_world_def want_fd_def conn_done_def on_ready_def do_read_client_def finish_def set_want_def drop_job_def
        release_opt_def destroy_connection_def Let_def default_config_def resolver_idle_def)
  have i: "tpc_init {} (demo_os (\<lambda>_. [])) default_config quiet_start"
    unfolding tpc_init_def quiet_start_def by (metis insertI1 open_fds.simps(1))
  have "reaches (tpc_init {} (demo_os (\<lambda>_. [])) default_config) (tpc_step (demo_os (\<lambda>_. [])) default_config) p"
    by (rule reaches_schedule [OF _ r(1)]) (rule reaches_init, rule i)
  from live_counter_barrier [OF demo_os_hypotheses(1,3,2) this] r show ?thesis by auto
qed

end
