(* ===== verification/Loop_Backend.thy ===== *)
theory Loop_Backend
  imports Backend Conn_Queue "HOL-Library.AList"
begin

text \<open>
  Model of \<^verbatim>\<open>src/src/backend/event_loop.cpp\<close>: an event loop over a kqueue, alone or as one of several shards
  fed by an acceptor. A loop is a program counter with the local variables of \<^verbatim>\<open>run\<close>, and one step is one
  iteration of one of its inner loops: one event serviced, one client accepted or adopted, one read of the wakeup
  pipe. Connections are known by their addresses; an address is any number no live
  connection of the loop has, chosen with the step (the allocator may reuse addresses). Log messages are left out.
\<close>

section \<open>Inboxes\<close>

record inbox =
  ib_queue :: "fd list"
  ib_read_end :: fd
  ib_write_end :: fd

definition inbox_init :: "os \<Rightarrow> trace \<Rightarrow> bool \<times> inbox \<times> trace" where
  "inbox_init os t =
     (let (ok, re, we, t') = make_pipe os (-1) (-1) t in (ok, \<lparr>ib_queue = [], ib_read_end = re, ib_write_end = we\<rparr>, t'))"

text \<open>\<^verbatim>\<open>push\<close> appends under the lock and then, outside it, writes the wakeup byte.\<close>

definition inbox_push :: "fd \<Rightarrow> inbox \<Rightarrow> inbox" where
  "inbox_push fd ib = ib\<lparr>ib_queue := ib_queue ib @ [fd]\<rparr>"

definition inbox_wake :: "os \<Rightarrow> inbox \<Rightarrow> trace \<Rightarrow> trace" where
  "inbox_wake os ib t = EvWrite (ib_write_end ib) [CHR 0x01] (os_write os t (ib_write_end ib) [CHR 0x01]) # t"

definition inbox_drain :: "inbox \<Rightarrow> fd list \<times> inbox" where
  "inbox_drain ib = (ib_queue ib, ib\<lparr>ib_queue := []\<rparr>)"

interpretation ib: handoff ib_queue "\<lambda>fd ib. Some (inbox_push fd ib)" inbox_drain "\<lambda>ib. ib"
  by unfold_locales (auto simp: inbox_push_def inbox_drain_def)


section \<open>One loop\<close>

record slot =
  sl_conn :: connection
  sl_fd :: fd
  sl_write :: bool
  sl_epoch :: uint64

datatype loop_pc =
    ElStart
  | ElWait
  | ElBatch "udata list"
  | ElAccept "udata list"
  | ElInbox "udata list"
  | ElAdopt "fd list" "udata list"
  | ElStop
  | ElDrain int
  | ElDrainBatch "udata list" int
  | ElClear
  | ElReturned

record loop =
  el_kq :: fd
  el_listener :: fd
  el_live :: "(nat \<times> slot) list"
  el_stop :: bool
  el_inbox :: "inbox option"
  el_next_id :: uint64
  el_accepted :: uint64
  el_pc :: loop_pc

definition new_loop :: "fd \<Rightarrow> inbox option \<Rightarrow> loop" where
  "new_loop listener ib =
     \<lparr>el_kq = -1, el_listener = listener, el_live = [], el_stop = False, el_inbox = ib, el_next_id = 0, el_accepted = 0, el_pc = ElStart\<rparr>"

definition arm :: "os \<Rightarrow> fd \<Rightarrow> fd \<Rightarrow> bool \<Rightarrow> udata \<Rightarrow> trace \<Rightarrow> bool \<times> trace" where
  "arm os kq fd write u t = (let r = os_kev_add os t kq fd write u in (r = None, EvKevAdd kq fd write u r # t))"

definition disarm :: "os \<Rightarrow> fd \<Rightarrow> fd \<Rightarrow> bool \<Rightarrow> trace \<Rightarrow> trace" where
  "disarm os kq fd write t = (if fd < 0 then t else EvKevDelete kq fd write (os_kev_delete os t kq fd write) # t)"

text \<open>\<^verbatim>\<open>run\<close> up to its loop.\<close>

definition loop_start :: "os \<Rightarrow> loop \<Rightarrow> trace \<Rightarrow> loop \<times> trace" where
  "loop_start os l t =
     (let t1 = snd (set_nonblocking os (el_listener l) t);
          r = os_kqueue os t1;
          t2 = EvKqueue r # t1
      in case r of
           Inl _ \<Rightarrow> (l\<lparr>el_pc := ElReturned\<rparr>, t2)
         | Inr kq \<Rightarrow>
             let (ok, t3) = (case el_inbox l of
                               Some ib \<Rightarrow> arm os kq (ib_read_end ib) False INBOX_TAG t2
                             | None \<Rightarrow> arm os kq (el_listener l) False NullPtr t2)
             in (l\<lparr>el_kq := kq, el_pc := (if ok then ElWait else ElReturned)\<rparr>, t3))"

text \<open>What \<^verbatim>\<open>do_accept\<close> and \<^verbatim>\<open>take_from_inbox\<close> do with a client.\<close>

definition adopt :: "os \<Rightarrow> nat \<Rightarrow> fd \<Rightarrow> loop \<Rightarrow> world \<Rightarrow> loop \<times> world" where
  "adopt os raw client l w =
     (let l1 = l\<lparr>el_accepted := el_accepted l + 1, el_next_id := el_next_id l + 1\<rparr>;
          (c, w1) = new_connection os client (el_next_id l) w;
          fd = want_fd c w1;
          write = want_write c
      in if fd < 0 then (l1, destroy_connection c w1)
         else
           let (ok, t) = arm os (el_kq l) fd write (ConnPtr raw) (w_trace w1) in
           if \<not> ok then (l1, destroy_connection c (w1\<lparr>w_trace := t\<rparr>))
           else (l1\<lparr>el_live := AList.update raw \<lparr>sl_conn = c, sl_fd = fd, sl_write = write, sl_epoch = c_epoch c\<rparr> (el_live l1)\<rparr>,
                 w1\<lparr>w_trace := t\<rparr>))"

definition erase :: "nat \<Rightarrow> connection \<Rightarrow> loop \<Rightarrow> world \<Rightarrow> loop \<times> world" where
  "erase raw c l w = (l\<lparr>el_live := AList.delete raw (el_live l)\<rparr>, destroy_connection c w)"

definition service :: "os \<Rightarrow> config \<Rightarrow> nat \<Rightarrow> loop \<Rightarrow> world \<Rightarrow> (loop \<times> world) option" where
  "service os cfg raw l w =
     (case map_of (el_live l) raw of
        None \<Rightarrow> Some (l, w)
      | Some sl \<Rightarrow> do {
          (c, w1) \<leftarrow> on_ready os cfg (sl_conn sl) w;
          let unregistered = w1\<lparr>w_trace := disarm os (el_kq l) (sl_fd sl) (sl_write sl) (w_trace w1)\<rparr>;
          let new_fd = want_fd c w1;
          let new_write = want_write c;
          if conn_done c then Some (erase raw c l unregistered)
          else if new_fd < 0 then Some (erase raw c l unregistered)
          else if c_epoch c \<noteq> sl_epoch sl then
            let (ok, t) = arm os (el_kq l) new_fd new_write (ConnPtr raw) (w_trace unregistered);
                w2 = unregistered\<lparr>w_trace := t\<rparr>
            in if \<not> ok then Some (erase raw c l w2)
               else Some (l\<lparr>el_live := AList.update raw \<lparr>sl_conn = c, sl_fd = new_fd, sl_write = new_write, sl_epoch = c_epoch c\<rparr> (el_live l)\<rparr>, w2)
          else Some (l\<lparr>el_live := AList.update raw (sl\<lparr>sl_conn := c\<rparr>) (el_live l)\<rparr>, w1)
        })"

text \<open>One call of \<^verbatim>\<open>kevent\<close> that waits for events.\<close>

definition kevent :: "os \<Rightarrow> loop \<Rightarrow> trace \<Rightarrow> (errno + udata list) \<times> trace" where
  "kevent os l t = (let r = os_kevent os t (el_kq l) in (r, EvKevent (el_kq l) r # t))"

text \<open>One round of the loop of \<^verbatim>\<open>do_accept\<close>.\<close>

definition do_accept :: "os \<Rightarrow> nat \<Rightarrow> udata list \<Rightarrow> loop \<Rightarrow> world \<Rightarrow> (loop \<times> world) option" where
  "do_accept os raw us l w = do {
      ((st, fd), t) \<leftarrow> accept_one os (el_listener l) (w_trace w);
      let w1 = w\<lparr>w_trace := t\<rparr>;
      if st \<noteq> AcceptOk then Some (l\<lparr>el_pc := ElBatch us\<rparr>, w1)
      else if raw \<in> fst ` set (el_live l) then None
      else Some (adopt os raw fd l w1)
    }"

text \<open>\<^verbatim>\<open>take_from_inbox\<close>: one read of the wakeup pipe, the swap of the queue when it is empty, one client adopted.\<close>

definition take_from_inbox :: "os \<Rightarrow> nat \<Rightarrow> loop \<Rightarrow> world \<Rightarrow> (loop \<times> world) option" where
  "take_from_inbox os raw l w =
     (case el_pc l of
        ElInbox us \<Rightarrow> do {
          ib \<leftarrow> el_inbox l;
          let r = os_read os (w_trace w) (ib_read_end ib) 256;
          let w1 = w\<lparr>w_trace := EvRead (ib_read_end ib) 256 r # w_trace w\<rparr>;
          (case r of
             Inr (_ # _) \<Rightarrow> Some (l, w1)
           | _ \<Rightarrow> let (fds, ib1) = inbox_drain ib in Some (l\<lparr>el_inbox := Some ib1, el_pc := ElAdopt fds us\<rparr>, w1))
        }
      | ElAdopt [] us \<Rightarrow> Some (l\<lparr>el_pc := ElBatch us\<rparr>, w)
      | ElAdopt (fd # fds) us \<Rightarrow>
          if raw \<in> fst ` set (el_live l) then None
          else Some (adopt os raw fd (l\<lparr>el_pc := ElAdopt fds us\<rparr>) w)
      | _ \<Rightarrow> None)"

text \<open>One call of \<^verbatim>\<open>kevent\<close>, one event or one connection dropped in \<^verbatim>\<open>drain\<close>.\<close>

definition drain :: "os \<Rightarrow> config \<Rightarrow> loop \<Rightarrow> world \<Rightarrow> (loop \<times> world) option" where
  "drain os cfg l w =
     (case el_pc l of
        ElDrain waited \<Rightarrow>
          if el_live l = [] \<or> waited \<ge> 5000 then Some (l\<lparr>el_pc := ElClear\<rparr>, w)
          else
            let (r, t) = kevent os l (w_trace w) in
            Some (l\<lparr>el_pc := (case r of
                                Inl e \<Rightarrow> if e = EINTR then ElDrain waited else ElClear
                              | Inr us \<Rightarrow> ElDrainBatch us (if us = [] then waited + 100 else waited))\<rparr>, w\<lparr>w_trace := t\<rparr>)
      | ElDrainBatch [] waited \<Rightarrow> Some (l\<lparr>el_pc := ElDrain waited\<rparr>, w)
      | ElDrainBatch (u # us) waited \<Rightarrow>
          (case u of
             ConnPtr a \<Rightarrow> service os cfg a (l\<lparr>el_pc := ElDrainBatch us waited\<rparr>) w
           | _ \<Rightarrow> Some (l\<lparr>el_pc := ElDrainBatch us waited\<rparr>, w))
      | ElClear \<Rightarrow>
          (case el_live l of
             [] \<Rightarrow> Some (l\<lparr>el_pc := ElReturned\<rparr>, w)
           | (a, sl) # rest \<Rightarrow> Some (l\<lparr>el_live := rest\<rparr>, destroy_connection (sl_conn sl) w))
      | _ \<Rightarrow> None)"

definition loop_step :: "os \<Rightarrow> config \<Rightarrow> nat \<Rightarrow> loop \<Rightarrow> world \<Rightarrow> (loop \<times> world) option" where
  "loop_step os cfg raw l w =
     (case el_pc l of
        ElStart \<Rightarrow> let (l1, t) = loop_start os l (w_trace w) in Some (l1, w\<lparr>w_trace := t\<rparr>)
      | ElWait \<Rightarrow>
          if el_stop l then Some (l\<lparr>el_pc := ElStop\<rparr>, w)
          else
            let (r, t) = kevent os l (w_trace w) in
            Some (l\<lparr>el_pc := (case r of Inl e \<Rightarrow> if e = EINTR then ElWait else ElStop | Inr us \<Rightarrow> ElBatch us)\<rparr>, w\<lparr>w_trace := t\<rparr>)
      | ElBatch [] \<Rightarrow> Some (l\<lparr>el_pc := ElWait\<rparr>, w)
      | ElBatch (u # us) \<Rightarrow>
          (case u of
             INBOX_TAG \<Rightarrow> Some (l\<lparr>el_pc := ElInbox us\<rparr>, w)
           | NullPtr \<Rightarrow> Some (l\<lparr>el_pc := ElAccept us\<rparr>, w)
           | ConnPtr a \<Rightarrow> service os cfg a (l\<lparr>el_pc := ElBatch us\<rparr>) w)
      | ElAccept us \<Rightarrow> do_accept os raw us l w
      | ElInbox _ \<Rightarrow> take_from_inbox os raw l w
      | ElAdopt _ _ \<Rightarrow> take_from_inbox os raw l w
      | ElStop \<Rightarrow>
          (case el_inbox l of
             Some ib \<Rightarrow>
               Some (l\<lparr>el_pc := ElDrain 0\<rparr>, w\<lparr>w_trace := disarm os (el_kq l) (ib_read_end ib) False (w_trace w)\<rparr>)
           | None \<Rightarrow>
               Some (l\<lparr>el_listener := -1, el_pc := ElDrain 0\<rparr>,
                     w\<lparr>w_trace := fd_destroy (el_listener l) (disarm os (el_kq l) (el_listener l) False (w_trace w))\<rparr>))
      | ElDrain _ \<Rightarrow> drain os cfg l w
      | ElDrainBatch _ _ \<Rightarrow> drain os cfg l w
      | ElClear \<Rightarrow> drain os cfg l w
      | ElReturned \<Rightarrow> None)"

lemmas loop_step_defs = loop_step_def do_accept_def take_from_inbox_def drain_def


section \<open>Loops and their acceptor\<close>

text \<open>
  The thread in \<^verbatim>\<open>ShardedEventLoop::run\<close>: the head of the accept loop, the accept call, the push into the next inbox
  and its wakeup byte, then stopping the loops, joining, and the return. A loop that runs alone has no
  such thread.
\<close>

datatype shard_acceptor = NoAcceptor | ShTop | ShAccept | ShPush fd | ShWake | ShHalt | ShJoin | ShReturned

record loops =
  lp_trace :: trace
  lp_res :: resolver
  lp_caches :: "lru option list"
  lp_loops :: "loop list"
  lp_listener :: fd
  lp_stop :: bool
  lp_next :: nat
  lp_acc :: shard_acceptor

definition loops_world :: "nat \<Rightarrow> loops \<Rightarrow> world" where
  "loops_world i p = \<lparr>w_trace = lp_trace p, w_res = lp_res p, w_cache = lp_caches p ! i\<rparr>"

definition set_loop :: "nat \<Rightarrow> loop \<Rightarrow> world \<Rightarrow> loops \<Rightarrow> loops" where
  "set_loop i l w p =
     p\<lparr>lp_trace := w_trace w, lp_res := w_res w, lp_caches := (lp_caches p)[i := w_cache w], lp_loops := (lp_loops p)[i := l]\<rparr>"

definition single_start :: "fd \<Rightarrow> world \<Rightarrow> loops" where
  "single_start listener w =
     \<lparr>lp_trace = w_trace w, lp_res = w_res w, lp_caches = [w_cache w], lp_loops = [new_loop listener None],
      lp_listener = -1, lp_stop = False, lp_next = 0, lp_acc = NoAcceptor\<rparr>"

fun init_inboxes :: "os \<Rightarrow> nat \<Rightarrow> trace \<Rightarrow> bool \<times> inbox list \<times> trace" where
  "init_inboxes os 0 t = (True, [], t)"
| "init_inboxes os (Suc n) t =
     (let (ok, ib, t1) = inbox_init os t in
      if \<not> ok then (False, [ib], t1)
      else let (ok', ibs, t2) = init_inboxes os n t1 in (ok', ib # ibs, t2))"

definition shard_count :: "config \<Rightarrow> nat" where
  "shard_count cfg = (if event_loops cfg \<noteq> 0 then event_loops cfg else 1)"

text \<open>\<^verbatim>\<open>run\<close> of the sharded backend up to its accept loop; when a pipe cannot be made it returns at once.\<close>

definition sharded_start :: "os \<Rightarrow> config \<Rightarrow> fd \<Rightarrow> trace \<Rightarrow> resolver \<Rightarrow> loops" where
  "sharded_start os cfg listener t r =
     (let t1 = snd (set_nonblocking os listener t);
          (ok, ibs, t2) = init_inboxes os (shard_count cfg) t1;
          cache = (if cache_enabled cfg then Some (make_cache cfg) else None);
          ls = (if ok then map (\<lambda>ib. new_loop (-1) (Some ib)) ibs else [])
      in \<lparr>lp_trace = t2, lp_res = r, lp_caches = map (\<lambda>_. cache) ls, lp_loops = ls,
          lp_listener = listener, lp_stop = False, lp_next = 0, lp_acc = (if ok then ShTop else ShReturned)\<rparr>)"

definition stop_loops :: "loops \<Rightarrow> loops" where
  "stop_loops p = p\<lparr>lp_loops := map (\<lambda>l. l\<lparr>el_stop := True\<rparr>) (lp_loops p)\<rparr>"

definition update_inbox :: "(inbox \<Rightarrow> inbox) \<Rightarrow> loop \<Rightarrow> loop" where
  "update_inbox f l = l\<lparr>el_inbox := map_option f (el_inbox l)\<rparr>"

definition shard_accept_step :: "os \<Rightarrow> loops \<Rightarrow> loops option" where
  "shard_accept_step os p =
     (case lp_acc p of
        NoAcceptor \<Rightarrow> None
      | ShTop \<Rightarrow>
          if lp_stop p then Some (p\<lparr>lp_acc := ShHalt\<rparr>)
          else do {
            (ready, t) \<leftarrow> wait_ready os (lp_listener p) False 200 (lp_trace p);
            Some (p\<lparr>lp_trace := t, lp_acc := (if ready then ShAccept else ShTop)\<rparr>)
          }
      | ShAccept \<Rightarrow> do {
          ((st, fd), t) \<leftarrow> accept_one os (lp_listener p) (lp_trace p);
          Some (p\<lparr>lp_trace := t, lp_acc := (if st = AcceptOk then ShPush fd else ShTop)\<rparr>)
        }
      | ShPush fd \<Rightarrow>
          Some (p\<lparr>lp_loops := (lp_loops p)[lp_next p := update_inbox (inbox_push fd) (lp_loops p ! lp_next p)], lp_acc := ShWake\<rparr>)
      | ShWake \<Rightarrow> do {
          ib \<leftarrow> el_inbox (lp_loops p ! lp_next p);
          Some (p\<lparr>lp_trace := inbox_wake os ib (lp_trace p), lp_next := (lp_next p + 1) mod length (lp_loops p), lp_acc := ShAccept\<rparr>)
        }
      | ShHalt \<Rightarrow> Some ((stop_loops p)\<lparr>lp_acc := ShJoin\<rparr>)
      | ShJoin \<Rightarrow> if list_all (\<lambda>l. el_pc l = ElReturned) (lp_loops p) then Some (p\<lparr>lp_acc := ShReturned\<rparr>) else None
      | ShReturned \<Rightarrow> None)"

datatype loops_action = LoopsStop | LoopsAccept | LoopsRun nat nat | LoopsResolver nat

definition loops_step :: "os \<Rightarrow> config \<Rightarrow> loops_action \<Rightarrow> loops \<Rightarrow> loops option" where
  "loops_step os cfg a p =
     (case a of
        LoopsStop \<Rightarrow> Some (stop_loops (p\<lparr>lp_stop := True\<rparr>))
      | LoopsAccept \<Rightarrow> shard_accept_step os p
      | LoopsRun i raw \<Rightarrow>
          if length (lp_loops p) \<le> i then None
          else do {
            (l, w) \<leftarrow> loop_step os cfg raw (lp_loops p ! i) (loops_world i p);
            Some (set_loop i l w p)
          }
      | LoopsResolver n \<Rightarrow> do {
          (r, t) \<leftarrow> worker_step os n (lp_res p) (lp_trace p);
          Some (p\<lparr>lp_res := r, lp_trace := t\<rparr>)
        })"

text \<open>The process as \<^verbatim>\<open>main\<close> sets it up before it calls \<^verbatim>\<open>run\<close>, which it does with a valid listener; \<^verbatim>\<open>make_event_loop\<close>
  chooses by the number of loops.\<close>

definition make_event_loop :: "os \<Rightarrow> config \<Rightarrow> fd \<Rightarrow> world \<Rightarrow> loops" where
  "make_event_loop os cfg listener w =
     (if event_loops cfg > 1 then sharded_start os cfg listener (w_trace w) (w_res w) else single_start listener w)"

definition loops_init :: "os \<Rightarrow> config \<Rightarrow> loops \<Rightarrow> bool" where
  "loops_init os cfg p \<longleftrightarrow>
     (\<exists>listener t n ttl delay cache. 0 \<le> listener \<and> listener \<in> open_fds t \<and> cache \<in> {None, Some (make_cache cfg)} \<and>
        p = make_event_loop os cfg listener \<lparr>w_trace = t, w_res = new_resolver n ttl delay, w_cache = cache\<rparr>)"

end
