(* ===== verification/Loop_Safety.thy ===== *)
theory Loop_Safety
  imports Loop_Backend Proxy_Properties
begin

text \<open>
  The event loops are schedules of the process of theory \<open>Proxy\<close>, and every connection of a loop is
  registered with the loop's kqueue for exactly what it waits for. The first part says what a step of one
  party leaves alone of the registrations of the others (\<open>calm\<close>); the second follows the code of the loop.
\<close>

section \<open>What others leave alone\<close>

definition awaits :: "resolver \<Rightarrow> connection \<Rightarrow> fd" where
  "awaits r c = want_fd c \<lparr>w_trace = [], w_res = r, w_cache = None\<rparr>"

lemma want_fd_awaits: "want_fd c w = awaits (w_res w) c"
  by (cases "c_want c"; cases "c_job c") (simp_all add: awaits_def want_fd_def)

definition calm :: "fd set \<Rightarrow> 'k set \<Rightarrow> 'k proxy \<Rightarrow> 'k proxy \<Rightarrow> bool" where
  "calm Q K s s' \<longleftrightarrow>
     (\<forall>k c. k \<notin> K \<longrightarrow> p_conns s k = Some c \<longrightarrow> \<not> conn_done c \<longrightarrow>
        awaits (p_res s') c = awaits (p_res s) c \<and>
        (\<forall>kq w. kq \<notin> Q \<longrightarrow> registered kq (p_trace s') (awaits (p_res s) c, w) = registered kq (p_trace s) (awaits (p_res s) c, w))) \<and>
     (\<forall>k. k \<notin> K \<longrightarrow> p_conns s' k = p_conns s k) \<and>
     (\<forall>kq x u. kq \<notin> Q \<longrightarrow> registered kq (p_trace s') x = Some u \<longrightarrow> registered kq (p_trace s) x = Some u)"

lemma calmI:
  assumes "\<And>k c. k \<notin> K \<Longrightarrow> p_conns s k = Some c \<Longrightarrow> \<not> conn_done c \<Longrightarrow> awaits (p_res s') c = awaits (p_res s) c"
    and "\<And>k c kq w. k \<notin> K \<Longrightarrow> p_conns s k = Some c \<Longrightarrow> \<not> conn_done c \<Longrightarrow> kq \<notin> Q \<Longrightarrow>
      registered kq (p_trace s') (awaits (p_res s) c, w) = registered kq (p_trace s) (awaits (p_res s) c, w)"
    and "\<And>k. k \<notin> K \<Longrightarrow> p_conns s' k = p_conns s k"
    and "\<And>kq x u. kq \<notin> Q \<Longrightarrow> registered kq (p_trace s') x = Some u \<Longrightarrow> registered kq (p_trace s) x = Some u"
  shows "calm Q K s s'"
  unfolding calm_def by (intro conjI allI impI) (fact assms)+

lemma calmD:
  assumes "calm Q K s s'"
  shows "k \<notin> K \<Longrightarrow> p_conns s' k = p_conns s k"
    and "k \<notin> K \<Longrightarrow> p_conns s k = Some c \<Longrightarrow> \<not> conn_done c \<Longrightarrow> awaits (p_res s') c = awaits (p_res s) c"
    and "k \<notin> K \<Longrightarrow> p_conns s k = Some c \<Longrightarrow> \<not> conn_done c \<Longrightarrow> kq \<notin> Q \<Longrightarrow>
      registered kq (p_trace s') (awaits (p_res s) c, w) = registered kq (p_trace s) (awaits (p_res s) c, w)"
    and "kq \<notin> Q \<Longrightarrow> registered kq (p_trace s') x = Some u \<Longrightarrow> registered kq (p_trace s) x = Some u"
proof -
  note parts = assms [unfolded calm_def, THEN conjunct1] assms [unfolded calm_def, THEN conjunct2, THEN conjunct1]
    assms [unfolded calm_def, THEN conjunct2, THEN conjunct2]
  show "k \<notin> K \<Longrightarrow> p_conns s' k = p_conns s k" using parts(2) by blast
  show "k \<notin> K \<Longrightarrow> p_conns s k = Some c \<Longrightarrow> \<not> conn_done c \<Longrightarrow> awaits (p_res s') c = awaits (p_res s) c"
    using parts(1) by blast
  show "k \<notin> K \<Longrightarrow> p_conns s k = Some c \<Longrightarrow> \<not> conn_done c \<Longrightarrow> kq \<notin> Q \<Longrightarrow>
      registered kq (p_trace s') (awaits (p_res s) c, w) = registered kq (p_trace s) (awaits (p_res s) c, w)"
    using parts(1) by blast
  show "kq \<notin> Q \<Longrightarrow> registered kq (p_trace s') x = Some u \<Longrightarrow> registered kq (p_trace s) x = Some u"
    using parts(3) by blast
qed

lemma calm_refl [simp]: "calm Q K s s"
  by (rule calmI) simp_all

lemma calm_mono:
  assumes "calm Q K s s'" and "Q \<subseteq> Q'" and "K \<subseteq> K'"
  shows "calm Q' K' s s'"
  using assms(2,3) by (intro calmI) (blast intro: calmD [OF assms(1)])+

lemma calm_trans:
  assumes a: "calm Q K s s1" and b: "calm Q K s1 s2"
  shows "calm Q K s s2"
proof (rule calmI)
  fix k c assume k: "k \<notin> K" "p_conns s k = Some c" "\<not> conn_done c"
  have k1: "p_conns s1 k = Some c" using calmD(1) [OF a k(1)] k(2) by simp
  show "awaits (p_res s2) c = awaits (p_res s) c" using calmD(2) [OF a k] calmD(2) [OF b k(1) k1 k(3)] by simp
  show "registered kq (p_trace s2) (awaits (p_res s) c, w) = registered kq (p_trace s) (awaits (p_res s) c, w)" if "kq \<notin> Q" for kq w
    using calmD(2,3) [OF a k] calmD(3) [OF b k(1) k1 k(3)] that by simp
next
  show "p_conns s2 k = p_conns s k" if "k \<notin> K" for k using calmD(1) [OF a that] calmD(1) [OF b that] by simp
  show "registered kq (p_trace s) x = Some u" if "kq \<notin> Q" "registered kq (p_trace s2) x = Some u" for kq x u
    using calmD(4) [OF a that(1)] calmD(4) [OF b that] by simp
qed

lemma calm_fields:
  assumes "calm Q K s s'"
  shows "calm Q K s (s'\<lparr>p_accepted := A\<rparr>)" and "calm Q K s (s'\<lparr>p_other := A\<rparr>)"
  by (rule calmI; simp; blast intro: calmD [OF assms])+

lemma awaits_kept:
  assumes "c_want c \<noteq> ReadResolver \<or> (\<exists>i. c_job c = Some i \<and> j_read_end (r_jobs r' ! i) = j_read_end (r_jobs r ! i))"
  shows "awaits r' c = awaits r c"
  using assms by (cases "c_want c") (auto simp: awaits_def want_fd_def)

lemma calm_intro:
  assumes inv: "proxy_inv cfg s" and same: "\<And>k. k \<notin> K \<Longrightarrow> p_conns s' k = p_conns s k"
    and u: "untouched (conn_fds (p_conns s |` (- K)) \<union> pipes (held (p_conns s |` (- K))) (p_res s)) (p_trace s) (p_trace s')"
    and j: "jobs_kept (held (p_conns s |` (- K))) (p_res s) (p_res s')" and g: "grows (p_trace s) (p_trace s')"
  shows "calm {} K s s'"
proof -
  have "awaits (p_res s') c = awaits (p_res s) c \<and>
      (\<forall>kq w. registered kq (p_trace s') (awaits (p_res s) c, w) = registered kq (p_trace s) (awaits (p_res s) c, w))"
    if k: "k \<notin> K" "p_conns s k = Some c" "\<not> conn_done c" for k c
  proof -
    have k': "(p_conns s |` (- K)) k = Some c" using k by simp
    have eq: "want_fd c (world_of s 0) = awaits (p_res s) c" by (simp add: want_fd_awaits)
    from inv k(2,3) show ?thesis
    proof (cases rule: wait_cases [where q = 0])
      case socket
      have "cfds c \<subseteq> conn_fds (p_conns s |` (- K))" unfolding conn_fds_def using ranI [of "p_conns s |` (- K)", OF k'] by blast
      then have "awaits (p_res s) c \<in> conn_fds (p_conns s |` (- K))" using socket(1) eq by auto
      moreover have "awaits (p_res s') c = awaits (p_res s) c" using socket(2) by (intro awaits_kept) blast
      ultimately show ?thesis using u unfolding untouched_def by blast
    next
      case (pipe i)
      have h: "held (p_conns s |` (- K)) i = 1" using pipe(1) k' by (auto simp: held_def)
      then have "awaits (p_res s) c \<in> pipes (held (p_conns s |` (- K))) (p_res s)" using pipe(3,4) eq by (auto simp: pipes_def)
      moreover have "awaits (p_res s') c = awaits (p_res s) c"
        using pipe(1) j h by (intro awaits_kept) (auto simp: jobs_kept_def)
      ultimately show ?thesis using u unfolding untouched_def by blast
    qed
  qed
  then show ?thesis using same grows_registered [OF g] by (intro calmI) blast+
qed

lemma restrict_one [simp]: "p |` (- {k}) = p(k := None)"
  by (simp add: restrict_complement_singleton_eq)

lemma restrict_none [simp]: "p |` UNIV = p"
  by (simp add: fun_eq_iff restrict_map_def)

lemma calm_step:
  assumes inv: "proxy_inv cfg s" and step: "step_ok (rest_fds s k) (held ((p_conns s)(k := None))) (world_of s q) w"
  shows "calm {} {k} s (set_world q w (s\<lparr>p_conns := (p_conns s)(k := co)\<rparr>))"
proof (rule calm_intro [OF inv])
  have "conn_fds ((p_conns s)(k := None)) \<subseteq> rest_fds s k" by (simp add: rest_fds_def)
  moreover have "untouched (rest_fds s k \<union> pipes (held ((p_conns s)(k := None))) (p_res s)) (p_trace s) (w_trace w)"
    using step by (simp add: step_ok_def)
  ultimately show "untouched (conn_fds (p_conns s |` (- {k})) \<union> pipes (held (p_conns s |` (- {k}))) (p_res s)) (p_trace s)
      (p_trace (set_world q w (s\<lparr>p_conns := (p_conns s)(k := co)\<rparr>)))"
    using untouched_mono by (metis (no_types, lifting) Un_mono order_refl restrict_one set_world_fields(4))
qed (use step in \<open>simp_all add: step_ok_def\<close>)

lemma calm_quiet:
  assumes inv: "proxy_inv cfg s" and q: "only_events quiet (p_trace s) t"
  shows "calm {} {} s (s\<lparr>p_trace := t\<rparr>)"
  by (rule calm_intro [OF inv]) (use only_events_quiet(2) [OF q] grows_quiet [OF q] in \<open>simp_all add: jobs_kept_def\<close>)

text \<open>The pipes of waiting connections are open, and not among anybody's sockets.\<close>

lemma inv_pipes:
  assumes inv: "proxy_inv cfg s"
  shows "pipes (held (p_conns s)) (p_res s) \<subseteq> open_fds (p_trace s)"
    and "pipes (held (p_conns s)) (p_res s) \<inter> (p_other s \<union> p_accepted s \<union> conn_fds (p_conns s)) = {}"
proof -
  let ?w = "\<lparr>w_trace = p_trace s, w_res = p_res s, w_cache = None\<rparr>"
  have "owned cfg (p_other s \<union> p_accepted s \<union> conn_fds (p_conns s)) (held (p_conns s)) None ?w"
    using proxy_inv_parts(1,2) [OF inv] by (simp add: owned_def cache_ok_def)
  from owned_pipes(1,2) [OF this] show "pipes (held (p_conns s)) (p_res s) \<subseteq> open_fds (p_trace s)"
    "pipes (held (p_conns s)) (p_res s) \<inter> (p_other s \<union> p_accepted s \<union> conn_fds (p_conns s)) = {}" by simp_all
qed

lemma calm_open:
  assumes inv: "proxy_inv cfg s" and u: "untouched (open_fds (p_trace s)) (p_trace s) t" and g: "grows (p_trace s) t"
  shows "calm {} {} s (s\<lparr>p_trace := t\<rparr>)"
proof (rule calm_intro [OF inv])
  have "conn_fds (p_conns s) \<union> pipes (held (p_conns s)) (p_res s) \<subseteq> open_fds (p_trace s)"
    using inv_pipes(1) [OF inv] proxy_inv_parts(5) [OF inv] by blast
  from untouched_mono [OF u this] show "untouched (conn_fds (p_conns s |` (- {})) \<union> pipes (held (p_conns s |` (- {}))) (p_res s))
      (p_trace s) (p_trace (s\<lparr>p_trace := t\<rparr>))" by simp
qed (use g in \<open>simp_all add: jobs_kept_def\<close>)

lemma calm_destroy_fd:
  assumes inv: "proxy_inv cfg s" and fd: "fd \<in> p_other s \<union> p_accepted s"
  shows "calm {} {} s (s\<lparr>p_trace := fd_destroy fd (p_trace s)\<rparr>)"
proof (rule calm_intro [OF inv])
  have "conn_fds (p_conns s) \<union> pipes (held (p_conns s)) (p_res s) \<subseteq> - ({fd} \<inter> {0..})"
    using inv_pipes(2) [OF inv] proxy_inv_sets [OF inv] fd by blast
  from untouched_mono [OF fd_destroy_effect(2) this]
  show "untouched (conn_fds (p_conns s |` (- {})) \<union> pipes (held (p_conns s |` (- {}))) (p_res s))
      (p_trace s) (p_trace (s\<lparr>p_trace := fd_destroy fd (p_trace s)\<rparr>))" by simp
qed (simp_all add: jobs_kept_def)

lemma worker_step_pipes:
  assumes inv: "resolver_inv E r t" and own: "jobs_own G r t" and step: "worker_step os k r t = Some (r', t')"
  shows "untouched (pipes E r) t t'"
proof -
  let ?w = "\<lparr>w_trace = t, w_res = r, w_cache = None\<rparr>"
  have ids: "i < length (r_jobs r)" if "E i = 1" for i using resolver_inv_ids [OF inv that] .
  have apart: "jfds (r_jobs r ! i) \<inter> jfds (r_jobs r ! m) = {}" if "i < length (r_jobs r)" "m < length (r_jobs r)" "i \<noteq> m" for i m
    using own that unfolding jobs_own_def by blast
  have two: "j_read_end (r_jobs r ! i) \<noteq> j_write_end (r_jobs r ! i) \<or> j_read_end (r_jobs r ! i) < 0" if "i < length (r_jobs r)" for i
    using own nth_mem [OF that] unfolding jobs_own_def by blast
  have k: "k < length (r_workers r)" using worker_step_index [OF step] .
  have refs: "refs_ok E r" using inv by (simp add: resolver_inv_def)
  have wid: "i < length (r_jobs r)" if "worker_job (r_workers r ! k) = Some i" for i
    using inv claims_ids(2) nth_mem [OF k] that unfolding resolver_inv_def by blast
  from step show ?thesis
  proof (cases rule: worker_step_cases)
    case (lookup i ok eps err)
    then show ?thesis by (intro only_events_quiet(2))
  next
    case (store i ok r1)
    then show ?thesis by (intro only_events_quiet(2))
  next
    case (signal i res)
    then show ?thesis by (simp add: untouched_quiet)
  next
    case (shut i)
    have i: "i < length (r_jobs r)" using wid shut(1) by simp
    have ne: "j_write_end (r_jobs r ! i) \<noteq> j_read_end (r_jobs r ! m)" if "E m = 1" "0 \<le> j_read_end (r_jobs r ! m)" for m
      using two [OF i] apart [OF i ids [OF that(1)]] that(2) by (cases "m = i") (auto simp: jfds_def)
    have "j_write_end (r_jobs r ! i) \<notin> pipes E r" using ne by (force simp: pipes_def)
    then have "pipes E r \<subseteq> - ({j_write_end (r_jobs r ! i)} \<inter> {0..})" by blast
    from untouched_mono [OF fd_destroy_effect(2) this] show ?thesis using shut(2) by simp
  next
    case (release i)
    have i: "i < length (r_jobs r)" using wid release(1) by simp
    have refs: "j_refs (r_jobs r ! i) = E i + 1" using refs refs_exclusive [OF refs k, of i] release(1) by (simp add: refs_ok_def)
    show ?thesis
    proof (cases "E i = 0")
      case False
      then show ?thesis using refs release(3) by (simp add: release_job_def Let_def)
    next
      case True
      have "m \<noteq> i" if "E m = 1" for m using that True by auto
      then have "fd \<notin> jfds (r_jobs r ! i)" if "fd \<in> pipes E r" for fd
        using that apart [OF _ i] ids by (fastforce simp: pipes_def jfds_def)
      then have "pipes E r \<subseteq> - jfds (r_jobs r ! i)" by blast
      from untouched_mono [OF release_job_untouched this] show ?thesis using release(3) by simp
    qed
  qed simp_all
qed

lemma calm_worker:
  assumes inv: "proxy_inv cfg s" and step: "worker_step os n (p_res s) (p_trace s) = Some (r, t)"
  shows "calm {} {} s (s\<lparr>p_res := r, p_trace := t\<rparr>)"
proof (rule calm_intro [OF inv])
  note p = proxy_inv_parts [OF inv]
  have "untouched (pipes (held (p_conns s)) (p_res s)) (p_trace s) t" by (rule worker_step_pipes [OF p(2,1) step])
  moreover have "untouched (conn_fds (p_conns s)) (p_trace s) t"
    using untouched_mono [OF worker_step_frame(2) [OF p(2,1) step]] by blast
  ultimately show "untouched (conn_fds (p_conns s |` (- {})) \<union> pipes (held (p_conns s |` (- {}))) (p_res s))
      (p_trace s) (p_trace (s\<lparr>p_res := r, p_trace := t\<rparr>))" by (auto simp: untouched_def)
  show "jobs_kept (held (p_conns s |` (- {}))) (p_res s) (p_res (s\<lparr>p_res := r, p_trace := t\<rparr>))"
    using worker_step_frame(4) [OF p(2,1) step] by simp
  show "grows (p_trace s) (p_trace (s\<lparr>p_res := r, p_trace := t\<rparr>))" using worker_step_grows [OF step] by simp
qed simp

text \<open>What happens at one kqueue does not concern the others.\<close>

lemma calm_kq:
  assumes "\<And>k. k \<noteq> kq \<Longrightarrow> registered k (ev # p_trace s) = registered k (p_trace s)"
  shows "calm {kq} {} s (s\<lparr>p_trace := ev # p_trace s\<rparr>)"
  using assms by (intro calmI) (simp_all del: registered.simps)

text \<open>No two connections wait for the same descriptor.\<close>

lemma waits_distinct:
  assumes inv: "proxy_inv cfg s" and k: "p_conns s k = Some c" "p_conns s k' = Some c'" "k \<noteq> k'" and nd: "\<not> conn_done c" "\<not> conn_done c'"
  shows "awaits (p_res s) c \<noteq> awaits (p_res s) c'"
proof -
  have d: "cfds c \<inter> cfds c' = {} \<and> (c_job c = None \<or> c_job c \<noteq> c_job c')" using inv k unfolding proxy_inv_def by blast
  have sock: "cfds x \<subseteq> conn_fds (p_conns s)" if "p_conns s y = Some x" for x y
    unfolding conn_fds_def using ranI [of "p_conns s", OF that] by blast
  have pp: "fd \<notin> conn_fds (p_conns s)" if "p_conns s y = Some x" "c_job x = Some i" "fd = j_read_end (r_jobs (p_res s) ! i)" "0 \<le> fd" for x y i fd
  proof -
    have "held (p_conns s) i = 1" using that(1,2) by (auto simp: held_def)
    then have "fd \<in> pipes (held (p_conns s)) (p_res s)" using that(3,4) by (auto simp: pipes_def)
    then show ?thesis using inv_pipes(2) [OF inv] by blast
  qed
  have eq: "want_fd x (world_of s 0) = awaits (p_res s) x" for x by (simp add: want_fd_awaits)
  note a = wait_cases [OF inv k(1) nd(1), of 0, unfolded eq] and b = wait_cases [OF inv k(2) nd(2), of 0, unfolded eq]
  show ?thesis
  proof (rule a)
    assume s1: "awaits (p_res s) c \<in> cfds c"
    show ?thesis
    proof (rule b)
      assume "awaits (p_res s) c' \<in> cfds c'"
      then show ?thesis using s1 d by auto
    next
      fix i assume "c_job c' = Some i" "awaits (p_res s) c' = j_read_end (r_jobs (p_res s) ! i)" "0 \<le> j_read_end (r_jobs (p_res s) ! i)"
      with pp [OF k(2), of i] show ?thesis using s1 sock [OF k(1)] by force
    qed
  next
    fix i assume i: "c_job c = Some i" "awaits (p_res s) c = j_read_end (r_jobs (p_res s) ! i)" "0 \<le> j_read_end (r_jobs (p_res s) ! i)"
    show ?thesis
    proof (rule b)
      assume "awaits (p_res s) c' \<in> cfds c'"
      with pp [OF k(1) i(1)] i show ?thesis using sock [OF k(2)] by force
    next
      fix m assume m: "c_job c' = Some m" "awaits (p_res s) c' = j_read_end (r_jobs (p_res s) ! m)"
      have "i \<noteq> m" using d i(1) m(1) by auto
      have "held (p_conns s) i = 1" "held (p_conns s) m = 1" using i(1) m(1) k by (auto simp: held_def)
      then have "i < length (r_jobs (p_res s))" "m < length (r_jobs (p_res s))"
        using resolver_inv_ids [OF proxy_inv_parts(2) [OF inv]] by blast+
      then have "jfds (r_jobs (p_res s) ! i) \<inter> jfds (r_jobs (p_res s) ! m) = {}"
        using proxy_inv_parts(1) [OF inv] \<open>i \<noteq> m\<close> unfolding jobs_own_def by blast
      then show ?thesis using i m by (auto simp: jfds_def)
    qed
  qed
qed


lemma calm_admit:
  assumes inv: "proxy_inv cfg s" and q: "only_events quiet (p_trace s) (p_trace s')"
    and s': "p_res s' = p_res s" "p_conns s' = (p_conns s)(k := co)"
  shows "calm {} {k} s s'"
  by (rule calm_intro [OF inv]) (use s' only_events_quiet(2) [OF q] grows_quiet [OF q] in \<open>simp_all add: jobs_kept_def\<close>)


section \<open>The registrations of one loop\<close>

definition slot_ok :: "fd \<Rightarrow> trace \<Rightarrow> resolver \<Rightarrow> nat \<Rightarrow> slot \<Rightarrow> bool" where
  "slot_ok kq t r a sl \<longleftrightarrow>
     \<not> conn_done (sl_conn sl) \<and> sl_fd sl = awaits r (sl_conn sl) \<and> sl_write sl = want_write (sl_conn sl) \<and>
     sl_epoch sl = c_epoch (sl_conn sl) \<and> registered kq t (sl_fd sl, sl_write sl) = Some (ConnPtr a)"

definition active :: "loop \<Rightarrow> 'k proxy \<Rightarrow> bool" where
  "active l s \<longleftrightarrow> el_pc l \<notin> {ElStart, ElClear, ElReturned} \<and> 0 \<le> el_kq l \<and> el_kq l \<in> p_other s \<and> el_kq l \<noteq> el_listener l"

definition doors :: "loop \<Rightarrow> 'k proxy \<Rightarrow> bool" where
  "doors l s \<longleftrightarrow> (el_listener l = -1 \<or> el_listener l \<in> p_other s) \<and> (\<forall>ib. el_inbox l = Some ib \<longrightarrow> ib_read_end ib \<in> p_other s)"

lemma doors_fields [simp]:
  "doors (l\<lparr>el_live := x\<rparr>) s = doors l s" "doors (l\<lparr>el_pc := pc\<rparr>) s = doors l s" "doors (l\<lparr>el_accepted := n\<rparr>) s = doors l s"
  "doors (l\<lparr>el_next_id := n\<rparr>) s = doors l s" "doors (l\<lparr>el_kq := kq\<rparr>) s = doors l s" "doors (l\<lparr>el_stop := b\<rparr>) s = doors l s"
  "doors l (s\<lparr>p_trace := t\<rparr>) = doors l s"
  by (simp_all add: doors_def)

lemma doors_kept: "doors l s \<Longrightarrow> p_other s' = p_other s \<Longrightarrow> doors l s'"
  by (simp add: doors_def)

definition shard :: "nat \<Rightarrow> loop \<Rightarrow> (nat \<times> nat) proxy \<Rightarrow> bool" where
  "shard i l s \<longleftrightarrow>
     distinct (map fst (el_live l)) \<and>
     (\<forall>a. p_conns s (i, a) = map_option sl_conn (map_of (el_live l) a)) \<and>
     (\<forall>a sl. map_of (el_live l) a = Some sl \<longrightarrow> slot_ok (el_kq l) (p_trace s) (p_res s) a sl) \<and>
     (active l s \<and> (\<forall>x a. registered (el_kq l) (p_trace s) x = Some (ConnPtr a) \<longrightarrow>
                      (\<exists>sl. map_of (el_live l) a = Some sl \<and> x = (sl_fd sl, sl_write sl))) \<or>
      el_pc l = ElClear \<and> 0 \<le> el_kq l \<and> el_kq l \<in> p_other s \<or> el_pc l \<in> {ElStart, ElReturned} \<and> el_live l = []) \<and>
     doors l s"

text \<open>The same while connection \<open>raw\<close> is in the hands of the loop and not registered.\<close>

definition shard_but :: "nat \<Rightarrow> nat \<Rightarrow> loop \<Rightarrow> (nat \<times> nat) proxy \<Rightarrow> bool" where
  "shard_but i raw l s \<longleftrightarrow>
     distinct (map fst (el_live l)) \<and>
     (\<forall>a. a \<noteq> raw \<longrightarrow> p_conns s (i, a) = map_option sl_conn (map_of (el_live l) a)) \<and>
     (\<forall>a sl. a \<noteq> raw \<longrightarrow> map_of (el_live l) a = Some sl \<longrightarrow> slot_ok (el_kq l) (p_trace s) (p_res s) a sl) \<and>
     (\<forall>x a. registered (el_kq l) (p_trace s) x = Some (ConnPtr a) \<longrightarrow>
        a \<noteq> raw \<and> (\<exists>sl. map_of (el_live l) a = Some sl \<and> x = (sl_fd sl, sl_write sl))) \<and>
     active l s \<and> doors l s"

lemma slot_calm:
  assumes c: "calm Q K s s'" and ok: "slot_ok kq (p_trace s) (p_res s) a sl" and k: "p_conns s k = Some (sl_conn sl)" "k \<notin> K" "kq \<notin> Q"
  shows "slot_ok kq (p_trace s') (p_res s') a sl"
  using ok calmD(2) [OF c k(2,1)] calmD(3) [OF c k(2,1) _ k(3)] by (auto simp: slot_ok_def)

lemma shardD:
  assumes "shard i l s"
  shows "distinct (map fst (el_live l))" and "p_conns s (i, a) = map_option sl_conn (map_of (el_live l) a)"
    and "map_of (el_live l) a = Some sl \<Longrightarrow> slot_ok (el_kq l) (p_trace s) (p_res s) a sl"
    and "active l s \<Longrightarrow> registered (el_kq l) (p_trace s) x = Some (ConnPtr a) \<Longrightarrow>
      \<exists>sl. map_of (el_live l) a = Some sl \<and> x = (sl_fd sl, sl_write sl)"
    and "el_pc l \<in> {ElStart, ElReturned} \<Longrightarrow> el_live l = []" and "doors l s"
    and "el_pc l \<notin> {ElStart, ElReturned} \<Longrightarrow> 0 \<le> el_kq l \<and> el_kq l \<in> p_other s" and "el_pc l \<notin> {ElStart, ElClear, ElReturned} \<Longrightarrow> active l s"
proof -
  note d = assms [unfolded shard_def]
  show "distinct (map fst (el_live l))" "p_conns s (i, a) = map_option sl_conn (map_of (el_live l) a)"
    "map_of (el_live l) a = Some sl \<Longrightarrow> slot_ok (el_kq l) (p_trace s) (p_res s) a sl"
    "doors l s" using d by blast+
  show "\<exists>sl. map_of (el_live l) a = Some sl \<and> x = (sl_fd sl, sl_write sl)"
    if "active l s" "registered (el_kq l) (p_trace s) x = Some (ConnPtr a)"
  proof -
    have "el_pc l \<noteq> ElClear" "el_pc l \<notin> {ElStart, ElReturned}" using that(1) by (auto simp: active_def)
    then show ?thesis using d that(2) by blast
  qed
  show "el_live l = []" if "el_pc l \<in> {ElStart, ElReturned}"
    using d [THEN conjunct2, THEN conjunct2, THEN conjunct2, THEN conjunct1] that by (auto simp: active_def)
  show "0 \<le> el_kq l \<and> el_kq l \<in> p_other s" if "el_pc l \<notin> {ElStart, ElReturned}"
    using d [THEN conjunct2, THEN conjunct2, THEN conjunct2, THEN conjunct1] that by (auto simp: active_def)
  show "active l s" if "el_pc l \<notin> {ElStart, ElClear, ElReturned}"
    using d [THEN conjunct2, THEN conjunct2, THEN conjunct2, THEN conjunct1] that by blast
qed

lemma shard_frame:
  assumes sh: "shard j l s" and c: "calm Q K s s'" and K: "\<And>a. (j, a) \<notin> K" and Q: "el_kq l \<notin> Q \<or> el_pc l \<in> {ElStart, ElReturned}"
    and o: "p_other s \<inter> ({el_kq l, el_listener l} \<union> ib_read_end ` set_option (el_inbox l)) \<subseteq> p_other s'"
  shows "shard j l s'"
proof -
  note d = shardD [OF sh]
  have slots: "slot_ok (el_kq l) (p_trace s') (p_res s') a sl" if "map_of (el_live l) a = Some sl" for a sl
    using slot_calm [OF c d(3) [OF that], of "(j, a)"] d(2) [of a] K Q d(5) that by fastforce
  have conns: "p_conns s' (j, a) = map_option sl_conn (map_of (el_live l) a)" for a using calmD(1) [OF c K] d(2) by simp
  have lis: "doors l s'" using d(6) o by (auto simp: doors_def)
  consider "el_pc l \<in> {ElStart, ElReturned}" | "el_pc l = ElClear" | "el_pc l \<notin> {ElStart, ElClear, ElReturned}" by blast
  then show ?thesis
  proof cases
    case 1
    then show ?thesis unfolding shard_def using slots conns d(1) d(5) lis by blast
  next
    case 2
    then have "0 \<le> el_kq l" "el_kq l \<in> p_other s'" using d(7) o by auto
    then show ?thesis unfolding shard_def using 2 slots conns d(1) lis by blast
  next
    case 3
    have a: "active l s" by (rule d(8) [OF 3])
    then have a': "active l s'" using o by (auto simp: active_def)
    have "\<exists>sl. map_of (el_live l) a = Some sl \<and> x = (sl_fd sl, sl_write sl)" if "registered (el_kq l) (p_trace s') x = Some (ConnPtr a)" for x a
      using d(4) [OF a] calmD(4) [OF c _ that] Q 3 by blast
    then show ?thesis unfolding shard_def using a' slots conns d(1) lis by blast
  qed
qed

lemma shard_slots_distinct:
  assumes inv: "proxy_inv cfg s" and conns: "p_conns s (i, a) = Some (sl_conn sl)" "p_conns s (i, b) = Some c" "a \<noteq> b"
    and ok: "slot_ok kq t (p_res s) a sl" and nd: "\<not> conn_done c"
  shows "sl_fd sl \<noteq> awaits (p_res s) c"
  using waits_distinct [OF inv conns(1,2) _ _ nd] conns(3) ok by (simp add: slot_ok_def)


section \<open>Unregister, register, erase\<close>

lemma run_kev:
  assumes run: "proxy_run os cfg s" and ev: "\<And>t. open_fds (ev # t) = open_fds t" "\<And>fd t. sent_bytes fd (ev # t) = sent_bytes fd t"
      "\<And>fd t. received_bytes fd (ev # t) = received_bytes fd t"
  shows "proxy_run os cfg (s\<lparr>p_trace := ev # p_trace s\<rparr>)"
proof -
  have "proxy_run os cfg (s\<lparr>p_trace := ev # p_trace s, p_other := p_other s - {} \<union> {}\<rparr>)"
    by (rule run_other [OF run]) (simp_all add: ev bytes_kept_def suffix_ConsI del: open_fds.simps sent_bytes.simps received_bytes.simps)
  then show ?thesis by simp
qed

lemma disarm_trace: "disarm os kq fd w t = (if fd < 0 then t else EvKevDelete kq fd w (os_kev_delete os t kq fd w) # t)"
  by (simp add: disarm_def)

lemma run_disarm:
  assumes run: "proxy_run os cfg s"
  shows "proxy_run os cfg (s\<lparr>p_trace := disarm os kq fd w (p_trace s)\<rparr>)"
    and "calm {kq} {} s (s\<lparr>p_trace := disarm os kq fd w (p_trace s)\<rparr>)"
  using run_kev [OF run] calm_kq [of kq "EvKevDelete kq fd w (os_kev_delete os (p_trace s) kq fd w)" s] run
  by (auto simp: disarm_trace)

lemma disarm_registered:
  assumes "0 \<le> fd"
  shows "registered kq (disarm os kq fd w t) = (registered kq t)((fd, w) := None)"
  using assms by (simp add: disarm_trace)

lemma run_arm:
  assumes run: "proxy_run os cfg s" and arm: "arm os kq fd w u (p_trace s) = (ok, t)"
  shows "proxy_run os cfg (s\<lparr>p_trace := t\<rparr>)" and "calm {kq} {} s (s\<lparr>p_trace := t\<rparr>)"
    and "registered kq t = (if ok then (registered kq (p_trace s))((fd, w) \<mapsto> u) else registered kq (p_trace s))"
proof -
  have t: "t = EvKevAdd kq fd w u (os_kev_add os (p_trace s) kq fd w u) # p_trace s" and ok: "ok \<longleftrightarrow> os_kev_add os (p_trace s) kq fd w u = None"
    using arm by (auto simp: arm_def Let_def)
  show "proxy_run os cfg (s\<lparr>p_trace := t\<rparr>)" unfolding t by (rule run_kev [OF run]) simp_all
  show "calm {kq} {} s (s\<lparr>p_trace := t\<rparr>)" unfolding t by (rule calm_kq) (simp split: option.splits)
  show "registered kq t = (if ok then (registered kq (p_trace s))((fd, w) \<mapsto> u) else registered kq (p_trace s))"
    unfolding t ok by (simp split: option.splits)
qed

lemma shard_butD:
  assumes "shard_but i raw l s"
  shows "distinct (map fst (el_live l))" and "a \<noteq> raw \<Longrightarrow> p_conns s (i, a) = map_option sl_conn (map_of (el_live l) a)"
    and "a \<noteq> raw \<Longrightarrow> map_of (el_live l) a = Some sl \<Longrightarrow> slot_ok (el_kq l) (p_trace s) (p_res s) a sl"
    and "registered (el_kq l) (p_trace s) x = Some (ConnPtr a) \<Longrightarrow> a \<noteq> raw"
    and "registered (el_kq l) (p_trace s) x = Some (ConnPtr a) \<Longrightarrow> \<exists>sl. map_of (el_live l) a = Some sl \<and> x = (sl_fd sl, sl_write sl)"
    and "active l s" and "doors l s"
  using assms unfolding shard_but_def by blast+

text \<open>The loop takes a connection out: after \<^verbatim>\<open>on_ready\<close> and the removal of the old registration.\<close>

lemma shard_take_out:
  assumes inv: "proxy_inv cfg s" and sh: "shard i l s" and sl: "map_of (el_live l) raw = Some sl" and act: "active l s"
    and c: "calm {} {(i, raw)} s s1" and o: "p_other s1 = p_other s"
    and t: "t = disarm os (el_kq l) (sl_fd sl) (sl_write sl) (p_trace s1)"
  shows "shard_but i raw l (s1\<lparr>p_trace := t\<rparr>)"
proof -
  note d = shardD [OF sh]
  have own: "p_conns s (i, raw) = Some (sl_conn sl)" "\<not> conn_done (sl_conn sl)" "sl_fd sl = awaits (p_res s) (sl_conn sl)"
    using d(2) [of raw] d(3) [OF sl] sl by (simp_all add: slot_ok_def)
  have fd: "0 \<le> sl_fd sl" using wait_open(1) [OF inv own(1,2), of 0] own(3) by (simp add: want_fd_awaits)
  note r = disarm_registered [OF fd, of "el_kq l" os "sl_write sl" "p_trace s1", folded t]
  have slots: "slot_ok (el_kq l) t (p_res s1) a x" if a: "a \<noteq> raw" "map_of (el_live l) a = Some x" for a x
  proof -
    have k: "p_conns s (i, a) = Some (sl_conn x)" using d(2) [of a] a by simp
    have "slot_ok (el_kq l) (p_trace s1) (p_res s1) a x" by (rule slot_calm [OF c d(3) [OF a(2)] k]) (use a in simp_all)
    moreover have "sl_fd x \<noteq> sl_fd sl" using shard_slots_distinct [OF inv k own(1) a(1) d(3) [OF a(2)] own(2)] own(3) by simp
    ultimately show ?thesis by (clarsimp simp: slot_ok_def r)
  qed
  have conns: "p_conns s1 (i, a) = map_option sl_conn (map_of (el_live l) a)" if "a \<noteq> raw" for a
    using calmD(1) [OF c, of "(i, a)"] d(2) that by simp
  have stale: "a \<noteq> raw \<and> (\<exists>x. map_of (el_live l) a = Some x \<and> y = (sl_fd x, sl_write x))" if "registered (el_kq l) t y = Some (ConnPtr a)" for y a
  proof -
    have y: "y \<noteq> (sl_fd sl, sl_write sl)" "registered (el_kq l) (p_trace s1) y = Some (ConnPtr a)"
      using that by (auto simp: r split: if_splits)
    with d(4) [OF act calmD(4) [OF c _ y(2)]] obtain x where "map_of (el_live l) a = Some x" "y = (sl_fd x, sl_write x)" by auto
    with y(1) sl show ?thesis by auto
  qed
  have "active l (s1\<lparr>p_trace := t\<rparr>)" using act by (simp add: active_def o)
  then show ?thesis unfolding shard_but_def using d(1) doors_kept [OF d(6) o] conns slots stale by simp
qed

lemma shard_put_back:
  assumes inv: "proxy_inv cfg s" and sh: "shard_but i raw l s" and k: "p_conns s (i, raw) = Some c" "\<not> conn_done c"
    and reg: "registered (el_kq l) t = (registered (el_kq l) (p_trace s))((awaits (p_res s) c, want_write c) \<mapsto> ConnPtr raw)"
    and sl: "sl = \<lparr>sl_conn = c, sl_fd = awaits (p_res s) c, sl_write = want_write c, sl_epoch = c_epoch c\<rparr>"
  shows "shard i (l\<lparr>el_live := AList.update raw sl (el_live l)\<rparr>) (s\<lparr>p_trace := t\<rparr>)"
proof -
  note d = shard_butD [OF sh]
  have slots: "slot_ok (el_kq l) t (p_res s) a x" if "map_of (AList.update raw sl (el_live l)) a = Some x" for a x
  proof (cases "a = raw")
    case True
    then have "x = sl" using that by (simp add: update_conv)
    then show ?thesis using True k(2) by (simp add: slot_ok_def sl reg)
  next
    case False
    then have x: "map_of (el_live l) a = Some x" using that by (simp add: update_conv)
    have "p_conns s (i, a) = Some (sl_conn x)" using d(2) [OF False] x by simp
    from shard_slots_distinct [OF inv this k(1) False d(3) [OF False x] k(2)]
    show ?thesis using d(3) [OF False x] by (clarsimp simp: slot_ok_def reg)
  qed
  have stale: "\<exists>x. map_of (AList.update raw sl (el_live l)) a = Some x \<and> y = (sl_fd x, sl_write x)" if "registered (el_kq l) t y = Some (ConnPtr a)" for y a
  proof (cases "y = (awaits (p_res s) c, want_write c)")
    case True
    then show ?thesis using that by (simp add: reg update_conv sl)
  next
    case False
    then have "registered (el_kq l) (p_trace s) y = Some (ConnPtr a)" using that by (simp add: reg)
    then show ?thesis using d(4,5) by (simp add: update_conv)
  qed
  have "active l (s\<lparr>p_trace := t\<rparr>)" using d(6) by (simp add: active_def)
  then have "active (l\<lparr>el_live := AList.update raw sl (el_live l)\<rparr>) (s\<lparr>p_trace := t\<rparr>)" by (simp add: active_def)
  moreover have "p_conns s (i, a) = map_option sl_conn (map_of (AList.update raw sl (el_live l)) a)" for a
    using d(2) [of a] k(1) by (simp add: update_conv sl)
  ultimately show ?thesis unfolding shard_def using distinct_update [OF d(1)] slots stale d(7) by simp
qed

lemma shard_erase:
  assumes sh: "shard_but i raw l s" and c: "calm {} {(i, raw)} s s1" and k: "p_conns s1 (i, raw) = None" and o: "p_other s1 = p_other s"
  shows "shard i (l\<lparr>el_live := AList.delete raw (el_live l)\<rparr>) s1"
proof -
  note d = shard_butD [OF sh]
  have slots: "slot_ok (el_kq l) (p_trace s1) (p_res s1) a x" if "map_of (AList.delete raw (el_live l)) a = Some x" for a x
  proof -
    have a: "a \<noteq> raw" "map_of (el_live l) a = Some x" using that by (auto simp: delete_conv split: if_splits)
    then have k: "p_conns s (i, a) = Some (sl_conn x)" using d(2) by simp
    show ?thesis by (rule slot_calm [OF c d(3) [OF a] k]) (use a in simp_all)
  qed
  have stale: "\<exists>x. map_of (AList.delete raw (el_live l)) a = Some x \<and> y = (sl_fd x, sl_write x)" if "registered (el_kq l) (p_trace s1) y = Some (ConnPtr a)" for y a
    using d(4,5) [OF calmD(4) [OF c _ that]] by (simp add: delete_conv)
  have "active (l\<lparr>el_live := AList.delete raw (el_live l)\<rparr>) s1" using d(6) o by (simp add: active_def)
  moreover have "p_conns s1 (i, a) = map_option sl_conn (map_of (AList.delete raw (el_live l)) a)" for a
    using calmD(1) [OF c, of "(i, a)"] d(2) [of a] k by (simp add: delete_conv)
  ultimately show ?thesis unfolding shard_def using distinct_delete [OF d(1)] slots stale doors_kept [OF d(7) o] by simp
qed


section \<open>One step of a loop\<close>

definition advance :: "os \<Rightarrow> config \<Rightarrow> nat \<Rightarrow> fd set \<Rightarrow> loop \<Rightarrow> world \<Rightarrow> (nat \<times> nat) proxy \<Rightarrow> (nat \<times> nat) proxy \<Rightarrow> bool" where
  "advance os cfg i A l w s s' \<longleftrightarrow>
     proxy_run os cfg s' \<and> p_trace s' = w_trace w \<and> p_res s' = w_res w \<and> p_caches s' = (p_caches s)[i := w_cache w] \<and>
     p_accepted s' = A \<and> shard i l s' \<and> calm {el_kq l} {k. fst k = i} s s'"

lemma advance_after:
  assumes "advance os cfg i A l w s1 s'" and "calm {el_kq l} {k. fst k = i} s s1" and "p_caches s1 = (p_caches s)[i := x]"
  shows "advance os cfg i A l w s s'"
  using assms calm_trans [OF assms(2)] by (simp add: advance_def)

lemma own_shard: "calm Q {(i, a)} s s' \<Longrightarrow> calm Q {k. fst k = i} s s'" "calm Q {} s s' \<Longrightarrow> calm Q {k. fst k = i} s s'"
  by (erule calm_mono; auto)+

lemma any_kq: "calm {} K s s' \<Longrightarrow> calm Q K s s'"
  by (erule calm_mono; simp)

lemma calm_destroy:
  assumes inv: "proxy_inv cfg s" and k: "p_conns s k = Some c" and q: "q < length (p_caches s)"
  shows "calm {} {k} s (set_world q (destroy_connection c (world_of s q)) (s\<lparr>p_conns := (p_conns s)(k := None)\<rparr>))"
  by (rule calm_step [OF inv destroy_connection_effect(2) [OF focus(1) [OF inv k q]]])

lemma world_of_trace [simp]: "world_of (s\<lparr>p_trace := t\<rparr>) i = (world_of s i)\<lparr>w_trace := t\<rparr>"
  by (simp add: world_of_def)

lemma erase_advance:
  assumes os: "fresh_descriptors os" "finite_interrupts os" "bounded_io os" and run: "proxy_run os cfg s" and i: "i < length (p_caches s)"
    and sh: "shard_but i raw l s" and k: "p_conns s (i, raw) = Some c" and eq: "erase raw c l (world_of s i) = (l', w')"
  shows "\<exists>s'. advance os cfg i (p_accepted s) l' w' s s' \<and> p_other s' = p_other s"
proof -
  let ?s = "set_world i (destroy_connection c (world_of s i)) (s\<lparr>p_conns := (p_conns s)((i, raw) := None)\<rparr>)"
  have c: "calm {} {(i, raw)} s ?s" by (rule calm_destroy [OF proxy_run_inv [OF os run] k i])
  have l': "l' = l\<lparr>el_live := AList.delete raw (el_live l)\<rparr>" and w': "w' = destroy_connection c (world_of s i)" using eq by (auto simp: erase_def)
  have "shard i l' ?s" unfolding l' by (rule shard_erase [OF sh c]) simp_all
  then have "advance os cfg i (p_accepted s) l' w' s ?s"
    using run_destroy [OF run k i] own_shard(1) [OF any_kq [OF c]] by (simp add: advance_def w')
  then show ?thesis by fastforce
qed

lemma shard_but_trace:
  assumes "shard_but i raw l s" and "registered (el_kq l) t = registered (el_kq l) (p_trace s)"
  shows "shard_but i raw l (s\<lparr>p_trace := t\<rparr>)"
proof -
  have "slot_ok (el_kq l) t (p_res s) a x = slot_ok (el_kq l) (p_trace s) (p_res s) a x" for a x by (simp add: slot_ok_def assms(2))
  moreover have "active l (s\<lparr>p_trace := t\<rparr>) = active l s" by (simp add: active_def)
  ultimately show ?thesis using assms(1) by (simp add: shard_but_def assms(2) del: map_of_eq_Some_iff)
qed

lemma settle:
  assumes os: "fresh_descriptors os" "finite_interrupts os" "bounded_io os" and run: "proxy_run os cfg s" and i: "i < length (p_caches s)"
    and sh: "shard_but i raw l s" and k: "p_conns s (i, raw) = Some c" "\<not> conn_done c"
    and arm: "arm os (el_kq l) (awaits (p_res s) c) (want_write c) (ConnPtr raw) (p_trace s) = (ok, t)"
    and res: "(l', w') = (if ok then (l\<lparr>el_live := AList.update raw \<lparr>sl_conn = c, sl_fd = awaits (p_res s) c, sl_write = want_write c,
        sl_epoch = c_epoch c\<rparr> (el_live l)\<rparr>, (world_of s i)\<lparr>w_trace := t\<rparr>) else erase raw c l ((world_of s i)\<lparr>w_trace := t\<rparr>))"
  shows "\<exists>s'. advance os cfg i (p_accepted s) l' w' s s' \<and> p_other s' = p_other s"
proof -
  note a = run_arm [OF run arm]
  show ?thesis
  proof (cases ok)
    case True
    have "shard i (l\<lparr>el_live := AList.update raw \<lparr>sl_conn = c, sl_fd = awaits (p_res s) c, sl_write = want_write c, sl_epoch = c_epoch c\<rparr> (el_live l)\<rparr>)
        (s\<lparr>p_trace := t\<rparr>)"
      by (rule shard_put_back [OF proxy_run_inv [OF os run] sh k _ refl]) (use a(3) True in simp)
    then have "advance os cfg i (p_accepted s) l' w' s (s\<lparr>p_trace := t\<rparr>)"
      using a(1) own_shard(2) [OF a(2)] res True i by (simp add: advance_def world_of_def)
    then show ?thesis by fastforce
  next
    case False
    have sh': "shard_but i raw l (s\<lparr>p_trace := t\<rparr>)" by (rule shard_but_trace [OF sh]) (use a(3) False in simp)
    have "el_kq l' = el_kq l" using res False by (simp add: erase_def)
    then have c: "calm {el_kq l'} {k. fst k = i} s (s\<lparr>p_trace := t\<rparr>)" using own_shard(2) [OF a(2)] by simp
    obtain s' where s': "advance os cfg i (p_accepted s) l' w' (s\<lparr>p_trace := t\<rparr>) s'" "p_other s' = p_other s"
      using erase_advance [OF os a(1) _ sh', of c l' w'] i k(1) res False by auto
    have "advance os cfg i (p_accepted s) l' w' s s'"
      by (rule advance_after [OF s'(1) c, of "p_caches s ! i"]) simp
    then show ?thesis using s'(2) by blast
  qed
qed


lemma shard_begin:
  assumes sh: "shard i l s" and act: "active l s" and raw: "map_of (el_live l) raw = None"
    and c: "calm {} {(i, raw)} s s1" and o: "p_other s1 = p_other s"
  shows "shard_but i raw l s1"
proof -
  note d = shardD [OF sh]
  have "slot_ok (el_kq l) (p_trace s1) (p_res s1) a x" if a: "a \<noteq> raw" "map_of (el_live l) a = Some x" for a x
  proof -
    have k: "p_conns s (i, a) = Some (sl_conn x)" using d(2) [of a] a by simp
    show ?thesis by (rule slot_calm [OF c d(3) [OF a(2)] k]) (use a in simp_all)
  qed
  moreover have "p_conns s1 (i, a) = map_option sl_conn (map_of (el_live l) a)" if "a \<noteq> raw" for a
    using calmD(1) [OF c, of "(i, a)"] d(2) that by simp
  moreover have "a \<noteq> raw \<and> (\<exists>x. map_of (el_live l) a = Some x \<and> y = (sl_fd x, sl_write x))"
    if "registered (el_kq l) (p_trace s1) y = Some (ConnPtr a)" for y a
    using d(4) [OF act calmD(4) [OF c _ that]] raw by auto
  ultimately show ?thesis unfolding shard_but_def using d(1) doors_kept [OF d(6) o] act o by (simp add: active_def)
qed

lemma shard_keep:
  assumes sh: "shard i l s" and act: "active l s" and sl: "map_of (el_live l) raw = Some sl"
    and cm: "calm {} {(i, raw)} s s1" and o: "p_other s1 = p_other s" and k: "p_conns s1 (i, raw) = Some c" "\<not> conn_done c"
    and w: "awaits (p_res s1) c = sl_fd sl" "want_write c = sl_write sl" "c_epoch c = sl_epoch sl"
    and reg: "registered (el_kq l) (p_trace s1) = registered (el_kq l) (p_trace s)"
  shows "shard i (l\<lparr>el_live := AList.update raw (sl\<lparr>sl_conn := c\<rparr>) (el_live l)\<rparr>) s1"
proof -
  let ?live = "AList.update raw (sl\<lparr>sl_conn := c\<rparr>) (el_live l)"
  note d = shardD [OF sh]
  have slots: "slot_ok (el_kq l) (p_trace s1) (p_res s1) a x" if x: "map_of ?live a = Some x" for a x
  proof (cases "a = raw")
    case True
    then have "x = sl\<lparr>sl_conn := c\<rparr>" using x by (simp add: update_conv)
    then show ?thesis using True d(3) [OF sl] w k(2) by (clarsimp simp: slot_ok_def reg)
  next
    case False
    then have a: "map_of (el_live l) a = Some x" using x by (simp add: update_conv)
    have k: "p_conns s (i, a) = Some (sl_conn x)" using d(2) [of a] a by simp
    show ?thesis by (rule slot_calm [OF cm d(3) [OF a] k]) (use False in simp_all)
  qed
  have stale: "\<exists>x. map_of ?live a = Some x \<and> y = (sl_fd x, sl_write x)" if r: "registered (el_kq l) (p_trace s1) y = Some (ConnPtr a)" for y a
  proof -
    obtain x where x: "map_of (el_live l) a = Some x" "y = (sl_fd x, sl_write x)" using d(4) [OF act r [unfolded reg]] by blast
    then show ?thesis using sl by (cases "a = raw") (simp_all add: update_conv)
  qed
  have "active (l\<lparr>el_live := ?live\<rparr>) s1" using act o by (simp add: active_def)
  moreover have "p_conns s1 (i, a) = map_option sl_conn (map_of ?live a)" for a
    using calmD(1) [OF cm, of "(i, a)"] d(2) [of a] k(1) by (simp add: update_conv)
  ultimately show ?thesis unfolding shard_def using distinct_update [OF d(1)] slots stale doors_kept [OF d(6) o] by simp
qed

lemma shard_counters [simp]: "shard i (l\<lparr>el_accepted := n\<rparr>) s = shard i l s" "shard i (l\<lparr>el_next_id := n\<rparr>) s = shard i l s"
    "active (l\<lparr>el_accepted := n\<rparr>) s = active l s" "active (l\<lparr>el_next_id := n\<rparr>) s = active l s"
  by (simp_all add: shard_def active_def)

lemma adopt_advance:
  assumes os: "fresh_descriptors os" "finite_interrupts os" "bounded_io os" and run: "proxy_run os cfg s" and i: "i < length (p_caches s)"
    and sh: "shard i l s" and act: "active l s" and raw: "raw \<notin> fst ` set (el_live l)" and fd: "fd \<in> p_accepted s"
    and eq: "adopt os raw fd l (world_of s i) = (l', w')"
  shows "\<exists>s'. advance os cfg i (p_accepted s - {fd}) l' w' s s' \<and> p_other s' = p_other s"
proof -
  let ?l = "l\<lparr>el_accepted := el_accepted l + 1, el_next_id := el_next_id l + 1\<rparr>"
  obtain c w1 where n: "new_connection os fd (el_next_id l) (world_of s i) = (c, w1)" by fastforce
  let ?s = "set_world i w1 (s\<lparr>p_accepted := p_accepted s - {fd}, p_conns := (p_conns s)((i, raw) \<mapsto> c)\<rparr>)"
  have m: "map_of (el_live l) raw = None" using raw by (simp add: map_of_eq_None_iff)
  have run1: "proxy_run os cfg ?s" using shardD(2) [OF sh, of raw] m by (intro run_admit [OF run fd _ i n]) simp
  have w1: "w1 = world_of ?s i" "w_res w1 = p_res s" "only_events quiet (p_trace s) (w_trace w1)" and nd: "\<not> conn_done c"
    using n i set_nonblocking_quiet by (auto simp: new_connection_def init_connection_def conn_done_def world_of_def)
  have c: "calm {} {(i, raw)} s ?s" by (rule calm_admit [OF proxy_run_inv [OF os run]]) (use w1 in simp_all)
  have but: "shard_but i raw ?l ?s" by (rule shard_begin [OF _ _ _ c]) (use sh act m in simp_all)
  have k: "p_conns ?s (i, raw) = Some c" by simp
  have aw: "want_fd c w1 = awaits (p_res ?s) c" by (simp add: want_fd_awaits)
  have pos: "\<not> want_fd c w1 < 0" using wait_open(1) [OF proxy_run_inv [OF os run1] k nd, of i] w1(1) by simp
  obtain ok t where arm: "arm os (el_kq ?l) (awaits (p_res ?s) c) (want_write c) (ConnPtr raw) (p_trace ?s) = (ok, t)" by fastforce
  have "AList.delete raw (el_live l) = el_live l" using raw by (simp add: delete_id)
  then have res: "(l', w') = (if ok then (?l\<lparr>el_live := AList.update raw \<lparr>sl_conn = c, sl_fd = awaits (p_res ?s) c, sl_write = want_write c,
        sl_epoch = c_epoch c\<rparr> (el_live ?l)\<rparr>, (world_of ?s i)\<lparr>w_trace := t\<rparr>) else erase raw c ?l ((world_of ?s i)\<lparr>w_trace := t\<rparr>))"
    using eq n pos arm by (cases ok) (auto simp: adopt_def Let_def aw w1(1) [symmetric] erase_def)
  obtain s' where s': "advance os cfg i (p_accepted ?s) l' w' ?s s'" "p_other s' = p_other ?s"
    using settle [OF os run1 _ but k nd arm res] i by auto
  have "el_kq l' = el_kq l" using res by (simp add: erase_def split: if_splits)
  then have "advance os cfg i (p_accepted ?s) l' w' s s'"
    by (intro advance_after [OF s'(1), of s "w_cache w1"]) (use own_shard(1) [OF any_kq [OF c]] in simp_all)
  then show ?thesis using s'(2) by auto
qed


lemma service_advance:
  assumes os: "fresh_descriptors os" "finite_interrupts os" "bounded_io os" and run: "proxy_run os cfg s" and i: "i < length (p_caches s)"
    and sh: "shard i l s" and act: "active l s" and eq: "service os cfg raw l (world_of s i) = Some (l', w')"
  shows "\<exists>s'. advance os cfg i (p_accepted s) l' w' s s' \<and> p_other s' = p_other s"
proof (cases "map_of (el_live l) raw")
  case None
  then have "l' = l" "w' = world_of s i" using eq by (simp_all add: service_def)
  then have "advance os cfg i (p_accepted s) l' w' s s" using run sh i by (simp add: advance_def world_of_def)
  then show ?thesis by blast
next
  case (Some sl)
  note d = shardD [OF sh] and inv = proxy_run_inv [OF os run]
  have k0: "p_conns s (i, raw) = Some (sl_conn sl)" using d(2) [of raw] Some by simp
  obtain c w1 where r: "on_ready os cfg (sl_conn sl) (world_of s i) = Some (c, w1)"
      "good cfg (rest_fds s (i, raw)) (held ((p_conns s)((i, raw) := None))) (world_of s i) (c, w1)"
    by (rule inv_ready [OF os inv k0 i])
  let ?s1 = "set_world i w1 (s\<lparr>p_conns := (p_conns s)((i, raw) \<mapsto> c)\<rparr>)"
  let ?t = "disarm os (el_kq l) (sl_fd sl) (sl_write sl) (p_trace ?s1)"
  let ?s2 = "?s1\<lparr>p_trace := ?t\<rparr>"
  have run1: "proxy_run os cfg ?s1" by (rule run_ready [OF run k0 i r(1)])
  have c1: "calm {} {(i, raw)} s ?s1" using r(2) by (intro calm_step [OF inv]) (simp add: good_def)
  have run2: "proxy_run os cfg ?s2" and c2: "calm {el_kq l} {} ?s1 ?s2" using run_disarm [OF run1] by blast+
  have w1: "w1 = world_of ?s1 i" using i by (simp add: world_of_def)
  have c12: "calm {el_kq l} {k. fst k = i} s ?s2"
    by (rule calm_trans [OF own_shard(1) [OF any_kq [OF c1]] own_shard(2) [OF c2]])
  have but: "shard_but i raw l ?s2" by (rule shard_take_out [OF inv sh Some act c1]) simp_all
  have k: "p_conns ?s1 (i, raw) = Some c" "p_conns ?s2 (i, raw) = Some c" by simp_all
  have i2: "i < length (p_caches ?s2)" using i by simp
  have after: ?thesis if "\<exists>s'. advance os cfg i (p_accepted ?s2) l' w' ?s2 s' \<and> p_other s' = p_other ?s2" "el_kq l' = el_kq l"
    using that advance_after [of os cfg i "p_accepted s" l' w' ?s2 _ s "w_cache w1"] c12 by fastforce
  have fields: "el_kq l' = el_kq l" using eq by (auto simp: service_def erase_def Let_def split: bind_splits option.splits if_splits prod.splits)
  show ?thesis
  proof (cases "conn_done c")
    case True
    then have "erase raw c l (world_of ?s2 i) = (l', w')" using eq Some r(1) w1 by (simp add: service_def Let_def)
    from erase_advance [OF os run2 i2 but k(2) this] show ?thesis by (rule after) (rule fields)
  next
    case nd: False
    have aw: "want_fd c w1 = awaits (p_res ?s1) c" by (simp add: want_fd_awaits)
    have pos: "\<not> want_fd c w1 < 0" using wait_open(1) [OF proxy_run_inv [OF os run1] k(1) nd, of i] w1 by simp
    show ?thesis
    proof (cases "c_epoch c = sl_epoch sl")
      case False
      obtain ok t where arm: "arm os (el_kq l) (awaits (p_res ?s2) c) (want_write c) (ConnPtr raw) (p_trace ?s2) = (ok, t)" by fastforce
      have "(l', w') = (if ok then (l\<lparr>el_live := AList.update raw \<lparr>sl_conn = c, sl_fd = awaits (p_res ?s2) c, sl_write = want_write c,
          sl_epoch = c_epoch c\<rparr> (el_live l)\<rparr>, (world_of ?s2 i)\<lparr>w_trace := t\<rparr>) else erase raw c l ((world_of ?s2 i)\<lparr>w_trace := t\<rparr>))"
        using eq Some r(1) nd pos False arm by (cases ok) (auto simp: service_def Let_def aw w1 [symmetric])
      from settle [OF os run2 i2 but k(2) nd arm this] show ?thesis by (rule after) (rule fields)
    next
      case True
      have ok: "slot_ok (el_kq l) (p_trace s) (p_res s) raw sl" by (rule d(3) [OF Some])
      have "stays (sl_conn sl) (world_of s i) (c, w1)" using epoch_on_ready [OF os(2,3) r(1)] True ok by (simp add: slot_ok_def)
      note st = stays_registration [OF this]
      have "shard i (l\<lparr>el_live := AList.update raw (sl\<lparr>sl_conn := c\<rparr>) (el_live l)\<rparr>) ?s1"
        using ok st True by (intro shard_keep [OF sh act Some c1 _ k(1) nd]) (simp_all add: slot_ok_def want_fd_awaits)
      moreover have "l' = l\<lparr>el_live := AList.update raw (sl\<lparr>sl_conn := c\<rparr>) (el_live l)\<rparr>" "w' = w1"
        using eq Some r(1) nd pos True by (simp_all add: service_def Let_def)
      ultimately have "advance os cfg i (p_accepted s) l' w' s ?s1"
        using run1 own_shard(1) [OF any_kq [OF c1]] by (simp add: advance_def)
      then show ?thesis by fastforce
    qed
  qed
qed


text \<open>Clients in the hands of a loop: in its inbox, or taken from it and not yet adopted.\<close>

definition loop_fds :: "loop \<Rightarrow> fd list" where
  "loop_fds l = (case el_inbox l of Some ib \<Rightarrow> ib_queue ib | None \<Rightarrow> []) @ (case el_pc l of ElAdopt fds _ \<Rightarrow> fds | _ \<Rightarrow> [])"

definition moved :: "os \<Rightarrow> config \<Rightarrow> nat \<Rightarrow> loop \<Rightarrow> (nat \<times> nat) proxy \<Rightarrow> loop \<Rightarrow> world \<Rightarrow> (nat \<times> nat) proxy \<Rightarrow> bool" where
  "moved os cfg i l s l' w s' \<longleftrightarrow>
     advance os cfg i (p_accepted s') l' w s s' \<and> p_other s - ({el_listener l} \<inter> {0..}) \<subseteq> p_other s' \<and>
     (el_kq l' = el_kq l \<or> el_kq l' \<notin> p_other s) \<and> el_listener l' \<in> {el_listener l, -1} \<and> (el_inbox l' = None \<longleftrightarrow> el_inbox l = None) \<and>
     (mset (loop_fds l') = mset (loop_fds l) \<and> p_accepted s' = p_accepted s \<or>
      (\<exists>fd. mset (loop_fds l) = add_mset fd (mset (loop_fds l')) \<and> p_accepted s' = p_accepted s - {fd}))"

lemma shard_pc:
  assumes "shard i l s" and "el_pc l \<notin> {ElStart, ElClear, ElReturned}" and "pc \<notin> {ElStart, ElReturned}"
  shows "shard i (l\<lparr>el_pc := pc\<rparr>) s"
proof -
  note d = shardD [OF assms(1)]
  have "0 \<le> el_kq l" "el_kq l \<in> p_other s" "active l s" using d(7,8) assms(2) by blast+
  moreover have "pc \<noteq> ElClear \<Longrightarrow> active (l\<lparr>el_pc := pc\<rparr>) s" using \<open>active l s\<close> assms(3) by (auto simp: active_def)
  ultimately show ?thesis unfolding shard_def using d(1,2,3,6) d(4) [OF \<open>active l s\<close>] by (cases "pc = ElClear") simp_all
qed

lemma shard_stop [simp]: "shard i (l\<lparr>el_stop := b\<rparr>) s = shard i l s"
  by (simp add: shard_def active_def)

lemma shard_inbox:
  assumes "map_option ib_read_end ib = map_option ib_read_end (el_inbox l)"
  shows "shard i (l\<lparr>el_inbox := ib\<rparr>) s = shard i l s"
proof -
  have "doors (l\<lparr>el_inbox := ib\<rparr>) s = doors l s" using assms by (cases ib; cases "el_inbox l") (simp_all add: doors_def)
  then show ?thesis by (simp add: shard_def active_def)
qed

lemma moved_quiet:
  assumes os: "fresh_descriptors os" "finite_interrupts os" "bounded_io os" and run: "proxy_run os cfg s" and i: "i < length (p_caches s)"
    and sh: "shard i l' s" and q: "only_events quiet (p_trace s) t" and w: "w' = (world_of s i)\<lparr>w_trace := t\<rparr>"
    and f: "el_kq l' = el_kq l" "el_listener l' = el_listener l" "el_inbox l' = None \<longleftrightarrow> el_inbox l = None" "mset (loop_fds l') = mset (loop_fds l)"
  shows "\<exists>s'. moved os cfg i l s l' w' s'"
proof -
  have c: "calm {} {} s (s\<lparr>p_trace := t\<rparr>)" by (rule calm_quiet [OF proxy_run_inv [OF os run] q])
  have "shard i l' (s\<lparr>p_trace := t\<rparr>)" by (rule shard_frame [OF sh c]) simp_all
  then have "moved os cfg i l s l' w' (s\<lparr>p_trace := t\<rparr>)"
    using run_quiet [OF run q] own_shard(2) [OF any_kq [OF c]] i f by (simp add: moved_def advance_def w world_of_def)
  then show ?thesis by blast
qed

lemma moved_pc:
  assumes os: "fresh_descriptors os" "finite_interrupts os" "bounded_io os" and run: "proxy_run os cfg s" and i: "i < length (p_caches s)"
    and sh: "shard i l s" and pc: "el_pc l \<notin> {ElStart, ElClear, ElReturned}" "pc \<notin> {ElStart, ElReturned}"
    and q: "only_events quiet (p_trace s) t" and f: "mset (loop_fds (l\<lparr>el_pc := pc\<rparr>)) = mset (loop_fds l)"
  shows "\<exists>s'. moved os cfg i l s (l\<lparr>el_pc := pc\<rparr>) ((world_of s i)\<lparr>w_trace := t\<rparr>) s'"
  by (rule moved_quiet [OF os run i shard_pc [OF sh pc] q refl]) (use f in simp_all)

lemma moved_advance:
  assumes "advance os cfg i (p_accepted s) l' w s s'" and "p_other s' = p_other s"
    and "el_kq l' = el_kq l" "el_listener l' = el_listener l" "el_inbox l' = None \<longleftrightarrow> el_inbox l = None" "mset (loop_fds l') = mset (loop_fds l)"
  shows "moved os cfg i l s l' w s'"
proof -
  have "p_accepted s' = p_accepted s" using assms(1) by (simp add: advance_def)
  then show ?thesis using assms by (auto simp: moved_def)
qed

lemma service_fields:
  assumes "service os cfg raw l w = Some (l', w')"
  shows "el_kq l' = el_kq l" and "el_listener l' = el_listener l" and "el_inbox l' = el_inbox l" and "el_pc l' = el_pc l"
  using assms by (auto simp: service_def erase_def Let_def split: bind_splits option.splits if_splits prod.splits)

lemma adopt_fields:
  assumes "adopt os raw fd l w = (l', w')"
  shows "el_kq l' = el_kq l" and "el_listener l' = el_listener l" and "el_inbox l' = el_inbox l" and "el_pc l' = el_pc l"
  using assms by (auto simp: adopt_def erase_def Let_def split: if_splits prod.splits)

lemma moved_service:
  assumes os: "fresh_descriptors os" "finite_interrupts os" "bounded_io os" and run: "proxy_run os cfg s" and i: "i < length (p_caches s)"
    and sh: "shard i l s" and pc: "el_pc l \<notin> {ElStart, ElClear, ElReturned}" "pc \<notin> {ElStart, ElClear, ElReturned}"
    and f: "mset (loop_fds (l\<lparr>el_pc := pc\<rparr>)) = mset (loop_fds l)" and eq: "service os cfg raw (l\<lparr>el_pc := pc\<rparr>) (world_of s i) = Some (l', w')"
  shows "\<exists>s'. moved os cfg i l s l' w' s'"
proof -
  have sh': "shard i (l\<lparr>el_pc := pc\<rparr>) s" using shard_pc [OF sh pc(1)] pc(2) by blast
  note sf = service_fields [OF eq]
  have "active (l\<lparr>el_pc := pc\<rparr>) s" using shardD(8) [OF sh'] pc(2) by simp
  from service_advance [OF os run i sh' this eq] obtain s' where s': "advance os cfg i (p_accepted s) l' w' s s'" "p_other s' = p_other s" by blast
  have "mset (loop_fds l') = mset (loop_fds l)" using sf f by (simp add: loop_fds_def)
  then show ?thesis using moved_advance [OF s', of l] sf by auto
qed


lemma run_kqueue:
  assumes os: "fresh_descriptors os" and run: "proxy_run os cfg s" and kq: "os_kqueue os (p_trace s) = Inr kq"
  shows "proxy_run os cfg (s\<lparr>p_trace := EvKqueue (Inr kq) # p_trace s, p_other := insert kq (p_other s)\<rparr>)"
    and "calm {kq} {} s (s\<lparr>p_trace := EvKqueue (Inr kq) # p_trace s, p_other := insert kq (p_other s)\<rparr>)"
    and "0 \<le> kq" and "kq \<notin> open_fds (p_trace s)"
proof -
  show n: "0 \<le> kq" "kq \<notin> open_fds (p_trace s)" using os kq by (auto simp: fresh_descriptors_def)
  have "bytes_kept (open_fds (p_trace s)) (p_trace s) (EvKqueue (Inr kq) # p_trace s)" using n by (auto simp: bytes_kept_def)
  then have "proxy_run os cfg (s\<lparr>p_trace := EvKqueue (Inr kq) # p_trace s, p_other := p_other s - {} \<union> {kq}\<rparr>)"
    using n by (intro run_other [OF run]) (auto simp: suffix_ConsI)
  then show "proxy_run os cfg (s\<lparr>p_trace := EvKqueue (Inr kq) # p_trace s, p_other := insert kq (p_other s)\<rparr>)" by simp
  show "calm {kq} {} s (s\<lparr>p_trace := EvKqueue (Inr kq) # p_trace s, p_other := insert kq (p_other s)\<rparr>)"
    by (rule calm_fields(2)) (rule calm_kq, simp)
qed

lemma moved_start:
  assumes os: "fresh_descriptors os" "finite_interrupts os" "bounded_io os" and run: "proxy_run os cfg s" and i: "i < length (p_caches s)"
    and sh: "shard i l s" and pc: "el_pc l = ElStart" and eq: "loop_start os l (p_trace s) = (l', t)"
  shows "\<exists>s'. moved os cfg i l s l' ((world_of s i)\<lparr>w_trace := t\<rparr>) s'"
proof -
  let ?t = "snd (set_nonblocking os (el_listener l) (p_trace s))"
  let ?s = "s\<lparr>p_trace := ?t\<rparr>"
  note q = set_nonblocking_quiet [of "p_trace s" os "el_listener l"]
  have run1: "proxy_run os cfg ?s" by (rule run_quiet [OF run q])
  have c1: "calm {} {} s ?s" by (rule calm_quiet [OF proxy_run_inv [OF os run] q])
  have live: "el_live l = []" using shardD(5) [OF sh] pc by simp
  show ?thesis
  proof (cases "os_kqueue os ?t")
    case (Inl e)
    then have l': "l' = l\<lparr>el_pc := ElReturned\<rparr>" "t = EvKqueue (Inl e) # ?t" using eq by (simp_all add: loop_start_def Let_def)
    have "shard i l' s" using shardD(1,2,6) [OF sh] live by (simp add: shard_def l'(1))
    moreover have "only_events quiet (p_trace s) t" unfolding l' by (rule only_events_Cons [OF _ q]) simp
    ultimately show ?thesis by (rule moved_quiet [OF os run i _ _ refl]) (simp_all add: l'(1) loop_fds_def pc)
  next
    case (Inr kq)
    let ?s2 = "?s\<lparr>p_trace := EvKqueue (Inr kq) # ?t, p_other := insert kq (p_other s)\<rparr>"
    have kq: "proxy_run os cfg ?s2" "calm {kq} {} ?s ?s2" "0 \<le> kq" "kq \<notin> open_fds ?t" using run_kqueue [OF os(1) run1, of kq] Inr by simp_all
    define fd where "fd = (case el_inbox l of Some ib \<Rightarrow> ib_read_end ib | None \<Rightarrow> el_listener l)"
    define u where "u = (case el_inbox l of Some ib \<Rightarrow> INBOX_TAG | None \<Rightarrow> NullPtr)"
    obtain ok t' where arm: "arm os kq fd False u (p_trace ?s2) = (ok, t')" by fastforce
    have l': "l' = l\<lparr>el_kq := kq, el_pc := (if ok then ElWait else ElReturned)\<rparr>" "t = t'"
      using eq Inr arm by (auto simp: loop_start_def Let_def fd_def u_def split: option.splits prod.splits)
    note a = run_arm [OF kq(1) arm]
    have c: "calm {kq} {k. fst k = i} s (?s2\<lparr>p_trace := t'\<rparr>)"
      by (rule own_shard(2) [OF calm_trans [OF any_kq [OF c1] calm_trans [OF kq(2) a(2)]]])
    have "open_fds ?t = open_fds (p_trace s)" by (rule only_events_quiet(1) [OF q])
    then have new: "kq \<notin> p_other s" using proxy_inv_parts(5) [OF proxy_run_inv [OF os run]] kq(4) by auto
    then have "kq \<noteq> el_listener l" using shardD(6) [OF sh] kq(3) by (auto simp: doors_def)
    moreover have "p_conns s (i, a) = None" for a using shardD(2) [OF sh, of a] live by simp
    moreover have "registered kq t' x \<noteq> Some (ConnPtr b)" for x b using a(3) by (auto simp: u_def split: option.splits if_splits)
    ultimately have "shard i l' (?s2\<lparr>p_trace := t'\<rparr>)"
      using live shardD(6) [OF sh] kq(3) by (auto simp: shard_def active_def doors_def l'(1))
    then have "advance os cfg i (p_accepted s) l' ((world_of s i)\<lparr>w_trace := t\<rparr>) s (?s2\<lparr>p_trace := t'\<rparr>)"
      using a(1) c i by (simp add: advance_def l' world_of_def)
    then have "moved os cfg i l s l' ((world_of s i)\<lparr>w_trace := t\<rparr>) (?s2\<lparr>p_trace := t'\<rparr>)"
      using new by (auto simp: moved_def l'(1) loop_fds_def pc)
    then show ?thesis by blast
  qed
qed

lemma moved_accept:
  assumes os: "fresh_descriptors os" "finite_interrupts os" "bounded_io os" and run: "proxy_run os cfg s" and i: "i < length (p_caches s)"
    and sh: "shard i l s" and pc: "el_pc l = ElAccept us" and acc: "accept_one os (el_listener l) (p_trace s) = Some ((AcceptOk, fd), t)"
    and raw: "raw \<notin> fst ` set (el_live l)" and eq: "adopt os raw fd l ((world_of s i)\<lparr>w_trace := t\<rparr>) = (l', w')"
  shows "\<exists>s'. moved os cfg i l s l' w' s'"
proof -
  let ?s = "s\<lparr>p_trace := t, p_accepted := insert fd (p_accepted s)\<rparr>"
  note inv = proxy_run_inv [OF os run]
  have run1: "proxy_run os cfg ?s" by (rule run_accept [OF run acc])
  have "untouched (open_fds (p_trace s)) (p_trace s) t" by (rule accept_one_effect [OF os(2,1), of "el_listener l" "p_trace s"]) (use acc in simp)
  then have c: "calm {} {} s ?s" using accept_one_grows [OF os(2) acc] by (intro calm_fields(1) calm_open [OF inv])
  have sh1: "shard i l ?s" by (rule shard_frame [OF sh c]) simp_all
  have "active l ?s" using shardD(8) [OF sh1] pc by simp
  moreover have "adopt os raw fd l (world_of ?s i) = (l', w')" using eq by (simp add: world_of_def)
  ultimately obtain s' where s': "advance os cfg i (p_accepted ?s - {fd}) l' w' ?s s'" "p_other s' = p_other ?s"
    using adopt_advance [OF os run1 _ sh1 _ raw, of fd l' w'] i by auto
  have "p_accepted ?s - {fd} = p_accepted s" using accept_fresh(1) [OF os(2,1) inv acc] by auto
  then have "advance os cfg i (p_accepted s) l' w' s s'"
    using advance_after [OF s'(1), of s "p_caches s ! i"] own_shard(2) [OF any_kq [OF c]] by simp
  moreover note f = adopt_fields [OF eq]
  ultimately have "moved os cfg i l s l' w' s'" using s'(2) by (intro moved_advance) (simp_all add: loop_fds_def)
  then show ?thesis by blast
qed

lemma moved_adopt:
  assumes os: "fresh_descriptors os" "finite_interrupts os" "bounded_io os" and run: "proxy_run os cfg s" and i: "i < length (p_caches s)"
    and sh: "shard i l s" and pc: "el_pc l = ElAdopt (fd # fds) us" and fd: "fd \<in> p_accepted s"
    and raw: "raw \<notin> fst ` set (el_live l)" and eq: "adopt os raw fd (l\<lparr>el_pc := ElAdopt fds us\<rparr>) (world_of s i) = (l', w')"
  shows "\<exists>s'. moved os cfg i l s l' w' s'"
proof -
  have sh': "shard i (l\<lparr>el_pc := ElAdopt fds us\<rparr>) s" by (rule shard_pc [OF sh]) (simp_all add: pc)
  have "active (l\<lparr>el_pc := ElAdopt fds us\<rparr>) s" using shardD(8) [OF sh'] by simp
  from adopt_advance [OF os run i sh' this _ fd eq] raw
  obtain s' where s': "advance os cfg i (p_accepted s - {fd}) l' w' s s'" "p_other s' = p_other s" by auto
  note f = adopt_fields [OF eq]
  have "mset (loop_fds l) = add_mset fd (mset (loop_fds l'))" using f pc by (simp add: loop_fds_def)
  moreover have "p_accepted s' = p_accepted s - {fd}" using s'(1) by (simp add: advance_def)
  ultimately have "moved os cfg i l s l' w' s'" using s' f by (auto simp: moved_def)
  then show ?thesis by blast
qed

lemma moved_clear:
  assumes os: "fresh_descriptors os" "finite_interrupts os" "bounded_io os" and run: "proxy_run os cfg s" and i: "i < length (p_caches s)"
    and sh: "shard i l s" and pc: "el_pc l = ElClear" and live: "el_live l = (a, sl) # rest"
  shows "\<exists>s'. moved os cfg i l s (l\<lparr>el_live := rest\<rparr>) (destroy_connection (sl_conn sl) (world_of s i)) s'"
proof -
  note d = shardD [OF sh]
  have k: "p_conns s (i, a) = Some (sl_conn sl)" using d(2) [of a] live by simp
  let ?s = "set_world i (destroy_connection (sl_conn sl) (world_of s i)) (s\<lparr>p_conns := (p_conns s)((i, a) := None)\<rparr>)"
  have c: "calm {} {(i, a)} s ?s" by (rule calm_destroy [OF proxy_run_inv [OF os run] k i])
  have a: "map_of rest a = None" "distinct (map fst rest)" using d(1) live by (simp_all add: map_of_eq_None_iff image_image)
  have rest: "map_of rest b = Some x \<Longrightarrow> b \<noteq> a \<and> map_of (el_live l) b = Some x" for b x using a live by (cases "b = a") simp_all
  have "slot_ok (el_kq l) (p_trace ?s) (p_res ?s) b x" if x: "map_of rest b = Some x" for b x
  proof -
    have k: "p_conns s (i, b) = Some (sl_conn x)" using d(2) [of b] rest [OF x] by simp
    show ?thesis by (rule slot_calm [OF c d(3) k]) (use rest [OF x] in simp_all)
  qed
  moreover have "p_conns ?s (i, b) = map_option sl_conn (map_of rest b)" for b using d(2) [of b] live a by simp
  moreover have "0 \<le> el_kq l" "el_kq l \<in> p_other ?s" using d(7) pc by simp_all
  ultimately have "shard i (l\<lparr>el_live := rest\<rparr>) ?s" unfolding shard_def using a(2) doors_kept [OF d(6), of ?s] pc by simp
  then have "advance os cfg i (p_accepted s) (l\<lparr>el_live := rest\<rparr>) (destroy_connection (sl_conn sl) (world_of s i)) s ?s"
    using run_destroy [OF run k i] own_shard(1) [OF any_kq [OF c]] by (simp add: advance_def)
  then show ?thesis using moved_advance [of os cfg i s "l\<lparr>el_live := rest\<rparr>" _ ?s l] by (auto simp: loop_fds_def)
qed


lemma waits_not_other:
  assumes inv: "proxy_inv cfg s" and k: "p_conns s k = Some c" and nd: "\<not> conn_done c"
  shows "awaits (p_res s) c \<notin> p_other s"
proof -
  have eq: "want_fd c (world_of s 0) = awaits (p_res s) c" by (simp add: want_fd_awaits)
  from inv k nd show ?thesis
  proof (cases rule: wait_cases [where q = 0])
    case socket
    moreover have "cfds c \<subseteq> conn_fds (p_conns s)" unfolding conn_fds_def using ranI [of "p_conns s", OF k] by blast
    ultimately show ?thesis using proxy_inv_sets [OF inv] eq by auto
  next
    case (pipe i)
    have "held (p_conns s) i = 1" using pipe(1) k by (auto simp: held_def)
    then have "awaits (p_res s) c \<in> pipes (held (p_conns s)) (p_res s)" using pipe(3,4) eq by (auto simp: pipes_def)
    then show ?thesis using inv_pipes(2) [OF inv] by blast
  qed
qed

lemma shard_disarm:
  assumes inv: "proxy_inv cfg s" and sh: "shard i l s" and act: "active l s" and fd: "fd < 0 \<or> fd \<in> p_other s"
  shows "shard i l (s\<lparr>p_trace := disarm os (el_kq l) fd w (p_trace s)\<rparr>)"
proof (cases "fd < 0")
  case True
  then show ?thesis using sh by (simp add: disarm_trace)
next
  case False
  note d = shardD [OF sh] and r = disarm_registered [of fd "el_kq l" os w "p_trace s"]
  let ?t = "disarm os (el_kq l) fd w (p_trace s)"
  have slots: "slot_ok (el_kq l) ?t (p_res s) a sl" if sl: "map_of (el_live l) a = Some sl" for a sl
  proof -
    have "p_conns s (i, a) = Some (sl_conn sl)" using d(2) [of a] sl by simp
    moreover have "\<not> conn_done (sl_conn sl)" "sl_fd sl = awaits (p_res s) (sl_conn sl)" using d(3) [OF sl] by (simp_all add: slot_ok_def)
    ultimately have "sl_fd sl \<noteq> fd" using waits_not_other [OF inv] fd False by auto
    then show ?thesis using d(3) [OF sl] r False by (clarsimp simp: slot_ok_def)
  qed
  have stale: "\<exists>sl. map_of (el_live l) a = Some sl \<and> x = (sl_fd sl, sl_write sl)" if "registered (el_kq l) ?t x = Some (ConnPtr a)" for x a
    using d(4) [OF act, of x a] that r False by (simp split: if_splits)
  show ?thesis unfolding shard_def using d(1,2,6) slots stale act by (simp add: active_def)
qed

lemma run_close_other:
  assumes run: "proxy_run os cfg s" and fd: "fd < 0 \<or> fd \<in> p_other s"
  shows "proxy_run os cfg (s\<lparr>p_trace := fd_destroy fd (p_trace s), p_other := p_other s - ({fd} \<inter> {0..})\<rparr>)"
proof -
  have e: "open_fds (fd_destroy fd (p_trace s)) = open_fds (p_trace s) - ({fd} \<inter> {0..})"
      "untouched (- ({fd} \<inter> {0..})) (p_trace s) (fd_destroy fd (p_trace s))"
    using fd_destroy_effect by blast+
  have b: "bytes_kept (open_fds (p_trace s) - ({fd} \<inter> {0..})) (p_trace s) (fd_destroy fd (p_trace s))"
    by (rule bytes_kept_mono [OF bytes_kept_untouched [OF e(2)]]) blast
  have "{fd} \<inter> {0..} \<subseteq> p_other s" using fd by auto
  from run_other [OF run this, of "{}", OF _ grows_suffix [OF fd_destroy_grows] _ b] show ?thesis using e(1) by simp
qed

lemma moved_stop:
  assumes os: "fresh_descriptors os" "finite_interrupts os" "bounded_io os" and run: "proxy_run os cfg s" and i: "i < length (p_caches s)"
    and sh: "shard i l s" and pc: "el_pc l = ElStop"
    and eq: "loop_step os cfg raw l (world_of s i) = Some (l', w')"
  shows "\<exists>s'. moved os cfg i l s l' w' s'"
proof -
  define fd where "fd = (case el_inbox l of Some ib \<Rightarrow> ib_read_end ib | None \<Rightarrow> el_listener l)"
  let ?t = "disarm os (el_kq l) fd False (p_trace s)"
  let ?s = "s\<lparr>p_trace := ?t\<rparr>"
  note inv = proxy_run_inv [OF os run]
  have act: "active l s" using shardD(8) [OF sh] pc by simp
  have fd: "fd < 0 \<or> fd \<in> p_other s" using shardD(6) [OF sh] by (auto simp: fd_def doors_def split: option.splits)
  have run1: "proxy_run os cfg ?s" and c1: "calm {el_kq l} {} s ?s" using run_disarm [OF run] by blast+
  have sh1: "shard i (l\<lparr>el_pc := ElDrain 0\<rparr>) ?s" by (rule shard_pc [OF shard_disarm [OF inv sh act fd]]) (simp_all add: pc)
  show ?thesis
  proof (cases "el_inbox l")
    case (Some ib)
    then have "l' = l\<lparr>el_pc := ElDrain 0\<rparr>" "w' = (world_of s i)\<lparr>w_trace := ?t\<rparr>" using eq by (simp_all add: loop_step_defs pc fd_def)
    then have "advance os cfg i (p_accepted s) l' w' s ?s" "el_kq l' = el_kq l" "el_listener l' = el_listener l" "el_inbox l' = el_inbox l" "loop_fds l' = loop_fds l"
      using run1 sh1 own_shard(2) [OF c1] i by (simp_all add: advance_def world_of_def loop_fds_def pc)
    then show ?thesis using moved_advance [of os cfg i s l' w' ?s l] by auto
  next
    case None
    let ?s2 = "?s\<lparr>p_trace := fd_destroy fd ?t, p_other := p_other s - ({fd} \<inter> {0..})\<rparr>"
    have l': "l' = l\<lparr>el_listener := -1, el_pc := ElDrain 0\<rparr>" "w' = (world_of s i)\<lparr>w_trace := fd_destroy fd ?t\<rparr>" and f: "fd = el_listener l"
      using eq None by (simp_all add: loop_step_defs pc fd_def)
    have run2: "proxy_run os cfg ?s2" using run_close_other [OF run1, of fd] fd by simp
    have "calm {} {} ?s (?s\<lparr>p_trace := fd_destroy fd ?t\<rparr>)"
      using calm_destroy_fd [OF proxy_run_inv [OF os run1], of fd] fd by (cases "fd < 0") (simp_all add: fd_destroy_def fd_reset_def)
    then have c2: "calm {} {} ?s ?s2" by (rule calm_fields(2))
    have "shard i l' ?s" using shardD [OF sh1] act by (simp add: l'(1) shard_def active_def doors_def)
    then have "shard i l' ?s2" using act None by (intro shard_frame [OF _ c2]) (auto simp: l'(1) f active_def)
    moreover have "calm {el_kq l} {k. fst k = i} s ?s2" by (rule own_shard(2) [OF calm_trans [OF c1 any_kq [OF c2]]])
    ultimately have "advance os cfg i (p_accepted s) l' w' s ?s2" using run2 i l' by (simp add: advance_def world_of_def)
    then have "moved os cfg i l s l' w' ?s2" using None by (auto simp: moved_def l'(1) f loop_fds_def pc)
    then show ?thesis by blast
  qed
qed


lemma moved_simple:
  assumes os: "fresh_descriptors os" "finite_interrupts os" "bounded_io os" and run: "proxy_run os cfg s" and i: "i < length (p_caches s)"
    and sh: "shard i l s" and pc: "el_pc l \<notin> {ElStart, ElClear, ElReturned}" "pc \<notin> {ElStart, ElReturned}"
    and l': "l' = l\<lparr>el_pc := pc\<rparr>" and w': "w' = world_of s i \<or> (\<exists>ev. quiet ev \<and> w' = (world_of s i)\<lparr>w_trace := ev # p_trace s\<rparr>)"
    and f: "mset (loop_fds (l\<lparr>el_pc := pc\<rparr>)) = mset (loop_fds l)"
  shows "\<exists>s'. moved os cfg i l s l' w' s'"
proof -
  have "(world_of s i)\<lparr>w_trace := p_trace s\<rparr> = world_of s i" by (simp add: world_of_def)
  moreover have "quiet ev \<Longrightarrow> only_events quiet (p_trace s) (ev # p_trace s)" for ev by (rule only_events_Cons) simp_all
  ultimately have "\<exists>t. w' = (world_of s i)\<lparr>w_trace := t\<rparr> \<and> only_events quiet (p_trace s) t"
    using w' only_events_refl by metis
  then show ?thesis using moved_pc [OF os run i sh pc _ f] l' by blast
qed

lemma moved_wait:
  assumes os: "fresh_descriptors os" "finite_interrupts os" "bounded_io os" and run: "proxy_run os cfg s" and i: "i < length (p_caches s)"
    and sh: "shard i l s" and pc: "el_pc l \<notin> {ElStart, ElClear, ElReturned}" "pc \<notin> {ElStart, ElReturned}"
    and l': "l' = l\<lparr>el_pc := pc\<rparr>" and w': "w' = (world_of s i)\<lparr>w_trace := EvKevent kq r # p_trace s\<rparr>"
    and f: "mset (loop_fds (l\<lparr>el_pc := pc\<rparr>)) = mset (loop_fds l)"
  shows "\<exists>s'. moved os cfg i l s l' w' s'"
  by (rule moved_simple [OF os run i sh pc l' _ f], rule disjI2, rule exI [of _ "EvKevent kq r"]) (simp add: w')

lemma moved_inbox:
  assumes os: "fresh_descriptors os" "finite_interrupts os" "bounded_io os" and run: "proxy_run os cfg s" and i: "i < length (p_caches s)"
    and sh: "shard i l s" and pc: "el_pc l = ElInbox us" and eq: "loop_step os cfg raw l (world_of s i) = Some (l', w')"
  shows "\<exists>s'. moved os cfg i l s l' w' s'"
proof -
  obtain ib where ib: "el_inbox l = Some ib" using eq by (auto simp: loop_step_defs pc split: bind_splits)
  let ?r = "os_read os (p_trace s) (ib_read_end ib) 256"
  let ?t = "EvRead (ib_read_end ib) 256 ?r # p_trace s" and ?l = "l\<lparr>el_inbox := Some (ib\<lparr>ib_queue := []\<rparr>), el_pc := ElAdopt (ib_queue ib) us\<rparr>"
  have w: "w' = (world_of s i)\<lparr>w_trace := ?t\<rparr>" and l': "l' = l \<or> l' = ?l"
    using eq ib by (auto simp: loop_step_defs pc inbox_drain_def Let_def split: sum.splits list.splits)
  have q: "only_events quiet (p_trace s) ?t" by (rule only_events_Cons) simp_all
  have "shard i (l\<lparr>el_inbox := Some (ib\<lparr>ib_queue := []\<rparr>)\<rparr>) s" using ib sh by (simp add: shard_inbox)
  then have "shard i ?l s" by (rule shard_pc) (simp_all add: pc)
  then have "shard i l' s" using l' sh by blast
  then show ?thesis by (rule moved_quiet [OF os run i _ q w]) (use l' ib in \<open>auto simp: loop_fds_def pc\<close>)
qed

lemma moved_batch:
  assumes os: "fresh_descriptors os" "finite_interrupts os" "bounded_io os" and run: "proxy_run os cfg s" and i: "i < length (p_caches s)"
    and sh: "shard i l s" and pc: "el_pc l = ElBatch evs \<or> el_pc l = ElDrainBatch evs n"
    and eq: "loop_step os cfg raw l (world_of s i) = Some (l', w')"
  shows "\<exists>s'. moved os cfg i l s l' w' s'"
proof -
  have b: "el_pc l \<notin> {ElStart, ElClear, ElReturned}" using pc by auto
  note simple = moved_simple [OF os run i sh b _ _ _] and serv = moved_service [OF os run i sh b]
  show ?thesis
  proof (cases evs)
    case Nil
    show ?thesis using pc
    proof
      assume "el_pc l = ElBatch evs"
      then show ?thesis using eq by (intro simple [of ElWait]) (auto simp: loop_step_defs Nil loop_fds_def)
    next
      assume "el_pc l = ElDrainBatch evs n"
      then show ?thesis using eq by (intro simple [of "ElDrain n"]) (auto simp: loop_step_defs Nil loop_fds_def)
    qed
  next
    case (Cons u us)
    show ?thesis using pc
    proof
      assume p: "el_pc l = ElBatch evs"
      show ?thesis
      proof (cases u)
        case (ConnPtr a)
        then show ?thesis using eq p by (intro serv [of "ElBatch us"]) (auto simp: loop_step_defs Cons loop_fds_def)
      next
        case INBOX_TAG
        then show ?thesis using eq p by (intro simple [of "ElInbox us"]) (auto simp: loop_step_defs Cons loop_fds_def)
      next
        case NullPtr
        then show ?thesis using eq p by (intro simple [of "ElAccept us"]) (auto simp: loop_step_defs Cons loop_fds_def)
      qed
    next
      assume p: "el_pc l = ElDrainBatch evs n"
      show ?thesis
      proof (cases "\<exists>a. u = ConnPtr a")
        case True
        then show ?thesis using eq p by (auto simp: loop_step_defs Cons loop_fds_def intro!: serv [of "ElDrainBatch us n"])
      next
        case False
        then show ?thesis using eq p by (intro simple [of "ElDrainBatch us n"]) (cases u; auto simp: loop_step_defs Cons loop_fds_def)+
      qed
    qed
  qed
qed

lemma moved_refused:
  assumes os: "fresh_descriptors os" "finite_interrupts os" "bounded_io os" and run: "proxy_run os cfg s" and i: "i < length (p_caches s)"
    and sh: "shard i l s" and ElAccept: "el_pc l = ElAccept us" and a: "accept_one os (el_listener l) (p_trace s) = Some ((st, fd), t)" and False: "st \<noteq> AcceptOk"
    and eq: "loop_step os cfg raw l (world_of s i) = Some (l', w')"
  shows "\<exists>s'. moved os cfg i l s l' w' s'"
proof -
  have u: "untouched (open_fds (p_trace s)) (p_trace s) t" by (rule accept_one_effect [OF os(2,1), of "el_listener l" "p_trace s"]) (use a in simp)
  have c: "calm {} {} s (s\<lparr>p_trace := t\<rparr>)" by (rule calm_open [OF proxy_run_inv [OF os run] u accept_one_grows [OF os(2) a]])
  have l': "l' = l\<lparr>el_pc := ElBatch us\<rparr>" "w' = (world_of s i)\<lparr>w_trace := t\<rparr>" using eq a False by (simp_all add: loop_step_defs ElAccept Let_def)
  have "shard i l' s" unfolding l' by (rule shard_pc [OF sh]) (simp_all add: ElAccept)
  then have "shard i l' (s\<lparr>p_trace := t\<rparr>)" by (rule shard_frame [OF _ c]) simp_all
  then have "advance os cfg i (p_accepted s) l' w' s (s\<lparr>p_trace := t\<rparr>)"
    using run_accept_failed [OF os(2,1) run a False] own_shard(2) [OF any_kq [OF c]] i by (simp add: advance_def l'(2) world_of_def)
  then show ?thesis using moved_advance [of os cfg i s l' w' "s\<lparr>p_trace := t\<rparr>" l] by (auto simp: l'(1) loop_fds_def ElAccept)
qed

lemma moved_kevent:
  assumes os: "fresh_descriptors os" "finite_interrupts os" "bounded_io os" and run: "proxy_run os cfg s" and i: "i < length (p_caches s)"
    and sh: "shard i l s" and ElWait: "el_pc l = ElWait" and eq: "loop_step os cfg raw l (world_of s i) = Some (l', w')"
  shows "\<exists>s'. moved os cfg i l s l' w' s'"
proof -
  show ?thesis
  proof (cases "el_stop l")
    case True
    then show ?thesis using eq ElWait by (intro moved_simple [OF os run i sh, of ElStop]) (auto simp: loop_step_defs loop_fds_def)
  next
    case False
    let ?pc = "case os_kevent os (p_trace s) (el_kq l) of Inl e \<Rightarrow> if e = EINTR then ElWait else ElStop | Inr us \<Rightarrow> ElBatch us"
    have "?pc \<notin> {ElStart, ElReturned}" "\<And>fds us. ?pc \<noteq> ElAdopt fds us" by (auto split: sum.splits)
    then have "mset (loop_fds (l\<lparr>el_pc := ?pc\<rparr>)) = mset (loop_fds l)" by (auto simp: loop_fds_def ElWait split: loop_pc.splits)
    moreover note \<open>?pc \<notin> {ElStart, ElReturned}\<close>
    ultimately show ?thesis using eq ElWait False by (intro moved_wait [OF os run i sh, of ?pc]) (auto simp: loop_step_defs kevent_def Let_def)
  qed
qed

lemma moved_drain:
  assumes os: "fresh_descriptors os" "finite_interrupts os" "bounded_io os" and run: "proxy_run os cfg s" and i: "i < length (p_caches s)"
    and sh: "shard i l s" and ElDrain: "el_pc l = ElDrain n" and eq: "loop_step os cfg raw l (world_of s i) = Some (l', w')"
  shows "\<exists>s'. moved os cfg i l s l' w' s'"
proof -
  show ?thesis
  proof (cases "el_live l = [] \<or> 5000 \<le> n")
    case True
    then show ?thesis using eq ElDrain by (intro moved_simple [OF os run i sh, of ElClear]) (auto simp: loop_step_defs loop_fds_def)
  next
    case False
    let ?pc = "case os_kevent os (p_trace s) (el_kq l) of Inl e \<Rightarrow> if e = EINTR then ElDrain n else ElClear
        | Inr us \<Rightarrow> ElDrainBatch us (if us = [] then n + 100 else n)"
    have "?pc \<notin> {ElStart, ElReturned}" "\<And>fds us. ?pc \<noteq> ElAdopt fds us" by (auto split: sum.splits)
    then have "mset (loop_fds (l\<lparr>el_pc := ?pc\<rparr>)) = mset (loop_fds l)" by (auto simp: loop_fds_def ElDrain split: loop_pc.splits)
    moreover note \<open>?pc \<notin> {ElStart, ElReturned}\<close>
    ultimately show ?thesis using eq ElDrain False by (intro moved_wait [OF os run i sh, of ?pc]) (auto simp: loop_step_defs kevent_def Let_def)
  qed
qed

lemma moved_drained:
  assumes os: "fresh_descriptors os" "finite_interrupts os" "bounded_io os" and run: "proxy_run os cfg s" and i: "i < length (p_caches s)"
    and sh: "shard i l s" and ElClear: "el_pc l = ElClear" and eq: "loop_step os cfg raw l (world_of s i) = Some (l', w')"
  shows "\<exists>s'. moved os cfg i l s l' w' s'"
proof -
  show ?thesis
  proof (cases "el_live l")
    case Nil
    then have l': "l' = l\<lparr>el_pc := ElReturned\<rparr>" "w' = (world_of s i)\<lparr>w_trace := p_trace s\<rparr>"
      using eq by (auto simp: loop_step_defs ElClear world_of_def)
    have "shard i l' s" using shardD(2,6) [OF sh] Nil by (simp add: shard_def l'(1))
    then show ?thesis by (rule moved_quiet [OF os run i _ _ l'(2)]) (simp_all add: l'(1) loop_fds_def ElClear)
  next
    case (Cons x rest)
    then show ?thesis using moved_clear [OF os run i sh ElClear, of "fst x" "snd x" rest] eq by (cases x) (simp add: loop_step_defs ElClear)
  qed
qed

lemma loop_step_moved:
  assumes os: "fresh_descriptors os" "finite_interrupts os" "bounded_io os" and run: "proxy_run os cfg s" and i: "i < length (p_caches s)"
    and sh: "shard i l s" and fds: "set (loop_fds l) \<subseteq> p_accepted s" and eq: "loop_step os cfg raw l (world_of s i) = Some (l', w')"
  shows "\<exists>s'. moved os cfg i l s l' w' s'"
proof (cases "el_pc l")
  case ElStart
  obtain l1 t where "loop_start os l (p_trace s) = (l1, t)" by fastforce
  then show ?thesis using moved_start [OF os run i sh ElStart, of l1 t] eq by (simp add: loop_step_defs ElStart)
next
  case (ElAccept us)
  obtain st fd t where a: "accept_one os (el_listener l) (p_trace s) = Some ((st, fd), t)"
    using eq by (auto simp: loop_step_defs ElAccept split: bind_splits)
  show ?thesis
  proof (cases "st = AcceptOk")
    case True
    then show ?thesis using moved_accept [OF os run i sh ElAccept, of fd t raw l' w'] a eq by (simp add: loop_step_defs ElAccept Let_def split: if_splits)
  next
    case False
    then show ?thesis by (rule moved_refused [OF os run i sh ElAccept a _ eq])
  qed
next
  case (ElAdopt fds us)
  show ?thesis
  proof (cases fds)
    case Nil
    then show ?thesis using eq ElAdopt by (intro moved_simple [OF os run i sh, of "ElBatch us"]) (auto simp: loop_step_defs loop_fds_def)
  next
    case (Cons fd rest)
    have "fd \<in> p_accepted s" using fds ElAdopt Cons by (simp add: loop_fds_def)
    then show ?thesis using moved_adopt [OF os run i sh, of fd rest us raw l' w'] eq ElAdopt Cons by (simp add: loop_step_defs split: if_splits)
  qed
next
  case ElReturned
  then show ?thesis using eq by (simp add: loop_step_defs)
qed (use moved_batch [OF os run i sh _ eq] moved_inbox [OF os run i sh _ eq] moved_stop [OF os run i sh _ eq]
    moved_kevent [OF os run i sh _ eq] moved_drain [OF os run i sh _ eq] moved_drained [OF os run i sh _ eq] in blast)+


section \<open>The loops are a schedule of the process\<close>

fun sh_fds :: "shard_acceptor \<Rightarrow> fd list" where
  "sh_fds (ShPush fd) = [fd]"
| "sh_fds _ = []"

definition loops_held :: "loops \<Rightarrow> fd list" where
  "loops_held p = sh_fds (lp_acc p) @ concat (map loop_fds (lp_loops p))"

definition busy :: "loop \<Rightarrow> bool" where
  "busy l \<longleftrightarrow> el_pc l \<notin> {ElStart, ElReturned}"

definition loops_ok :: "loops \<Rightarrow> bool" where
  "loops_ok p \<longleftrightarrow>
     (let ls = lp_loops p in
      (\<forall>i<length ls. \<forall>j<length ls. i \<noteq> j \<longrightarrow> busy (ls ! i) \<longrightarrow> busy (ls ! j) \<longrightarrow> el_kq (ls ! i) \<noteq> el_kq (ls ! j)) \<and>
      (\<forall>l\<in>set ls. el_pc l = ElStart \<longrightarrow> el_kq l = -1) \<and>
      (\<forall>l\<in>set ls. 0 \<le> el_listener l \<longrightarrow> length ls = 1) \<and>
      (lp_acc p = NoAcceptor \<or> (\<forall>l\<in>set ls. el_inbox l \<noteq> None)) \<and>
      (lp_acc p \<in> {NoAcceptor, ShReturned} \<or> lp_next p < length ls))"

definition loops_models :: "config \<Rightarrow> loops \<Rightarrow> (nat \<times> nat) proxy \<Rightarrow> bool" where
  "loops_models cfg p s \<longleftrightarrow>
     p_trace s = lp_trace p \<and> p_res s = lp_res p \<and> p_caches s = lp_caches p \<and> length (lp_caches p) = length (lp_loops p) \<and>
     (\<forall>i a. length (lp_loops p) \<le> i \<longrightarrow> p_conns s (i, a) = None) \<and>
     p_accepted s = set (loops_held p) \<and> distinct (loops_held p) \<and>
     (\<forall>i<length (lp_loops p). shard i (lp_loops p ! i) s) \<and> loops_ok p"

lemma loop_step_pc:
  assumes "loop_step os cfg raw l w = Some (l', w')"
  shows "el_pc l' \<noteq> ElStart"
proof (cases "el_pc l")
  case (ElBatch us)
  then show ?thesis using assms service_fields(4)
    by (cases us) (force simp: loop_step_defs split: udata.splits)+
next
  case (ElDrainBatch us n)
  then show ?thesis using assms service_fields(4)
    by (cases us) (force simp: loop_step_defs split: udata.splits)+
next
  case (ElAdopt fds us)
  then show ?thesis using assms adopt_fields(4)
    by (cases fds) (force simp: loop_step_defs split: if_splits)+
next
  case (ElAccept us)
  then show ?thesis using assms adopt_fields(4)
    by (force simp: loop_step_defs Let_def split: if_splits bind_splits)
qed (use assms in \<open>auto simp: loop_step_defs loop_start_def kevent_def Let_def inbox_drain_def split: sum.splits option.splits list.splits bind_splits if_splits prod.splits\<close>)

lemma loops_modelsD:
  assumes "loops_models cfg p s"
  shows "p_trace s = lp_trace p" and "p_res s = lp_res p" and "p_caches s = lp_caches p" and "length (lp_caches p) = length (lp_loops p)"
    and "length (lp_loops p) \<le> i \<Longrightarrow> p_conns s (i, a) = None" and "p_accepted s = set (loops_held p)" and "distinct (loops_held p)"
    and "i < length (lp_loops p) \<Longrightarrow> shard i (lp_loops p ! i) s" and "loops_ok p"
  using assms by (simp_all add: loops_models_def)

lemma loops_okD:
  assumes "loops_ok p"
  shows "i < length (lp_loops p) \<Longrightarrow> j < length (lp_loops p) \<Longrightarrow> i \<noteq> j \<Longrightarrow> busy (lp_loops p ! i) \<Longrightarrow> busy (lp_loops p ! j) \<Longrightarrow>
      el_kq (lp_loops p ! i) \<noteq> el_kq (lp_loops p ! j)"
    and "l \<in> set (lp_loops p) \<Longrightarrow> el_pc l = ElStart \<Longrightarrow> el_kq l = -1"
    and "l \<in> set (lp_loops p) \<Longrightarrow> 0 \<le> el_listener l \<Longrightarrow> length (lp_loops p) = 1"
    and "lp_acc p \<noteq> NoAcceptor \<Longrightarrow> l \<in> set (lp_loops p) \<Longrightarrow> el_inbox l \<noteq> None"
    and "lp_acc p \<notin> {NoAcceptor, ShReturned} \<Longrightarrow> lp_next p < length (lp_loops p)"
  using assms unfolding loops_ok_def Let_def by blast+

lemma loops_run_other:
  assumes m: "loops_models cfg p s" and i: "i < length (lp_loops p)" and pc: "el_pc (lp_loops p ! i) \<noteq> ElReturned"
    and mv: "moved os cfg i (lp_loops p ! i) s l' w' s'" and j: "j < length (lp_loops p)" "j \<noteq> i"
  shows "busy (lp_loops p ! j) \<Longrightarrow> el_kq l' \<noteq> el_kq (lp_loops p ! j)" and "shard j (lp_loops p ! j) s'"
proof -
  let ?i = "lp_loops p ! i" and ?j = "lp_loops p ! j"
  note d = loops_modelsD [OF m] and ok = loops_okD [OF loops_modelsD(9) [OF m]]
  have sh: "shard j ?j s" by (rule d(8) [OF j(1)])
  show kq: "el_kq l' \<noteq> el_kq ?j" if b: "busy ?j"
  proof -
    have kj: "0 \<le> el_kq ?j" "el_kq ?j \<in> p_other s" using shardD(7) [OF sh] b by (simp_all add: busy_def)
    have "el_kq ?i \<noteq> el_kq ?j"
    proof (cases "el_pc ?i = ElStart")
      case True
      then show ?thesis using ok(2) [OF nth_mem [OF i]] kj by simp
    next
      case False
      then show ?thesis using ok(1) [OF i j(1) j(2) [symmetric]] b pc by (simp add: busy_def)
    qed
    then show ?thesis using mv kj(2) by (auto simp: moved_def)
  qed
  have c: "calm {el_kq l'} {k. fst k = i} s s'" using mv by (simp add: moved_def advance_def)
  have "length (lp_loops p) \<noteq> 1" using i j by auto
  then have "\<not> 0 \<le> el_listener ?i" using ok(3) [OF nth_mem [OF i]] by blast
  then have "p_other s \<subseteq> p_other s'" using mv by (auto simp: moved_def)
  moreover have "el_kq ?j \<notin> {el_kq l'} \<or> el_pc ?j \<in> {ElStart, ElReturned}" using kq by (cases "busy ?j") (auto simp: busy_def)
  ultimately show "shard j ?j s'" by (intro shard_frame [OF sh c]) (use j(2) in auto)
qed

lemma loops_run_models:
  assumes m: "loops_models cfg p s" and i: "i < length (lp_loops p)" and pc: "el_pc (lp_loops p ! i) \<noteq> ElReturned" "el_pc l' \<noteq> ElStart"
    and mv: "moved os cfg i (lp_loops p ! i) s l' w' s'"
  shows "loops_models cfg (set_loop i l' w' p) s'"
proof -
  let ?l = "lp_loops p ! i" and ?p = "set_loop i l' w' p"
  note d = loops_modelsD [OF m] and ok = loops_okD [OF loops_modelsD(9) [OF m]] and other = loops_run_other [OF m i pc(1) mv]
  have f: "lp_trace ?p = w_trace w'" "lp_res ?p = w_res w'" "lp_caches ?p = (lp_caches p)[i := w_cache w']" "lp_loops ?p = (lp_loops p)[i := l']"
      "lp_acc ?p = lp_acc p" "lp_next ?p = lp_next p" by (simp_all add: set_loop_def)
  have a: "advance os cfg i (p_accepted s') l' w' s s'" using mv by (simp add: moved_def)
  have h: "mset (loops_held ?p) + mset (loop_fds ?l) = mset (loops_held p) + mset (loop_fds l')"
    using mset_concat_update [OF i, of loop_fds l'] by (simp add: loops_held_def f)
  have held: "p_accepted s' = set (loops_held ?p) \<and> distinct (loops_held ?p)"
  proof (cases "mset (loop_fds l') = mset (loop_fds ?l) \<and> p_accepted s' = p_accepted s")
    case True
    then have "mset (loops_held ?p) = mset (loops_held p)" using h by simp
    then show ?thesis using distinct_moved d(6,7) True by metis
  next
    case False
    then obtain fd where fd: "mset (loop_fds ?l) = add_mset fd (mset (loop_fds l'))" "p_accepted s' = p_accepted s - {fd}"
      using mv unfolding moved_def by blast
    then have "mset (loops_held p) = add_mset fd (mset (loops_held ?p))" using h by simp
    from distinct_taken [OF this d(7)] show ?thesis using fd(2) d(6) by simp
  qed
  have shards: "shard j (lp_loops ?p ! j) s'" if "j < length (lp_loops p)" for j
    using other(2) [OF that] a i by (cases "j = i") (simp_all add: f advance_def)
  have conns: "p_conns s' (j, b) = None" if "length (lp_loops p) \<le> j" for j b
    using calmD(1) [of "{el_kq l'}" "{k. fst k = i}" s s' "(j, b)"] a d(5) [OF that] i that by (simp add: advance_def)
  have kqs: "el_kq (lp_loops ?p ! j) \<noteq> el_kq (lp_loops ?p ! k)"
    if "j < length (lp_loops p)" "k < length (lp_loops p)" "j \<noteq> k" "busy (lp_loops ?p ! j)" "busy (lp_loops ?p ! k)" for j k
    using that ok(1) [of j k] other(1) [of j] other(1) [of k] by (cases "j = i"; cases "k = i") (auto simp: f)
  have mem: "l = l' \<or> l \<in> set (lp_loops p)" if "l \<in> set (lp_loops ?p)" for l using that set_update_subset_insert by (fastforce simp: f)
  have l': "el_listener l' \<in> {el_listener ?l, -1}" "el_inbox l' = None \<longleftrightarrow> el_inbox ?l = None" using mv by (simp_all add: moved_def)
  have "\<forall>l\<in>set (lp_loops ?p). el_pc l = ElStart \<longrightarrow> el_kq l = -1" using mem pc(2) ok(2) by blast
  moreover have "length (lp_loops ?p) = 1" if "l \<in> set (lp_loops ?p)" "0 \<le> el_listener l" for l
    using mem [OF that(1)] that(2) l'(1) ok(3) [of l] ok(3) [OF nth_mem [OF i]] by (auto simp: f(4))
  moreover have "lp_acc p = NoAcceptor \<or> (\<forall>l\<in>set (lp_loops ?p). el_inbox l \<noteq> None)" using mem l'(2) ok(4) nth_mem [OF i] by metis
  moreover have "lp_acc p \<in> {NoAcceptor, ShReturned} \<or> lp_next p < length (lp_loops p)" using ok(5) by blast
  ultimately have "loops_ok ?p" unfolding loops_ok_def Let_def using kqs by (simp add: f)
  then show ?thesis unfolding loops_models_def using a held shards conns d(3,4) f by (simp add: advance_def)
qed


text \<open>Steps that do not run a loop: whatever is calm for all loops keeps all of them.\<close>

lemma loops_frame:
  assumes m: "loops_models cfg p s" and c: "calm {} {} s s'" and o: "p_other s' = p_other s" and ca: "p_caches s' = p_caches s"
    and p': "lp_trace p' = p_trace s'" "lp_res p' = p_res s'" "lp_caches p' = lp_caches p" "lp_loops p' = lp_loops p"
    and h: "p_accepted s' = set (loops_held p')" "distinct (loops_held p')" and ok: "loops_ok p'"
  shows "loops_models cfg p' s'"
proof -
  note d = loops_modelsD [OF m]
  have "shard j (lp_loops p ! j) s'" if "j < length (lp_loops p)" for j by (rule shard_frame [OF d(8) [OF that] c]) (simp_all add: o)
  moreover have "p_conns s' k = p_conns s k" for k by (rule calmD(1) [OF c]) simp
  ultimately show ?thesis unfolding loops_models_def using d p' h ok ca by simp
qed

definition alike :: "loop \<Rightarrow> loop \<Rightarrow> bool" where
  "alike l l' \<longleftrightarrow> el_live l' = el_live l \<and> el_kq l' = el_kq l \<and> el_pc l' = el_pc l \<and> el_listener l' = el_listener l \<and>
     map_option ib_read_end (el_inbox l') = map_option ib_read_end (el_inbox l)"

lemma shard_alike:
  assumes "alike l l'"
  shows "shard i l' s = shard i l s"
proof -
  have "doors l' s = doors l s" using assms by (cases "el_inbox l'"; cases "el_inbox l") (simp_all add: doors_def alike_def)
  moreover have "active l' s = active l s" using assms by (simp add: active_def alike_def)
  ultimately show ?thesis using assms by (simp add: shard_def alike_def)
qed

text \<open>Pushing into an inbox and setting stop flags do not concern the connections.\<close>

lemma loops_alike:
  assumes m: "loops_models cfg p s" and p': "lp_trace p' = lp_trace p" "lp_res p' = lp_res p" "lp_caches p' = lp_caches p"
    and ls: "length (lp_loops p') = length (lp_loops p)" "\<And>j. j < length (lp_loops p) \<Longrightarrow> alike (lp_loops p ! j) (lp_loops p' ! j)"
    and h: "mset (loops_held p') = mset (loops_held p)" and acc: "lp_acc p' = NoAcceptor \<longleftrightarrow> lp_acc p = NoAcceptor"
    and n: "lp_acc p' \<in> {NoAcceptor, ShReturned} \<or> lp_next p' < length (lp_loops p)"
  shows "loops_models cfg p' s"
proof -
  note d = loops_modelsD [OF m] and ok = loops_okD [OF loops_modelsD(9) [OF m]] and held = distinct_moved [OF h loops_modelsD(7) [OF m]]
  have e: "busy (lp_loops p' ! j) = busy (lp_loops p ! j)" "el_kq (lp_loops p' ! j) = el_kq (lp_loops p ! j)" if "j < length (lp_loops p)" for j
    using ls(2) [OF that] by (simp_all add: alike_def busy_def)
  have partner: "\<exists>x\<in>set (lp_loops p). alike x l" if "l \<in> set (lp_loops p')" for l
    using that ls nth_mem unfolding in_set_conv_nth [of l] by metis
  have "el_kq l = -1" if "l \<in> set (lp_loops p')" "el_pc l = ElStart" for l
    using partner [OF that(1)] that(2) ok(2) by (auto simp: alike_def)
  moreover have "length (lp_loops p') = 1" if "l \<in> set (lp_loops p')" "0 \<le> el_listener l" for l
    using partner [OF that(1)] that(2) ok(3) ls(1) by (auto simp: alike_def)
  moreover have "el_inbox l \<noteq> None" if l: "l \<in> set (lp_loops p')" "lp_acc p' \<noteq> NoAcceptor" for l
  proof -
    obtain x where "x \<in> set (lp_loops p)" and x: "alike x l" using partner [OF l(1)] by blast
    then have "el_inbox x \<noteq> None" using ok(4) acc l(2) by blast
    then show ?thesis using x by (cases "el_inbox l") (auto simp: alike_def)
  qed
  ultimately have "loops_ok p'" unfolding loops_ok_def Let_def using ok(1) n e ls(1) by (intro conjI) (simp, blast, blast, blast, simp)
  moreover have "shard j (lp_loops p' ! j) s" if "j < length (lp_loops p)" for j using shard_alike [OF ls(2) [OF that]] d(8) [OF that] by simp
  ultimately show ?thesis unfolding loops_models_def using d held p' ls(1) by simp
qed

lemma stop_loops_models:
  assumes m: "loops_models cfg p s"
  shows "loops_models cfg (stop_loops p) s"
proof -
  have "map loop_fds (lp_loops (stop_loops p)) = map loop_fds (lp_loops p)" by (simp add: stop_loops_def loop_fds_def)
  then have "loops_held (stop_loops p) = loops_held p" by (simp add: loops_held_def) (simp add: stop_loops_def)
  then show ?thesis using loops_okD(5) [OF loops_modelsD(9) [OF m]]
    by (intro loops_alike [OF m]) (auto simp: stop_loops_def alike_def)
qed

lemma loops_push_models:
  assumes m: "loops_models cfg p s" and acc: "lp_acc p = ShPush fd"
    and p': "p' = p\<lparr>lp_loops := (lp_loops p)[lp_next p := update_inbox (inbox_push fd) (lp_loops p ! lp_next p)], lp_acc := ShWake\<rparr>"
  shows "loops_models cfg p' s"
proof -
  note okd = loops_okD [OF loops_modelsD(9) [OF m]]
  let ?n = "lp_next p" and ?l = "update_inbox (inbox_push fd) (lp_loops p ! lp_next p)"
  have n: "?n < length (lp_loops p)" using okd(5) acc by simp
  obtain ib where ib: "el_inbox (lp_loops p ! ?n) = Some ib" using okd(4) [OF _ nth_mem [OF n]] acc by auto
  have l: "?l = (lp_loops p ! ?n)\<lparr>el_inbox := Some (inbox_push fd ib)\<rparr>" using ib by (simp add: update_inbox_def)
  have "mset (loop_fds ?l) = add_mset fd (mset (loop_fds (lp_loops p ! ?n)))" by (simp add: l loop_fds_def inbox_push_def ib)
  then have "mset (loops_held p') = mset (loops_held p)"
    using mset_concat_update [OF n, of loop_fds ?l] by (simp add: loops_held_def p' acc)
  moreover have "alike (lp_loops p ! ?n) ?l" by (simp add: l alike_def ib inbox_push_def)
  ultimately show ?thesis using n acc by (intro loops_alike [OF m]) (auto simp: p' nth_list_update alike_def)
qed

lemma loops_ok_acceptor:
  assumes "loops_ok p" and "lp_loops p' = lp_loops p" and "lp_acc p' = NoAcceptor \<longleftrightarrow> lp_acc p = NoAcceptor"
    and "lp_acc p' \<in> {NoAcceptor, ShReturned} \<or> lp_next p' < length (lp_loops p)"
  shows "loops_ok p'"
  using assms unfolding loops_ok_def Let_def by simp

lemma loops_quiet:
  assumes os: "fresh_descriptors os" "finite_interrupts os" "bounded_io os" and m: "loops_models cfg p s" and run: "proxy_run os cfg s"
    and p': "only_events quiet (lp_trace p) (lp_trace p')" "lp_res p' = lp_res p" "lp_caches p' = lp_caches p" "lp_loops p' = lp_loops p"
      "sh_fds (lp_acc p') = sh_fds (lp_acc p)" "loops_ok p'"
  shows "\<exists>s'. loops_models cfg p' s' \<and> proxy_run os cfg s'"
proof -
  note d = loops_modelsD [OF m]
  have q: "only_events quiet (p_trace s) (lp_trace p')" using p'(1) d(1) by simp
  have "loops_held p' = loops_held p" using p' by (simp add: loops_held_def)
  then have "loops_models cfg p' (s\<lparr>p_trace := lp_trace p'\<rparr>)"
    using d p' by (intro loops_frame [OF m calm_quiet [OF proxy_run_inv [OF os run] q]]) simp_all
  then show ?thesis using run_quiet [OF run q] by blast
qed

lemma loops_accept_models:
  assumes os: "fresh_descriptors os" "finite_interrupts os" "bounded_io os" and m: "loops_models cfg p s" and run: "proxy_run os cfg s"
    and step: "shard_accept_step os p = Some p'"
  shows "\<exists>s'. loops_models cfg p' s' \<and> proxy_run os cfg s'"
proof -
  note d = loops_modelsD [OF m] and inv = proxy_run_inv [OF os run] and okd = loops_okD [OF loops_modelsD(9) [OF m]]
  note quiet = loops_quiet [OF os m run]
  show ?thesis
  proof (cases "lp_acc p")
    case ShTop
    obtain b t where w: "wait_ready os (lp_listener p) False 200 (lp_trace p) = Some (b, t)" "only_events quiet (lp_trace p) t"
      by (rule wait_ready_effect [OF os(2)])
    have "p' = (if lp_stop p then p\<lparr>lp_acc := ShHalt\<rparr> else p\<lparr>lp_trace := t, lp_acc := (if b then ShAccept else ShTop)\<rparr>)"
      using step w(1) by (cases "lp_stop p") (simp_all add: shard_accept_step_def ShTop)
    then show ?thesis using w(2) d(9) ShTop by (intro quiet) (simp_all add: loops_ok_def)
  next
    case ShAccept
    obtain st fd t where a: "accept_one os (lp_listener p) (p_trace s) = Some ((st, fd), t)"
      and p': "p' = p\<lparr>lp_trace := t, lp_acc := (if st = AcceptOk then ShPush fd else ShTop)\<rparr>"
      using step d(1) by (auto simp: shard_accept_step_def ShAccept split: bind_splits)
    have u: "untouched (open_fds (p_trace s)) (p_trace s) t" by (rule accept_one_effect [OF os(2,1), of "lp_listener p" "p_trace s"]) (use a in simp)
    have c: "calm {} {} s (s\<lparr>p_trace := t\<rparr>)" by (rule calm_open [OF inv u accept_one_grows [OF os(2) a]])
    have ok: "loops_ok p'" using d(9) okd(5) ShAccept by (simp add: p' loops_ok_def)
    show ?thesis
    proof (cases "st = AcceptOk")
      case True
      then have a': "accept_one os (lp_listener p) (p_trace s) = Some ((AcceptOk, fd), t)" using a by simp
      have "loops_models cfg p' (s\<lparr>p_trace := t, p_accepted := insert fd (p_accepted s)\<rparr>)"
        using d ok ShAccept True accept_fresh(1) [OF os(2,1) inv a']
        by (intro loops_frame [OF m calm_fields(1) [OF c]]) (simp_all add: p' loops_held_def)
      then show ?thesis using run_accept [OF run a'] by blast
    next
      case False
      have "loops_models cfg p' (s\<lparr>p_trace := t\<rparr>)"
        using d ok ShAccept False by (intro loops_frame [OF m c]) (simp_all add: p' loops_held_def)
      then show ?thesis using run_accept_failed [OF os(2,1) run a False] by blast
    qed
  next
    case (ShPush fd)
    then show ?thesis using loops_push_models [OF m ShPush] step run by (auto simp: shard_accept_step_def)
  next
    case ShWake
    obtain ib where "p' = p\<lparr>lp_trace := inbox_wake os ib (lp_trace p), lp_next := (lp_next p + 1) mod length (lp_loops p), lp_acc := ShAccept\<rparr>"
      using step by (auto simp: shard_accept_step_def ShWake split: bind_splits)
    moreover have "0 < length (lp_loops p)" using okd(5) ShWake by auto
    ultimately show ?thesis using ShWake
      by (intro quiet loops_ok_acceptor [OF d(9)]) (auto simp: inbox_wake_def intro: only_events_Cons)
  next
    case ShHalt
    then have p': "p' = (stop_loops p)\<lparr>lp_acc := ShJoin\<rparr>" using step by (simp add: shard_accept_step_def)
    have "loops_models cfg p' s"
      using okd(5) ShHalt by (intro loops_alike [OF stop_loops_models [OF m]]) (simp_all add: p' alike_def loops_held_def stop_loops_def)
    then show ?thesis using run by blast
  next
    case ShJoin
    then have "p' = p\<lparr>lp_acc := ShReturned\<rparr>" using step by (simp add: shard_accept_step_def split: if_splits)
    then show ?thesis using ShJoin by (intro quiet loops_ok_acceptor [OF d(9)]) simp_all
  qed (use step in \<open>simp_all add: shard_accept_step_def\<close>)
qed


lemma loops_step_models:
  assumes os: "fresh_descriptors os" "finite_interrupts os" "bounded_io os" and m: "loops_models cfg p s" and run: "proxy_run os cfg s"
    and step: "loops_step os cfg a p = Some p'"
  shows "\<exists>s'. loops_models cfg p' s' \<and> proxy_run os cfg s'"
proof (cases a)
  case LoopsStop
  then have "p' = stop_loops (p\<lparr>lp_stop := True\<rparr>)" using step by (simp add: loops_step_def)
  moreover have "loops_models cfg (p\<lparr>lp_stop := True\<rparr>) s"
    using loops_okD(5) [OF loops_modelsD(9) [OF m]] by (intro loops_alike [OF m]) (auto simp: loops_held_def alike_def)
  ultimately show ?thesis using stop_loops_models run by blast
next
  case LoopsAccept
  then show ?thesis using loops_accept_models [OF os m run] step by (simp add: loops_step_def)
next
  case (LoopsRun i raw)
  note d = loops_modelsD [OF m]
  obtain l' w' where i: "i < length (lp_loops p)" and st: "loop_step os cfg raw (lp_loops p ! i) (loops_world i p) = Some (l', w')"
    and p': "p' = set_loop i l' w' p" using step by (auto simp: loops_step_def LoopsRun split: if_splits bind_splits)
  have w: "world_of s i = loops_world i p" using d(1,2,3) by (simp add: world_of_def loops_world_def)
  have "set (loop_fds (lp_loops p ! i)) \<subseteq> p_accepted s" using d(6) nth_mem [OF i] by (auto simp: loops_held_def)
  from loop_step_moved [OF os run _ d(8) [OF i] this, of raw l' w'] obtain s' where mv: "moved os cfg i (lp_loops p ! i) s l' w' s'"
    using st w i d(3,4) by auto
  have "el_pc (lp_loops p ! i) \<noteq> ElReturned" using st by (auto simp: loop_step_defs)
  from loops_run_models [OF m i this loop_step_pc [OF st] mv] show ?thesis using mv p' by (auto simp: moved_def advance_def)
next
  case (LoopsResolver n)
  note d = loops_modelsD [OF m]
  obtain r t where w: "worker_step os n (lp_res p) (lp_trace p) = Some (r, t)" and p': "p' = p\<lparr>lp_res := r, lp_trace := t\<rparr>"
    using step by (auto simp: loops_step_def LoopsResolver split: bind_splits)
  have w': "worker_step os n (p_res s) (p_trace s) = Some (r, t)" using w d by simp
  have "loops_models cfg p' (s\<lparr>p_res := r, p_trace := t\<rparr>)"
    using d by (intro loops_frame [OF m calm_worker [OF proxy_run_inv [OF os run] w']] loops_ok_acceptor [OF d(9)])
      (use loops_okD(5) [OF d(9)] in \<open>auto simp: p' loops_held_def\<close>)
  then show ?thesis using run_worker [OF run w'] by blast
qed

lemma init_inboxes_open:
  "init_inboxes os n t = (True, ibs, t') \<Longrightarrow> open_fds t \<subseteq> open_fds t' \<and> length ibs = n \<and> (\<forall>ib\<in>set ibs. ib_read_end ib \<in> open_fds t' \<and> ib_queue ib = [])"
proof (induction n arbitrary: t ibs t')
  case (Suc n)
  obtain ib t1 ibs' where i: "inbox_init os t = (True, ib, t1)" and r: "init_inboxes os n t1 = (True, ibs', t')" and ibs: "ibs = ib # ibs'"
    using Suc.prems by (auto simp: Let_def split: prod.splits if_splits)
  obtain a b where "os_pipe os t = Inr (a, b)" and ib: "ib_read_end ib = a" "ib_queue ib = []" and t1: "t1 = snd (set_nonblocking os a (EvPipe (Inr (a, b)) # t))"
    using i by (auto simp: inbox_init_def make_pipe_def fd_reset_def Let_def split: sum.splits prod.splits)
  then have "open_fds t1 = open_fds t \<union> {a, b}" using only_events_quiet(1) [OF set_nonblocking_quiet] by simp
  then show ?case using Suc.IH [OF r] ibs ib by auto
qed simp

lemma init_shards_models:
  assumes ls: "\<forall>l\<in>set ls. l = new_loop (el_listener l) (el_inbox l) \<and> (el_listener l = -1 \<or> el_listener l \<in> open_fds t) \<and>
      (0 \<le> el_listener l \<longrightarrow> length ls = 1) \<and> (\<forall>x. el_inbox l = Some x \<longrightarrow> ib_queue x = [] \<and> ib_read_end x \<in> open_fds t) \<and>
      (acc = NoAcceptor \<or> el_inbox l \<noteq> None)"
    and acc: "acc \<in> {NoAcceptor, ShTop, ShReturned}" "acc = ShTop \<longrightarrow> ls \<noteq> []" and ca: "length cs = length ls" "set cs \<subseteq> {None, Some (make_cache cfg)}"
  shows "\<exists>s. loops_models cfg \<lparr>lp_trace = t, lp_res = new_resolver n ttl delay, lp_caches = cs, lp_loops = ls, lp_listener = lis, lp_stop = False,
      lp_next = 0, lp_acc = acc\<rparr> s \<and> proxy_run os cfg s"
proof -
  let ?s = "\<lparr>p_conns = Map.empty, p_accepted = {}, p_other = open_fds t, p_trace = t, p_res = new_resolver n ttl delay, p_caches = cs\<rparr>"
  let ?p = "\<lparr>lp_trace = t, lp_res = new_resolver n ttl delay, lp_caches = cs, lp_loops = ls, lp_listener = lis, lp_stop = False,
      lp_next = 0, lp_acc = acc\<rparr>"
  have new: "el_live l = [] \<and> el_kq l = -1 \<and> el_pc l = ElStart" if "l \<in> set ls" for l
    using bspec [OF ls that] by (metis loop.select_convs new_loop_def)
  have "shard i (ls ! i) ?s" if "i < length ls" for i
    using new [OF nth_mem [OF that]] bspec [OF ls nth_mem [OF that]] by (simp add: shard_def doors_def)
  moreover have facts: "loop_fds l = [] \<and> \<not> busy l \<and> el_kq l = -1 \<and> (0 \<le> el_listener l \<longrightarrow> length ls = 1) \<and> (acc = NoAcceptor \<or> el_inbox l \<noteq> None)"
    if "l \<in> set ls" for l
    using new [OF that] bspec [OF ls that] by (auto simp: loop_fds_def busy_def split: option.splits)
  moreover have "sh_fds acc = []" using acc(1) by auto
  then have "loops_held ?p = []" using facts by (simp add: loops_held_def)
  ultimately have "loops_models cfg ?p ?s" using acc ca(1) by (auto simp: loops_models_def loops_ok_def Let_def)
  moreover have "proxy_run os cfg ?s" using ca(2) by (intro run_init)
  ultimately show ?thesis by blast
qed

lemma init_loops_models:
  assumes "loops_init os cfg p"
  shows "\<exists>s. loops_models cfg p s \<and> proxy_run os cfg s"
proof -
  obtain listener t n ttl delay cache where l: "0 \<le> listener" "listener \<in> open_fds t" and c: "cache \<in> {None, Some (make_cache cfg)}"
    and p: "p = make_event_loop os cfg listener \<lparr>w_trace = t, w_res = new_resolver n ttl delay, w_cache = cache\<rparr>"
    using assms unfolding loops_init_def by blast
  show ?thesis
  proof (cases "event_loops cfg > 1")
    case False
    then show ?thesis using l c unfolding p make_event_loop_def single_start_def by (simp, intro init_shards_models) (auto simp: new_loop_def)
  next
    case True
    obtain ok ibs t2 where ib: "init_inboxes os (shard_count cfg) (snd (set_nonblocking os listener t)) = (ok, ibs, t2)" by (metis prod_cases3)
    have "shard_count cfg > 0" by (simp add: shard_count_def)
    then have "ok \<Longrightarrow> length ibs > 0 \<and> (\<forall>x\<in>set ibs. ib_queue x = [] \<and> ib_read_end x \<in> open_fds t2)" using init_inboxes_open [of os] ib by auto
    then have "\<exists>s. loops_models cfg \<lparr>lp_trace = t2, lp_res = new_resolver n ttl delay,
        lp_caches = map (\<lambda>_. if cache_enabled cfg then Some (make_cache cfg) else None) (if ok then map (\<lambda>ib. new_loop (-1) (Some ib)) ibs else []),
        lp_loops = (if ok then map (\<lambda>ib. new_loop (-1) (Some ib)) ibs else []), lp_listener = listener, lp_stop = False,
        lp_next = 0, lp_acc = (if ok then ShTop else ShReturned)\<rparr> s \<and> proxy_run os cfg s"
      by (intro init_shards_models) (auto simp: new_loop_def)
    then show ?thesis using True ib by (simp add: p make_event_loop_def sharded_start_def Let_def)
  qed
qed

interpretation lp: proxy_backend loops_init loops_step loops_models
  using init_loops_models loops_step_models by unfold_locales blast+

end
