(* ===== verification/Loop_Properties.thy ===== *)
theory Loop_Properties
  imports Loop_Safety
begin

text \<open>
  What the event loops promise, read off the simulation of theory \<open>Loop_Safety\<close>, with a run of two shards
  that accepts a client, hands it over, adopts it and services it.
\<close>

section \<open>Properties\<close>

text \<open>
  C4. Registrations are exact. While a loop runs or drains, what its kqueue holds for connections is exactly one
  registration per live connection: for the descriptor it waits for now, in the direction it waits for now,
  carrying its address. No connection is forgotten, none is registered twice or for a descriptor it
  has left, and no event can name a connection that is gone. Every such descriptor is open and no live
  connection is done.
\<close>

theorem event_loop_registrations:
  assumes "fresh_descriptors os" and "finite_interrupts os" and "bounded_io os" and "reaches (loops_init os cfg) (loops_step os cfg) p"
    and "i < length (lp_loops p)" and "l = lp_loops p ! i" and "el_pc l \<notin> {ElStart, ElClear, ElReturned}"
  shows "(registered (el_kq l) (lp_trace p) x = Some (ConnPtr a) \<longleftrightarrow>
      (\<exists>sl. map_of (el_live l) a = Some sl \<and> x = (want_fd (sl_conn sl) (loops_world i p), want_write (sl_conn sl)))) \<and>
    (\<forall>(b, sl)\<in>set (el_live l). \<not> conn_done (sl_conn sl) \<and> want_fd (sl_conn sl) (loops_world i p) \<in> open_fds (lp_trace p))"
proof -
  obtain s where m: "loops_models cfg p s" and inv: "proxy_inv cfg s" by (rule lp.models_inv [OF assms(1-4)])
  note d = loops_modelsD [OF m]
  have sh: "shard i l s" using d(8) assms(5,6) by simp
  note sd = shardD [OF sh]
  have w: "want_fd c (loops_world i p) = awaits (p_res s) c" for c using d(2) by (simp add: want_fd_awaits loops_world_def)
  have reg: "registered (el_kq l) (lp_trace p) (want_fd (sl_conn sl) (loops_world i p), want_write (sl_conn sl)) = Some (ConnPtr b)"
      "sl_fd sl = want_fd (sl_conn sl) (loops_world i p)" "sl_write sl = want_write (sl_conn sl)" "\<not> conn_done (sl_conn sl)"
    if "map_of (el_live l) b = Some sl" for b sl
    using sd(3) [OF that] d(1) w by (auto simp: slot_ok_def)
  have op: "want_fd (sl_conn sl) (loops_world i p) \<in> open_fds (lp_trace p)" if "map_of (el_live l) b = Some sl" for b sl
    using wait_open(2) [OF inv, of "(i, b)" "sl_conn sl" i] sd(2) [of b] reg(4) [OF that] that w d(1) by (simp add: want_fd_awaits)
  have mem: "map_of (el_live l) b = Some sl" if "(b, sl) \<in> set (el_live l)" for b sl using sd(1) that by (simp add: map_of_is_SomeI)
  have "\<exists>sl. map_of (el_live l) a = Some sl \<and> x = (want_fd (sl_conn sl) (loops_world i p), want_write (sl_conn sl))"
    if r: "registered (el_kq l) (lp_trace p) x = Some (ConnPtr a)"
  proof -
    obtain sl where "map_of (el_live l) a = Some sl" "x = (sl_fd sl, sl_write sl)" using sd(4) [OF sd(8) [OF assms(7)], of x a] r d(1) by auto
    then show ?thesis using reg(2,3) by auto
  qed
  then have "registered (el_kq l) (lp_trace p) x = Some (ConnPtr a) \<longleftrightarrow>
      (\<exists>sl. map_of (el_live l) a = Some sl \<and> x = (want_fd (sl_conn sl) (loops_world i p), want_write (sl_conn sl)))" using reg(1) by blast
  moreover have "\<not> conn_done (sl_conn sl) \<and> want_fd (sl_conn sl) (loops_world i p) \<in> open_fds (lp_trace p)" if "(b, sl) \<in> set (el_live l)" for b sl
    using mem [OF that] reg(4) op by blast
  ultimately show ?thesis by blast
qed

text \<open>Two shards; the first client asks for a page.\<close>

definition two_shards :: config where
  "two_shards = default_config\<lparr>event_loops := 2, cache_enabled := False, async_resolve := False\<rparr>"

abbreviation one_client :: os where
  "one_client \<equiv> demo_os (\<lambda>fd. if fd = 9 then plain_request else [])"

definition shards_start :: loops where
  "shards_start = make_event_loop one_client two_shards 3 \<lparr>w_trace = [EvSocket 2 1 6 (Inr 3)], w_res = new_resolver 0 60 0, w_cache = None\<rparr>"

definition adopting :: "loops_action list" where
  "adopting = [LoopsRun 0 0, LoopsRun 0 0, LoopsRun 0 0, LoopsAccept, LoopsAccept, LoopsAccept, LoopsAccept,
     LoopsRun 0 0, LoopsRun 0 0, LoopsRun 0 5, LoopsRun 0 0, LoopsRun 0 0, LoopsRun 0 0, LoopsRun 0 0]"

lemma shards_reached:
  assumes "run_schedule (loops_step one_client two_shards) as shards_start = Some p"
  shows "reaches (loops_init one_client two_shards) (loops_step one_client two_shards) p"
proof (rule reaches_schedule [OF reaches_init assms])
  show "loops_init one_client two_shards shards_start"
    unfolding loops_init_def shards_start_def
    by (rule exI [of _ 3], rule exI [of _ "[EvSocket 2 1 6 (Inr 3)]"], rule exI [of _ 0], rule exI [of _ 60], rule exI [of _ 0], rule exI [of _ None]) simp
qed

lemmas loops_run_defs =
  shards_start_def make_event_loop_def sharded_start_def shard_count_def inbox_init_def make_pipe_def new_loop_def two_shards_def
  loops_step_def shard_accept_step_def loop_step_defs loop_start_def arm_def disarm_def kevent_def inbox_drain_def inbox_push_def inbox_wake_def
  update_inbox_def adopt_def service_def erase_def loops_world_def set_loop_def new_connection_def want_fd_def want_write_def conn_done_def

lemma init_two: "init_inboxes os 2 t = init_inboxes os (Suc (Suc 0)) t"
  by (simp add: numeral_2_eq_2)

lemma shards_run:
  obtains p c where "run_schedule (loops_step one_client two_shards) adopting shards_start = Some p" and "length (lp_loops p) = 2"
    and "el_live (lp_loops p ! 0) = [(5, \<lparr>sl_conn = c, sl_fd = 10, sl_write = True, sl_epoch = 1\<rparr>)]" and "c_state c = Connecting"
    and "el_pc (lp_loops p ! 0) = ElBatch []" and "el_kq (lp_loops p ! 0) = 8" and "c_upstream c = 10" and "c_want c = WriteUpstream"
  using parse_plain by (simp add: loops_run_defs adopting_def demo_defs init_two)

theorem event_loop_registrations_witness:
  "\<exists>p. run_schedule (loops_step one_client two_shards) adopting shards_start = Some p \<and>
     registered 8 (lp_trace p) (10, True) = Some (ConnPtr 5) \<and> registered 8 (lp_trace p) (9, False) \<noteq> Some (ConnPtr 5) \<and> 10 \<in> open_fds (lp_trace p)"
proof -
  obtain p c where r: "run_schedule (loops_step one_client two_shards) adopting shards_start = Some p" and len: "length (lp_loops p) = 2"
    and live: "el_live (lp_loops p ! 0) = [(5, \<lparr>sl_conn = c, sl_fd = 10, sl_write = True, sl_epoch = 1\<rparr>)]"
    and pc: "el_pc (lp_loops p ! 0) = ElBatch []" and kq: "el_kq (lp_loops p ! 0) = 8" and c: "c_upstream c = 10" "c_want c = WriteUpstream"
    by (rule shards_run) blast
  note e = event_loop_registrations [OF demo_os_hypotheses(1,3,2) shards_reached [OF r], of 0, OF _ refl]
  have w: "want_fd c (loops_world 0 p) = 10" "want_write c" using c by (simp_all add: want_fd_def want_write_def)
  show ?thesis using e [of "(10, True)" 5] e [of "(9, False)" 5] r len live pc kq w by auto
qed

text \<open>
  C11. The event loops, alone or as shards fed by the acceptor, interleaved in any way with the resolver
  threads and stopped at any moment, only do what the process of theory \<open>Proxy\<close> may do. The connections
  of the process are those in the tables of the loops, its accepted clients are those in the inboxes and
  in the threads' hands, each in one place only; and a loop that has returned has left no connection behind.
  So everything proved of the process holds of the loops.
\<close>

theorem loops_refine_process:
  assumes "fresh_descriptors os" and "finite_interrupts os" and "bounded_io os" and "reaches (loops_init os cfg) (loops_step os cfg) p"
  shows "(\<exists>s. proxy_run os cfg s \<and>
      (\<forall>i a. p_conns s (i, a) = (if i < length (lp_loops p) then map_option sl_conn (map_of (el_live (lp_loops p ! i)) a) else None)) \<and>
      p_accepted s = set (loops_held p) \<and> distinct (loops_held p) \<and> p_trace s = lp_trace p \<and> p_res s = lp_res p \<and> p_caches s = lp_caches p) \<and>
    (\<forall>l\<in>set (lp_loops p). el_pc l = ElReturned \<longrightarrow> el_live l = [])"
proof -
  obtain s where m: "loops_models cfg p s" and run: "proxy_run os cfg s" by (rule lp.models_inv [OF assms])
  note d = loops_modelsD [OF m]
  have "p_conns s (i, a) = (if i < length (lp_loops p) then map_option sl_conn (map_of (el_live (lp_loops p ! i)) a) else None)" for i a
    using d(5) [of i a] shardD(2) [OF d(8)] by simp
  moreover have "el_live l = []" if l: "l \<in> set (lp_loops p)" "el_pc l = ElReturned" for l
  proof -
    obtain i where "i < length (lp_loops p)" "l = lp_loops p ! i" using l(1) unfolding in_set_conv_nth by blast
    then show ?thesis using shardD(5) [OF d(8)] l(2) by simp
  qed
  ultimately show ?thesis using run d by blast
qed

theorem loops_refine_process_witness:
  "\<exists>p (s :: (nat \<times> nat) proxy) c. run_schedule (loops_step one_client two_shards) adopting shards_start = Some p \<and>
     proxy_run one_client two_shards s \<and> p_conns s (0, 5) = Some c \<and> c_state c = Connecting"
proof -
  obtain p c where r: "run_schedule (loops_step one_client two_shards) adopting shards_start = Some p" and len: "length (lp_loops p) = 2"
    and live: "el_live (lp_loops p ! 0) = [(5, \<lparr>sl_conn = c, sl_fd = 10, sl_write = True, sl_epoch = 1\<rparr>)]" and c: "c_state c = Connecting"
    by (rule shards_run) blast
  from loops_refine_process [OF demo_os_hypotheses(1,3,2) shards_reached [OF r]]
  obtain s :: "(nat \<times> nat) proxy" where s: "proxy_run one_client two_shards s"
      "p_conns s (0, 5) = (if 0 < length (lp_loops p) then map_option sl_conn (map_of (el_live (lp_loops p ! 0)) 5) else None)" by blast
  then have "p_conns s (0, 5) = Some c" using len live by simp
  then show ?thesis using r s(1) c by blast
qed

end
