(* ===== verification/Main_Program.thy ===== *)
theory Main_Program
  imports Config Pool_Backend Thread_Backend Loop_Safety
begin

text \<open>
  Model of \<^verbatim>\<open>src/src/main.cpp\<close> and \<^verbatim>\<open>src/src/backend/factory.cpp\<close>: the command line, the configuration file, and
  the start of the backend. The files are a parameter, a map from paths to contents. Leaving by \<^verbatim>\<open>exit\<close> or
  \<^verbatim>\<open>return\<close> is a value that carries the exit code. The signal handler calls \<^verbatim>\<open>stop\<close> of the backend, which is an
  action of each backend; messages on the terminal are left out.
\<close>

section \<open>The command line\<close>

record args =
  ar_cfg :: config
  ar_config_path :: string
  ar_port_set :: bool
  ar_level_set :: bool
  ar_backend_set :: bool
  ar_workers_set :: bool
  ar_queue_set :: bool

definition init_args :: args where
  "init_args =
     \<lparr>ar_cfg = default_config, ar_config_path = [], ar_port_set = False, ar_level_set = False, ar_backend_set = False,
      ar_workers_set = False, ar_queue_set = False\<rparr>"

definition value_flags :: "string list" where
  "value_flags = [''-c'', ''-p'', ''-v'', ''-w'', ''-L'', ''-C'', ''-R'', ''-D'', ''-q'', ''-b'']"

text \<open>The arguments are those after the program name. One branch of the chain of comparisons; \<open>None\<close> for a backend that does not exist.\<close>

definition apply_flag :: "string \<Rightarrow> string \<Rightarrow> args \<Rightarrow> args option" where
  "apply_flag arg v a =
     (if arg = ''-c'' then Some (a\<lparr>ar_config_path := v\<rparr>)
      else if arg = ''-p'' then Some (a\<lparr>ar_cfg := (ar_cfg a)\<lparr>listen_port := atoi v\<rparr>, ar_port_set := True\<rparr>)
      else if arg = ''-v'' then Some (a\<lparr>ar_cfg := (ar_cfg a)\<lparr>log_level := atoi v\<rparr>, ar_level_set := True\<rparr>)
      else if arg = ''-w'' then Some (a\<lparr>ar_cfg := (ar_cfg a)\<lparr>thread_pool_size := strtoul v\<rparr>, ar_workers_set := True\<rparr>)
      else if arg = ''-L'' then Some (a\<lparr>ar_cfg := (ar_cfg a)\<lparr>event_loops := strtoul v\<rparr>\<rparr>)
      else if arg = ''-C'' then Some (a\<lparr>ar_cfg := (ar_cfg a)\<lparr>cache_enabled := (atoi v \<noteq> 0)\<rparr>\<rparr>)
      else if arg = ''-R'' then Some (a\<lparr>ar_cfg := (ar_cfg a)\<lparr>async_resolve := (atoi v \<noteq> 0)\<rparr>\<rparr>)
      else if arg = ''-D'' then Some (a\<lparr>ar_cfg := (ar_cfg a)\<lparr>resolve_delay_ms := atoi v\<rparr>\<rparr>)
      else if arg = ''-q'' then Some (a\<lparr>ar_cfg := (ar_cfg a)\<lparr>job_queue_capacity := strtoul v\<rparr>, ar_queue_set := True\<rparr>)
      else case parse_backend v of
             None \<Rightarrow> None
           | Some k \<Rightarrow> Some (a\<lparr>ar_cfg := (ar_cfg a)\<lparr>backend := k\<rparr>, ar_backend_set := True\<rparr>))"

fun parse_args :: "string list \<Rightarrow> args \<Rightarrow> int + args" where
  "parse_args [] a = Inr a"
| "parse_args [arg] a = Inl (if arg \<in> {''-h'', ''--help''} then 0 else 2)"
| "parse_args (arg # v # rest) a =
     (if arg \<in> set value_flags then
        (case apply_flag arg v a of None \<Rightarrow> Inl 2 | Some a' \<Rightarrow> parse_args rest a')
      else Inl (if arg \<in> {''-h'', ''--help''} then 0 else 2))"

text \<open>The file is read first and the flags are applied again.\<close>

definition merge_config :: "args \<Rightarrow> config \<Rightarrow> config" where
  "merge_config a from_file =
     (let flags = ar_cfg a;
          c1 = (if ar_port_set a then from_file\<lparr>listen_port := listen_port flags\<rparr> else from_file);
          c2 = (if ar_level_set a then c1\<lparr>log_level := log_level flags\<rparr> else c1);
          c3 = (if ar_backend_set a then c2\<lparr>backend := backend flags\<rparr> else c2);
          c4 = (if ar_workers_set a then c3\<lparr>thread_pool_size := thread_pool_size flags\<rparr> else c3)
      in if ar_queue_set a then c4\<lparr>job_queue_capacity := job_queue_capacity flags\<rparr> else c4)"

definition main_config :: "(string \<Rightarrow> string option) \<Rightarrow> string list \<Rightarrow> (int + config) option" where
  "main_config files argv =
     (case parse_args argv init_args of
        Inl code \<Rightarrow> Some (Inl code)
      | Inr a \<Rightarrow>
          if ar_config_path a = [] then Some (Inr (ar_cfg a))
          else do {
            r \<leftarrow> load_config (ar_config_path a) (files (ar_config_path a)) default_config;
            Some (case r of Inl err \<Rightarrow> Inl 2 | Inr from_file \<Rightarrow> Inr (merge_config a from_file))
          })"


section \<open>Starting the backend\<close>

datatype running_backend = RunTpc tpc | RunPool pool | RunLoops loops

definition make_backend :: "os \<Rightarrow> config \<Rightarrow> fd \<Rightarrow> world \<Rightarrow> running_backend" where
  "make_backend os cfg listener w =
     (case backend cfg of
        ThreadPerConn \<Rightarrow> RunTpc (tpc_start os listener w)
      | ThreadPool \<Rightarrow> RunPool (pool_start os cfg listener w)
      | EventLoop \<Rightarrow> RunLoops (make_event_loop os cfg listener w))"

definition reuseport :: "config \<Rightarrow> bool" where
  "reuseport cfg \<longleftrightarrow> backend cfg = EventLoop \<and> event_loops cfg > 1"

text \<open>\<^verbatim>\<open>main\<close> up to the first step of \<^verbatim>\<open>run\<close>: the exit code with the calls made so far, or the running backend.\<close>

definition main_setup :: "os \<Rightarrow> (string \<Rightarrow> string option) \<Rightarrow> string list \<Rightarrow> trace \<Rightarrow> (int \<times> trace + config \<times> running_backend) option" where
  "main_setup os files argv t = do {
     r \<leftarrow> main_config files argv;
     (case r of
        Inl code \<Rightarrow> Some (Inl (code, t))
      | Inr cfg \<Rightarrow>
          let (limit, t1) = fd_limit_raise os (desired_fd_limit cfg) t;
              (listener, err, t2) = listen_on os (listen_host cfg) (listen_port cfg) (backlog cfg) [] (reuseport cfg) t1
          in if \<not> fd_valid listener then Some (Inl (1, t2))
             else
               let resolver = new_resolver (if async_resolve cfg then resolver_threads cfg else 0) (dns_cache_ttl_s cfg) (resolve_delay_ms cfg);
                   cache = (if cache_enabled cfg then Some (make_cache cfg) else None)
               in Some (Inr (cfg, make_backend os cfg listener \<lparr>w_trace = t2, w_res = resolver, w_cache = cache\<rparr>)))
   }"


section \<open>Flags as a reader of the command line sees them\<close>

text \<open>The last value given for a flag.\<close>

fun given :: "string \<Rightarrow> string list \<Rightarrow> string option" where
  "given f (arg # v # rest) = (case given f rest of Some x \<Rightarrow> Some x | None \<Rightarrow> if arg = f then Some v else None)"
| "given f _ = None"

definition pick :: "string option \<Rightarrow> (string \<Rightarrow> 'a) \<Rightarrow> 'a \<Rightarrow> 'a" where
  "pick g f d = (case g of Some v \<Rightarrow> f v | None \<Rightarrow> d)"

lemma pick_simps [simp]: "pick None f d = d" "pick (Some v) f d = f v"
  by (simp_all add: pick_def)

definition args_given :: "string list \<Rightarrow> args \<Rightarrow> args" where
  "args_given argv a =
     \<lparr>ar_cfg = (ar_cfg a)\<lparr>listen_port := pick (given ''-p'' argv) atoi (listen_port (ar_cfg a)),
        log_level := pick (given ''-v'' argv) atoi (log_level (ar_cfg a)),
        thread_pool_size := pick (given ''-w'' argv) strtoul (thread_pool_size (ar_cfg a)),
        event_loops := pick (given ''-L'' argv) strtoul (event_loops (ar_cfg a)),
        cache_enabled := pick (given ''-C'' argv) (\<lambda>v. atoi v \<noteq> 0) (cache_enabled (ar_cfg a)),
        async_resolve := pick (given ''-R'' argv) (\<lambda>v. atoi v \<noteq> 0) (async_resolve (ar_cfg a)),
        resolve_delay_ms := pick (given ''-D'' argv) atoi (resolve_delay_ms (ar_cfg a)),
        job_queue_capacity := pick (given ''-q'' argv) strtoul (job_queue_capacity (ar_cfg a)),
        backend := pick (given ''-b'' argv) (\<lambda>v. the (parse_backend v)) (backend (ar_cfg a))\<rparr>,
      ar_config_path = pick (given ''-c'' argv) (\<lambda>v. v) (ar_config_path a),
      ar_port_set = (ar_port_set a \<or> given ''-p'' argv \<noteq> None), ar_level_set = (ar_level_set a \<or> given ''-v'' argv \<noteq> None),
      ar_backend_set = (ar_backend_set a \<or> given ''-b'' argv \<noteq> None), ar_workers_set = (ar_workers_set a \<or> given ''-w'' argv \<noteq> None),
      ar_queue_set = (ar_queue_set a \<or> given ''-q'' argv \<noteq> None)\<rparr>"

lemma pick_given: "pick (given f (arg # v # rest)) g d = pick (given f rest) g (if arg = f then g v else d)"
  by (simp add: pick_def split: option.splits)

lemma given_Cons: "given f (arg # v # rest) \<noteq> None \<longleftrightarrow> arg = f \<or> given f rest \<noteq> None"
  by (simp split: option.splits)

lemma args_given_step:
  assumes "arg \<in> set value_flags" and "apply_flag arg v a = Some a'"
  shows "args_given rest a' = args_given (arg # v # rest) a"
proof -
  consider "arg = ''-c''" | "arg = ''-p''" | "arg = ''-v''" | "arg = ''-w''" | "arg = ''-L''" | "arg = ''-C''" | "arg = ''-R''" | "arg = ''-D''"
    | "arg = ''-q''" | k where "arg = ''-b''" "parse_backend v = Some k" using assms
    by (auto simp: value_flags_def apply_flag_def split: option.splits)
  then show ?thesis
    by cases (use assms(2) in \<open>simp_all add: apply_flag_def args_given_def pick_given given_Cons del: given.simps not_None_eq, auto\<close>)
qed

lemma parse_args_given: "parse_args argv a = Inr a' \<Longrightarrow> a' = args_given argv a"
proof (induction argv a rule: parse_args.induct)
  case (3 arg v rest a)
  then show ?case using args_given_step by (auto split: if_splits option.splits)
qed (simp_all add: args_given_def)


section \<open>Properties\<close>

text \<open>What a file, or the defaults, become under the five flags that are applied again after it.\<close>

definition overridden :: "string list \<Rightarrow> config \<Rightarrow> config" where
  "overridden argv c =
     c\<lparr>listen_port := pick (given ''-p'' argv) atoi (listen_port c), log_level := pick (given ''-v'' argv) atoi (log_level c),
       backend := pick (given ''-b'' argv) (\<lambda>v. the (parse_backend v)) (backend c),
       thread_pool_size := pick (given ''-w'' argv) strtoul (thread_pool_size c),
       job_queue_capacity := pick (given ''-q'' argv) strtoul (job_queue_capacity c)\<rparr>"

lemma merge_config_overridden: "merge_config (args_given argv init_args) c = overridden argv c"
  by (cases "given ''-p'' argv"; cases "given ''-v'' argv"; cases "given ''-b'' argv"; cases "given ''-w'' argv"; cases "given ''-q'' argv")
    (simp_all add: merge_config_def overridden_def args_given_def init_args_def Let_def)



lemma fd_limit_raise_quiet: "only_events quiet t (snd (fd_limit_raise os n t))"
  by (auto simp: fd_limit_raise_def fd_limit_current_def Let_def only_events_Cons split: sum.splits)

lemma parse_args_codes: "parse_args argv a = Inl c \<Longrightarrow> c \<in> {0, 2}"
  by (induction argv a rule: parse_args.induct) (auto split: if_splits option.splits)

lemma listen_loop_bound:
  assumes "listen_loop os n re res err t = (fd, err', t')" and "fd \<noteq> -1"
  shows "suffix t t' \<and> (\<exists>p\<in>set res. \<exists>t0. t' = EvListen fd n None # EvBind fd (ai_addr p) None # t0)"
  using assms
proof (induction res arbitrary: err t)
  case (Cons p ps)
  let ?t1 = "EvSocket (ai_family p) (ai_socktype p) (ai_protocol p) (os_socket os t (ai_family p) (ai_socktype p) (ai_protocol p)) # t"
  show ?case
  proof (cases "os_socket os t (ai_family p) (ai_socktype p) (ai_protocol p)")
    case (Inl e)
    then have "listen_loop os n re ps err ?t1 = (fd, err', t')" using Cons.prems(1) by (simp add: Let_def)
    from Cons.IH [OF this Cons.prems(2)] show ?thesis by (auto dest: suffix_ConsD)
  next
    case (Inr f)
    define t2 where "t2 = EvSetsockopt f SO_REUSEADDR (os_setsockopt os ?t1 f SO_REUSEADDR) # ?t1"
    define t3 where "t3 = (if re then EvSetsockopt f SO_REUSEPORT (os_setsockopt os t2 f SO_REUSEPORT) # t2 else t2)"
    define t4 where "t4 = suppress_sigpipe os f t3"
    define b where "b = os_bind os t4 f (ai_addr p)"
    define t5 where "t5 = EvBind f (ai_addr p) b # t4"
    define t6 where "t6 = (if b = None then EvListen f n (os_listen os t5 f n) # t5 else t5)"
    have s: "suffix t t6"
      by (simp add: t6_def t5_def t4_def t3_def t2_def suppress_sigpipe_def suffix_ConsI)
    have eq: "(fd, err', t') = (if b = None \<and> os_listen os t5 f n = None then (f, err, t6)
        else listen_loop os n re ps (''bind/listen: '' @ os_strerror os (last_errno t6)) (fd_destroy f t6))"
      unfolding t6_def t5_def b_def t4_def t3_def t2_def using Cons.prems(1) [symmetric]
      by (simp only: listen_loop.simps Let_def Inr sum.case)
    show ?thesis
    proof (cases "b = None \<and> os_listen os t5 f n = None")
      case True
      then show ?thesis using eq s by (auto simp: t6_def t5_def)
    next
      case False
      then have "listen_loop os n re ps (''bind/listen: '' @ os_strerror os (last_errno t6)) (fd_destroy f t6) = (fd, err', t')" using eq by auto
      from Cons.IH [OF this Cons.prems(2)] have "suffix (fd_destroy f t6) t'"
          "\<exists>p\<in>set ps. \<exists>t0. t' = EvListen fd n None # EvBind fd (ai_addr p) None # t0" by blast+
      moreover have "suffix t (fd_destroy f t6)" using s by (simp add: fd_destroy_def fd_reset_def suffix_ConsI)
      ultimately show ?thesis using suffix_order.trans by auto
    qed
  qed
qed simp

text \<open>The listener is bound to an address that the name service gave for the host and port, and it listens.\<close>

definition bound_as :: "string \<Rightarrow> int \<Rightarrow> int \<Rightarrow> trace \<Rightarrow> fd \<Rightarrow> trace \<Rightarrow> bool" where
  "bound_as host port n t fd t' \<longleftrightarrow>
     (\<exists>res. suffix (EvGetaddrinfo (if host = [] then None else Some (c_str host)) (to_string_int port) True (Inr res) # t) t' \<and>
        (\<exists>p\<in>set res. \<exists>t0. t' = EvListen fd n None # EvBind fd (ai_addr p) None # t0))"

lemma listen_on_bound:
  assumes "listen_on os host port n [] re t = (fd, err, t')" and "0 \<le> fd"
  shows "bound_as host port n t fd t'"
proof -
  let ?node = "if host = [] then None else Some (c_str host)"
  obtain res where r: "os_getaddrinfo os t ?node (to_string_int port) True = Inr res"
    using assms by (auto simp: listen_on_def Let_def split: sum.splits)
  obtain err' where "listen_loop os n re res [] (EvGetaddrinfo ?node (to_string_int port) True (Inr res) # t) = (fd, err', t')"
    using assms(1) r by (auto simp: listen_on_def Let_def split: prod.splits)
  from listen_loop_bound [OF this] show ?thesis unfolding bound_as_def using assms(2) by (intro exI [of _ res]) auto
qed

lemma init_inboxes_suffix: "suffix t (snd (snd (init_inboxes os n t)))"
proof (induction n arbitrary: t)
  case (Suc n)
  obtain ok re we t1 where p: "make_pipe os (-1) (-1) t = (ok, re, we, t1)" by (metis prod_cases4)
  have "suffix t t1" using grows_suffix [OF make_pipe_grows [OF p]] .
  then show ?case using Suc.IH [of t1] suffix_order.trans by (auto simp: inbox_init_def p Let_def split: prod.splits)
qed simp

lemma set_nonblocking_suffix: "suffix t (snd (set_nonblocking os fd t))"
  by (rule only_events_suffix [OF set_nonblocking_quiet])

text \<open>The running backend: its kind, its listener, the calls made before it, its resolver and its cache.\<close>

definition started :: "config \<Rightarrow> fd \<Rightarrow> world \<Rightarrow> running_backend \<Rightarrow> bool" where
  "started cfg fd w st \<longleftrightarrow>
     (case st of
        RunTpc p \<Rightarrow> backend cfg = ThreadPerConn \<and> tc_listener p = fd \<and> suffix (w_trace w) (tc_trace p) \<and>
          tc_res p = w_res w \<and> tc_cache p = w_cache w
      | RunPool p \<Rightarrow> backend cfg = ThreadPool \<and> tp_listener p = fd \<and> suffix (w_trace w) (tp_trace p) \<and>
          tp_res p = w_res w \<and> tp_cache p = w_cache w
      | RunLoops p \<Rightarrow> backend cfg = EventLoop \<and>
          (if event_loops cfg > 1 then lp_listener p = fd else map el_listener (lp_loops p) = [fd]) \<and>
          suffix (w_trace w) (lp_trace p) \<and> lp_res p = w_res w \<and> set (lp_caches p) \<subseteq> {w_cache w})"

lemma make_backend_started:
  assumes "w_cache w = (if cache_enabled cfg then Some (make_cache cfg) else None)"
  shows "started cfg fd w (make_backend os cfg fd w)"
proof (cases "backend cfg")
  case ThreadPerConn
  then show ?thesis by (simp add: started_def make_backend_def tpc_start_def set_nonblocking_suffix)
next
  case ThreadPool
  then show ?thesis by (simp add: started_def make_backend_def pool_start_def set_nonblocking_suffix)
next
  case EventLoop
  obtain ok ibs t2 where i: "init_inboxes os (shard_count cfg) (snd (set_nonblocking os fd (w_trace w))) = (ok, ibs, t2)" by (metis prod_cases3)
  have "suffix (w_trace w) t2"
    using suffix_order.trans [OF set_nonblocking_suffix [of "w_trace w" os fd] init_inboxes_suffix [of _ os "shard_count cfg"]] i by simp
  then show ?thesis
    using EventLoop i assms
    by (auto simp: started_def make_backend_def make_event_loop_def sharded_start_def single_start_def new_loop_def Let_def)
qed

lemma make_backend_init:
  assumes "open_fds (w_trace w) = insert fd F" and "0 \<le> fd" and "w_cache w \<in> {None, Some (make_cache cfg)}" and "\<exists>n ttl delay. w_res w = new_resolver n ttl delay"
  shows "case make_backend os cfg fd w of
      RunTpc p \<Rightarrow> tpc_init (insert fd F) os cfg p
    | RunPool p \<Rightarrow> pool_init (insert fd F) os cfg p
    | RunLoops p \<Rightarrow> loops_init os cfg p"
proof -
  obtain n ttl delay where r: "w = \<lparr>w_trace = w_trace w, w_res = new_resolver n ttl delay, w_cache = w_cache w\<rparr>" using assms(4) by (metis world.surjective old.unit.exhaust)
  show ?thesis
  proof (cases "backend cfg")
    case ThreadPerConn
    have "tpc_init (insert fd F) os cfg (tpc_start os fd w)" unfolding tpc_init_def
      by (rule exI [of _ fd], rule exI [of _ "w_trace w"], rule exI [of _ n], rule exI [of _ ttl], rule exI [of _ delay], rule exI [of _ "w_cache w"]) (intro conjI assms(1,3) arg_cong [OF r])
    then show ?thesis using ThreadPerConn by (simp add: make_backend_def tpc_start_def)
  next
    case ThreadPool
    have "pool_init (insert fd F) os cfg (pool_start os cfg fd w)" unfolding pool_init_def
      by (rule exI [of _ fd], rule exI [of _ "w_trace w"], rule exI [of _ n], rule exI [of _ ttl], rule exI [of _ delay], rule exI [of _ "w_cache w"]) (intro conjI assms(1,3) arg_cong [OF r])
    then show ?thesis using ThreadPool by (simp add: make_backend_def pool_start_def)
  next
    case EventLoop
    have "loops_init os cfg (make_event_loop os cfg fd w)" unfolding loops_init_def
      by (rule exI [of _ fd], rule exI [of _ "w_trace w"], rule exI [of _ n], rule exI [of _ ttl], rule exI [of _ delay], rule exI [of _ "w_cache w"]) (intro conjI assms(2,3) arg_cong [OF r], simp add: assms(1))
    then show ?thesis using EventLoop by (simp add: make_backend_def)
  qed
qed

text \<open>
  C35. What \<^verbatim>\<open>main\<close> hands to the backend. Either it leaves with an exit code and every descriptor it opened
  is closed, or the descriptor limit was raised as configured and then one new descriptor was made, the
  listener: bound to an address that the name service gave for the configured host and port, listening
  with the configured backlog, with \<^verbatim>\<open>SO_REUSEPORT\<close> only when there are several event loops. The backend
  that the configuration names starts after these calls on this very listener, with a resolver and a cache
  as configured, in a state from which the properties of that backend are proved.
\<close>

theorem main_starts_backend:
  assumes os: "fresh_descriptors os" and run: "main_setup os files argv t = Some r"
  shows "case r of
      Inl (code, t') \<Rightarrow> open_fds t' = open_fds t \<and> code \<in> {0, 1, 2}
    | Inr (cfg, st) \<Rightarrow> main_config files argv = Some (Inr cfg) \<and>
        (\<exists>fd t2. let t1 = snd (fd_limit_raise os (desired_fd_limit cfg) t) in
          listener_result (backlog cfg) (backend cfg = EventLoop \<and> 1 < event_loops cfg) t1 fd t2 \<and> 0 \<le> fd \<and>
          bound_as (listen_host cfg) (listen_port cfg) (backlog cfg) t1 fd t2 \<and>
          started cfg fd
            \<lparr>w_trace = t2,
             w_res = new_resolver (if async_resolve cfg then resolver_threads cfg else 0) (dns_cache_ttl_s cfg) (resolve_delay_ms cfg),
             w_cache = (if cache_enabled cfg then Some (make_cache cfg) else None)\<rparr> st \<and>
          (case st of
             RunTpc p \<Rightarrow> tpc_init (insert fd (open_fds t)) os cfg p
           | RunPool p \<Rightarrow> pool_init (insert fd (open_fds t)) os cfg p
           | RunLoops p \<Rightarrow> loops_init os cfg p))"
proof -
  have codes: "main_config files argv = Some (Inl c) \<Longrightarrow> c \<in> {0, 2}" for c
    using parse_args_codes [of argv init_args] by (auto simp: main_config_def split: sum.splits if_splits bind_splits)
  obtain m where m: "main_config files argv = Some m" using run by (auto simp: main_setup_def split: bind_splits)
  show ?thesis
  proof (cases m)
    case (Inl c)
    then have "r = Inl (c, t)" using run m by (simp add: main_setup_def)
    then show ?thesis using codes m Inl by auto
  next
    case (Inr cfg)
    obtain n t1 where f: "fd_limit_raise os (desired_fd_limit cfg) t = (n, t1)" by fastforce
    obtain fd err t2 where l: "listen_on os (listen_host cfg) (listen_port cfg) (backlog cfg) [] (reuseport cfg) t1 = (fd, err, t2)" by (metis prod_cases3)
    have t1: "open_fds t1 = open_fds t" using only_events_quiet(1) [OF fd_limit_raise_quiet] f by (metis snd_conv)
    have res: "listener_result (backlog cfg) (reuseport cfg) t1 fd t2" using listen_on_listener [OF os l] by blast
    show ?thesis
    proof (cases "fd_valid fd")
      case False
      then have "r = Inl (1, t2)" using run m Inr f l by (simp add: main_setup_def Let_def)
      then show ?thesis using res False t1 by (auto simp: listener_result_def fd_valid_def split: if_splits)
    next
      case True
      define w where "w = \<lparr>w_trace = t2, w_res = new_resolver (if async_resolve cfg then resolver_threads cfg else 0) (dns_cache_ttl_s cfg) (resolve_delay_ms cfg),
          w_cache = (if cache_enabled cfg then Some (make_cache cfg) else None)\<rparr>"
      have r: "r = Inr (cfg, make_backend os cfg fd w)" using run m Inr f l True by (simp add: main_setup_def Let_def w_def)
      have fd: "0 \<le> fd" "open_fds t2 = insert fd (open_fds t)" using res True t1 by (auto simp: listener_result_def fd_valid_def split: if_splits)
      have i: "case make_backend os cfg fd w of
             RunTpc p \<Rightarrow> tpc_init (insert fd (open_fds t)) os cfg p
           | RunPool p \<Rightarrow> pool_init (insert fd (open_fds t)) os cfg p
           | RunLoops p \<Rightarrow> loops_init os cfg p"
        by (rule make_backend_init) (use fd in \<open>auto simp: w_def\<close>)
      have s: "started cfg fd w (make_backend os cfg fd w)" by (rule make_backend_started) (simp add: w_def)
      show ?thesis
        unfolding r using m Inr res fd(1) listen_on_bound [OF l fd(1)] i s
        by (auto simp: Let_def f w_def reuseport_def intro!: exI [of _ fd] exI [of _ t2])
    qed
  qed
qed

theorem main_starts_backend_witness:
  "\<exists>cfg p. main_setup silent (\<lambda>_. None) [''-b'', ''thread_pool''] [] = Some (Inr (cfg, RunPool p)) \<and> tp_listener p = 3 \<and>
     pool_init {3} silent cfg p"
proof -
  have "parse_args [''-b'', ''thread_pool''] init_args = Inr (init_args\<lparr>ar_cfg := default_config\<lparr>backend := ThreadPool\<rparr>, ar_backend_set := True\<rparr>)"
    by (simp add: value_flags_def apply_flag_def init_args_def parse_backend_def)
  then have c: "main_config (\<lambda>_. None) [''-b'', ''thread_pool''] = Some (Inr (default_config\<lparr>backend := ThreadPool\<rparr>))"
    by (simp add: main_config_def init_args_def)
  obtain n t1 where f: "fd_limit_raise silent 10240 [] = (n, t1)" "max_fd t1 = 2"
    by (simp add: fd_limit_raise_def fd_limit_current_def demo_os_def Let_def)
  obtain t2 where l: "listen_on silent ''127.0.0.1'' 8888 512 [] False t1 = (3, [], t2)"
    using f(2) by (simp add: listen_on_def demo_os_def suppress_sigpipe_def fd_valid_def)
  obtain p where p: "main_setup silent (\<lambda>_. None) [''-b'', ''thread_pool''] [] = Some (Inr (default_config\<lparr>backend := ThreadPool\<rparr>, RunPool p))"
      "tp_listener p = 3"
    using c f(1) l by (simp add: main_setup_def default_config_def reuseport_def fd_valid_def make_backend_def pool_start_def)
  from main_starts_backend [OF demo_os_hypotheses(1) p(1)] p show ?thesis by (auto simp: Let_def started_def)
qed

end
