(* ===== verification/Spec2Isabelle.thy ===== *)
theory Spec2Isabelle
  imports Prelude Http Config Cache Socket Resolver_Safety Proxy_Properties Proxy_Progress Pool_Backend Thread_Backend Loop_Properties Main_Program
begin

text \<open>
  Verification of evproxy, an HTTP forward proxy with three interchangeable I/O backends.

  \<^bold>\<open>The program.\<close> \<^verbatim>\<open>main.cpp\<close> reads the command line and a configuration file (\<^verbatim>\<open>config.cpp\<close>), binds a listener
  (\<^verbatim>\<open>socket.cpp\<close>), creates a name resolver (\<^verbatim>\<open>resolver.cpp\<close>) and a response cache (\<^verbatim>\<open>cache.hpp\<close>) and runs one of the
  backends of \<^verbatim>\<open>backend/\<close>: a thread per connection, a thread pool fed by a bounded queue (\<^verbatim>\<open>conn_queue.cpp\<close>), or one or
  several kqueue event loops. All of them drive the same state machine, \<^verbatim>\<open>Connection\<close> of \<^verbatim>\<open>connection.cpp\<close>: read a
  request (\<^verbatim>\<open>http.cpp\<close>), resolve, connect to the first reachable address, send the rewritten request, relay the
  answer, perhaps store it.

  \<^bold>\<open>Conventions.\<close> Strings are lists of characters, \<^verbatim>\<open>size_t\<close> is \<open>nat\<close>, \<^verbatim>\<open>uint64_t\<close> counters are 64-bit words, descriptors are
  \<open>int\<close> with -1 for the invalid one. A function that may throw, or that loops on \<^verbatim>\<open>EINTR\<close>, returns an option, and that it
  returns is proved. The kernel and the C library are a parameter, the record \<open>os\<close> of theory \<open>Socket\<close>: each call is
  answered by a function of the history of all calls so far, and appends an event to it. Which descriptors are open,
  which bytes went through a socket and what a kqueue has registered are functions of that history. Three
  hypotheses about it are used, each with a concrete kernel that satisfies it (\<open>demo_os\<close>): new descriptors are
  not open yet (\<open>fresh_descriptors\<close>), a call is not interrupted for ever (\<open>finite_interrupts\<close>), \<^verbatim>\<open>recv\<close> and \<^verbatim>\<open>send\<close> do not report more
  bytes than were asked for (\<open>bounded_io\<close>).

  \<^bold>\<open>Theories.\<close>
  \<^item> \<open>Prelude\<close>: string searching, trimming and number conversion as the C++ library does them, and generic lemmas.
  \<^item> \<open>Http\<close>: \<^verbatim>\<open>parse_request\<close>, \<^verbatim>\<open>build_upstream_request\<close>, \<^verbatim>\<open>error_response\<close>. The parser never throws, is independent of bytes after the
    head, yields well-formed requests and inverts the printing of a client head; the rewritten request has
    exactly the lines it should.
  \<^item> \<open>Config\<close>: the record with its defaults and the file loader; unknown keys are errors, and loading inverts printing.
  \<^item> \<open>Cache\<close>: the LRU cache as a list of nodes with an index and a 64-bit byte counter. It refines a recency list, a hit is
    the last insertion under its key, an insertion of a new key leaves it within its bounds, a recently stored
    response stays as far as the bounds allow, keys determine requests.
  \<^item> \<open>Socket\<close>: every function of \<^verbatim>\<open>socket.cpp\<close> over the history of calls, with its effect on descriptors and bytes.
  \<^item> \<open>Resolver\<close>, \<open>Resolver_Safety\<close>: the TTL cache, shared jobs with use counts, and resolver threads as program
    counters with one step per access to shared state. In every interleaving a job found ready carries its answer, no pipe
    leaks, waiting threads make progress and shutdown drains the queue. With a record of the stores beside the runs, a
    hit of the TTL cache is the latest store of its key and younger than the TTL.
  \<^item> \<open>Connection\<close>, \<open>Connection_Safety\<close>: the state machine, one definition per member function, and what each of them keeps
    of its invariant and leaves alone of the rest of the process.
  \<^item> \<open>Proxy\<close>, \<open>Proxy_Properties\<close>: the process as a transition system of connections, accepted clients, resolver threads and
    shared caches (\<open>proxy_run\<close>), its invariant, and what follows: exact relaying, the request the origin gets, what the
    client sees, what the cache may hold, no leaks.
  \<^item> \<open>Proxy_Progress\<close>: every schedule of a connection and the resolver threads is finite and ends with the connection done,
    if the peers make progress (\<open>progressing\<close>).
  \<^item> \<open>Backend\<close>: schedules of threads, and the locale \<open>proxy_backend\<close>, the contract that a backend is a schedule of the process;
    the serving loop that two backends share.
  \<^item> \<open>Conn_Queue\<close>: the bounded queue; the locale \<open>handoff\<close> for queues that pass clients between threads.
  \<^item> \<open>Pool_Backend\<close>, \<open>Thread_Backend\<close>, \<open>Loop_Backend\<close>: the three backends as records of program counters and shared state with an
    executable step function. Each interprets \<open>proxy_backend\<close>, so what holds of the process holds of each of them. Besides:
    the ceilings and clean shutdown of the pool, the soundness of the live counter as a shutdown barrier.
  \<^item> \<open>Loop_Safety\<close>, \<open>Loop_Properties\<close>: what one party leaves alone of the registrations of the others, and that a
    loop's kqueue holds exactly one registration per live connection, for what it waits for now.
  \<^item> \<open>Main_Program\<close>: the command line, the merge with the file, the start of the backend on the configured listener.

  \<^bold>\<open>Granularity and bounds.\<close> A step of a backend thread runs from one access to shared state to the next. One call of
  \<^verbatim>\<open>on_ready\<close> is one step: it uses the connection alone, and of what is shared only the resolver and the response cache, each
  under its own lock in the source. Blocking (a full queue, an empty queue, a join) is a step that is
  not enabled. A wait for space in the queue may expire at any time, as an argument of the step. Addresses of
  connections in an event loop are any numbers not in use. The loops on \<^verbatim>\<open>EINTR\<close> are \<open>partial_function\<close>s, which return by
  \<open>finite_interrupts\<close>; the other loops are recursive functions with termination proofs; no fuel is used.

  \<^bold>\<open>Not modelled.\<close> Log messages and the \<^verbatim>\<open>log.hpp\<close> that prints them, which nothing reads. \<^verbatim>\<open>sigaction\<close> and \<^verbatim>\<open>signal\<close> calls;
  the handler is the stop action of each backend, from the moment its \<^verbatim>\<open>run\<close> has set up its threads. Failure of thread
  creation and of memory allocation. The memory model of C++: accesses are interleaved, the atomics being
  used as flags and counters and everything else under a lock. The destruction of a backend after \<^verbatim>\<open>run\<close> has
  returned, which closes its listener, kqueues and inboxes. The benchmark and test programs.
\<close>

end
